(* ===== verification/Psch_Prelude.thy ===== *)
theory Psch_Prelude
  imports Main "HOL-Library.Word" "HOL-Library.Multiset"
begin

section \<open>Prelude: machine types, C buffers, outcomes of PostgreSQL calls\<close>

text \<open>
  What the components share. The C integer types are words of their width: a signed
  field is the same bit pattern, read with \<^const>\<open>sint\<close>. A C array of \<^verbatim>\<open>char\<close> is
  the list of its bytes, of the array's length, so that a write past its end is visible:
  \<open>memcpy\<close> and \<open>set_byte\<close> return \<^const>\<open>None\<close> there.

  A call that may touch memory or raise has a result of type \<open>('s \<times> 'a outcome) option\<close>:
  \<^item> \<^const>\<open>None\<close>: the C code has undefined behaviour (a dereference of memory that is
    not allocated, a double free, an access past an array);
  \<^item> \<open>Some (s, Throw)\<close>: \<^verbatim>\<open>ereport(ERROR)\<close> left the function by \<^verbatim>\<open>longjmp\<close> in state \<open>s\<close>;
  \<^item> \<open>Some (s, Ret x)\<close>: it returned \<open>x\<close> in state \<open>s\<close>.
\<close>

unbundle bit_operations_syntax

named_theorems psch_defs \<open>definitions of the small operations, unfolded together\<close>
named_theorems ring_simps \<open>rewrite rules for ring positions and contents\<close>

type_synonym u8 = "8 word"
type_synonym u16 = "16 word"
type_synonym u32 = "32 word"
type_synonym u64 = "64 word"
type_synonym i16 = "16 word"
type_synonym i32 = "32 word"
type_synonym i64 = "64 word"

type_synonym Oid = u32
type_synonym TimestampTz = i64
type_synonym dsa_pointer = u64

abbreviation NUL :: char where
  "NUL \<equiv> CHR 0x00"

abbreviation InvalidDsaPointer :: dsa_pointer where
  "InvalidDsaPointer \<equiv> 0"

abbreviation InvalidOid :: Oid where
  "InvalidOid \<equiv> 0"

subsection \<open>Outcomes\<close>

datatype 'a outcome = Ret 'a | Throw

type_synonym ('s, 'a) pgres = "('s \<times> 'a outcome) option"

definition pg_ret :: "'s \<Rightarrow> 'a \<Rightarrow> ('s, 'a) pgres" where
  "pg_ret s x = Some (s, Ret x)"

definition pg_bind ::
    "('s, 'a) pgres \<Rightarrow> ('s \<Rightarrow> 'a \<Rightarrow> ('s, 'b) pgres) \<Rightarrow> ('s, 'b) pgres" where
  "pg_bind m f =
     (case m of
        None \<Rightarrow> None
      | Some (s, Ret x) \<Rightarrow> f s x
      | Some (s, Throw) \<Rightarrow> Some (s, Throw))"

text \<open>\<^verbatim>\<open>PG_TRY(); m PG_FINALLY(); fin PG_END_TRY();\<close>: \<open>fin\<close> runs on both exits.\<close>

definition pg_finally :: "('s, 'a) pgres \<Rightarrow> ('s \<Rightarrow> 's) \<Rightarrow> ('s, 'a) pgres" where
  "pg_finally m fin = (case m of None \<Rightarrow> None | Some (s, r) \<Rightarrow> Some (fin s, r))"

text \<open>\<^verbatim>\<open>PG_TRY(); m PG_CATCH(); h PG_END_TRY();\<close>: \<open>h\<close> swallows the error.\<close>

definition pg_catch :: "('s, 'a) pgres \<Rightarrow> ('s \<Rightarrow> ('s, 'a) pgres) \<Rightarrow> ('s, 'a) pgres" where
  "pg_catch m h =
     (case m of
        None \<Rightarrow> None
      | Some (s, Ret x) \<Rightarrow> Some (s, Ret x)
      | Some (s, Throw) \<Rightarrow> h s)"

lemma pg_bind_simps [simp]:
  "pg_bind None f = None"
  "pg_bind (Some (s, Ret x)) f = f s x"
  "pg_bind (Some (s, Throw)) f = Some (s, Throw)"
  by (simp_all add: pg_bind_def)

lemma pg_bind_ret [simp]: "pg_bind (pg_ret s x) f = f s x"
  by (simp add: pg_ret_def)

lemma pg_finally_simps [simp]:
  "pg_finally None fin = None"
  "pg_finally (Some (s, r)) fin = Some (fin s, r)"
  by (simp_all add: pg_finally_def)

lemma pg_catch_simps [simp]:
  "pg_catch None h = None"
  "pg_catch (Some (s, Ret x)) h = Some (s, Ret x)"
  "pg_catch (Some (s, Throw)) h = h s"
  by (simp_all add: pg_catch_def)

lemma pg_bind_eq_Some:
  "pg_bind m f = Some r \<longleftrightarrow>
     (\<exists>s. m = Some (s, Throw) \<and> r = (s, Throw)) \<or>
     (\<exists>s x. m = Some (s, Ret x) \<and> f s x = Some r)"
  by (auto simp: pg_bind_def split: option.splits prod.splits outcome.splits)

lemma pg_bind_not_None:
  "m \<noteq> None \<Longrightarrow> (\<And>s x. m = Some (s, Ret x) \<Longrightarrow> f s x \<noteq> None) \<Longrightarrow> pg_bind m f \<noteq> None"
  by (auto simp: pg_bind_def split: option.splits prod.splits outcome.splits)

text \<open>
  A triple for such calls: \<open>m\<close> has no undefined behaviour, satisfies \<open>Q\<close> if it returns and
  \<open>T\<close> if it raises. The rules follow the structure of the program.
\<close>

definition ok_res :: "('s \<Rightarrow> bool) \<Rightarrow> ('s \<Rightarrow> 'a \<Rightarrow> bool) \<Rightarrow> ('s, 'a) pgres \<Rightarrow> bool" where
  "ok_res T Q m =
     (case m of None \<Rightarrow> False | Some (s, Ret x) \<Rightarrow> Q s x | Some (s, Throw) \<Rightarrow> T s)"

lemma ok_res_simps [simp]:
  "ok_res T Q (Some (s, Ret x)) = Q s x" "ok_res T Q (Some (s, Throw)) = T s"
  "\<not> ok_res T Q None" "ok_res T Q (pg_ret s x) = Q s x"
  by (simp_all add: ok_res_def pg_ret_def)

lemma ok_resE:
  assumes "ok_res T Q m"
  obtains (ret) s x where "m = Some (s, Ret x)" "Q s x"
    | (throws) s where "m = Some (s, Throw)" "T s"
proof (cases m)
  case (Some sr)
  obtain s r where sr: "sr = (s, r)" by (cases sr)
  then show ?thesis using assms Some that by (cases r) auto
qed (use assms in simp)

lemma ok_bind:
  "ok_res T Q m \<Longrightarrow> (\<And>s x. Q s x \<Longrightarrow> ok_res T R (f s x)) \<Longrightarrow> ok_res T R (pg_bind m f)"
  by (erule ok_resE) auto

lemma ok_weaken:
  "ok_res T Q m \<Longrightarrow> (\<And>s. T s \<Longrightarrow> T' s) \<Longrightarrow> (\<And>s x. Q s x \<Longrightarrow> Q' s x) \<Longrightarrow> ok_res T' Q' m"
  by (erule ok_resE) auto

lemma ok_finally:
  "ok_res (\<lambda>s. T (fin s)) (\<lambda>s x. Q (fin s) x) m \<Longrightarrow> ok_res T Q (pg_finally m fin)"
  by (erule ok_resE) auto

lemma ok_catch:
  "ok_res T Q m \<Longrightarrow> (\<And>s. T s \<Longrightarrow> ok_res T' Q (h s)) \<Longrightarrow> ok_res T' Q (pg_catch m h)"
  by (erule ok_resE) auto

subsection \<open>Character buffers\<close>

text \<open>The C string that a buffer holds: the bytes before the first NUL.\<close>

definition cstr :: "char list \<Rightarrow> char list" where
  "cstr buf = takeWhile (\<lambda>c. c \<noteq> NUL) buf"

definition memcpy :: "char list \<Rightarrow> char list \<Rightarrow> nat \<Rightarrow> char list option" where
  "memcpy dst src n =
     (if n \<le> length dst \<and> n \<le> length src then Some (take n src @ drop n dst) else None)"

definition set_byte :: "char list \<Rightarrow> nat \<Rightarrow> char \<Rightarrow> char list option" where
  "set_byte buf i c = (if i < length buf then Some (buf[i := c]) else None)"

text \<open>
  \<^verbatim>\<open>strlcpy(dst, src, sz)\<close>: at most \<open>sz - 1\<close> bytes and a NUL; the result is the length of
  the source string.
\<close>

definition strlcpy :: "char list \<Rightarrow> char list \<Rightarrow> nat \<Rightarrow> char list \<times> nat" where
  "strlcpy dst src sz =
     (let s = cstr src; t = take (sz - 1) s @ [NUL]
      in (if sz = 0 then dst else t @ drop (length t) dst, length s))"

text \<open>A buffer holds the string \<open>s\<close> when its first bytes are \<open>s\<close> and a NUL follows them.\<close>

definition holds_str :: "char list \<Rightarrow> char list \<Rightarrow> bool" where
  "holds_str buf s \<longleftrightarrow> length s < length buf \<and> take (length s) buf = s \<and> buf ! length s = NUL"

lemma cstr_no_NUL: "c \<in> set (cstr buf) \<Longrightarrow> c \<noteq> NUL"
  by (auto simp: cstr_def dest: set_takeWhileD)

lemma cstr_id [simp]: "NUL \<notin> set s \<Longrightarrow> cstr s = s"
  by (auto simp: cstr_def takeWhile_eq_all_conv)

lemma cstr_append_NUL [simp]: "NUL \<notin> set s \<Longrightarrow> cstr (s @ NUL # t) = s"
  by (induction s) (auto simp: cstr_def)

lemma holds_str_append [simp]: "holds_str (s @ NUL # t) s"
  by (simp add: holds_str_def)

lemma memcpy_Some [simp]:
  "n \<le> length dst \<Longrightarrow> n \<le> length src \<Longrightarrow> memcpy dst src n = Some (take n src @ drop n dst)"
  by (simp add: memcpy_def)

lemma memcpy_length: "memcpy dst src n = Some r \<Longrightarrow> length r = length dst"
  by (auto simp: memcpy_def split: if_splits)

lemma set_byte_Some [simp]: "i < length buf \<Longrightarrow> set_byte buf i c = Some (buf[i := c])"
  by (simp add: set_byte_def)

lemma set_byte_length: "set_byte buf i c = Some r \<Longrightarrow> length r = length buf"
  by (auto simp: set_byte_def split: if_splits)

text \<open>The pattern \<^verbatim>\<open>memcpy(dst, src, n); dst[n] = 0;\<close>.\<close>

lemma copy_terminated:
  assumes "n < length dst" and "n \<le> length src"
  shows "(take n src @ drop n dst)[n := NUL] = take n src @ NUL # drop (Suc n) dst"
proof -
  from assms obtain y ys where y: "drop n dst = y # ys"
    by (metis drop_eq_Nil2 leD neq_Nil_conv)
  moreover from y have "drop (Suc n) dst = ys"
    by (metis drop_Suc list.sel(3) tl_drop)
  ultimately show ?thesis
    using assms by (simp add: list_update_append)
qed

lemma copy_exact:
  "length dst = Suc n \<Longrightarrow> n \<le> length src \<Longrightarrow> (take n src @ drop n dst)[n := NUL] = take n src @ [NUL]"
  by (simp add: copy_terminated)

lemma strlcpy_length:
  "sz \<le> length dst \<Longrightarrow> length (fst (strlcpy dst src sz)) = length dst"
  by (auto simp: strlcpy_def Let_def)

lemma strlcpy_snd [simp]: "snd (strlcpy dst src sz) = length (cstr src)"
  by (simp add: strlcpy_def Let_def)

lemma strlcpy_holds:
  "0 < sz \<Longrightarrow> sz \<le> length dst \<Longrightarrow>
     holds_str (fst (strlcpy dst src sz)) (take (sz - 1) (cstr src))"
  by (auto simp: strlcpy_def Let_def)

subsection \<open>Words\<close>

lemma unat_ucast_up [simp]:
  "LENGTH('a) \<le> LENGTH('b) \<Longrightarrow> unat (ucast (x :: 'a::len word) :: 'b::len word) = unat x"
proof -
  assume "LENGTH('a) \<le> LENGTH('b)"
  then have "(2::nat) ^ LENGTH('a) \<le> 2 ^ LENGTH('b)"
    by (rule power_increasing) simp
  then have "unat x < 2 ^ LENGTH('b)"
    using unsigned_less [of x] less_le_trans by blast
  then show ?thesis
    by (simp add: unsigned_ucast_eq take_bit_nat_eq_self_iff)
qed

lemma unat_min_word: "unat (min a b) = min (unat a) (unat (b :: 'a::len word))"
  by (simp add: min_def word_le_nat_alt)

lemma unat_add1_word:
  "unat (x :: 'a::len word) + 1 < 2 ^ LENGTH('a) \<Longrightarrow> unat (x + 1) = unat x + 1"
  by (simp add: unat_word_ariths)

lemma unat_sub1_word: "x \<noteq> (0 :: 'a::len word) \<Longrightarrow> unat (x - 1) = unat x - 1"
  by (simp add: unat_minus_one)

subsection \<open>Multisets\<close>

lemma card_set_mset_size: "card (set_mset M) \<le> size M"
proof -
  have "card (set_mset M) = (\<Sum>x\<in>set_mset M. 1)" by simp
  also have "\<dots> \<le> (\<Sum>x\<in>set_mset M. count M x)"
    by (rule sum_mono) (simp add: Suc_leI)
  finally show ?thesis by (simp add: size_multiset_overloaded_eq)
qed

end
