(* ===== verification/Psch_Ring.thy ===== *)
theory Psch_Ring
  imports Psch_Prelude
begin

section \<open>Ring positions and contents\<close>

text \<open>
  The arithmetic of the ring buffer of \<^verbatim>\<open>src/src/queue/shmem.c\<close>. Positions are free-running
  64-bit counters; the slot of a position is \<^verbatim>\<open>pos & (capacity - 1)\<close>, and the number of
  queued entries is \<^verbatim>\<open>head - tail\<close> in 64-bit arithmetic. The lemmas show that this is
  a bounded first-in first-out queue whenever the capacity is a power of two, also
  across the wrap-around of the counters. The locale \<open>bounded_fifo\<close> is the contract
  that the clients of the ring rely on.
\<close>

definition pow2_capacity :: "u32 \<Rightarrow> bool" where
  "pow2_capacity cap \<longleftrightarrow> (\<exists>k. unat cap = 2 ^ k)"

definition ring_index :: "u32 \<Rightarrow> u64 \<Rightarrow> nat" where
  "ring_index cap pos = unat (pos AND ucast (cap - 1))"

definition ring_contents :: "u32 \<Rightarrow> 'a list \<Rightarrow> u64 \<Rightarrow> u64 \<Rightarrow> 'a list" where
  "ring_contents cap ring t h =
     map (\<lambda>i. ring ! ring_index cap (t + of_nat i)) [0..<unat (h - t)]"

lemma pow2_capacityE:
  assumes "pow2_capacity cap"
  obtains k where "unat cap = 2 ^ k" and "k < 32"
proof -
  from assms obtain k where k: "unat cap = 2 ^ k"
    by (auto simp: pow2_capacity_def)
  moreover have "unat cap < 2 ^ 32"
    using unsigned_less [of cap] by (simp only: len_num1 len_num0 len_bit0) simp
  ultimately have "(2::nat) ^ k < 2 ^ 32"
    by simp
  then have "k < 32"
    by (rule power_less_imp_less_exp [rotated]) simp
  with k show ?thesis
    by (rule that)
qed

lemma pow2_capacity_pos: "pow2_capacity cap \<Longrightarrow> 0 < unat cap"
  by (auto simp: pow2_capacity_def)

lemma ring_index_mod:
  assumes "pow2_capacity cap"
  shows "ring_index cap pos = unat pos mod unat cap"
proof -
  from assms obtain k where k: "unat cap = 2 ^ k" and "k < 32"
    by (rule pow2_capacityE)
  from k have "cap \<noteq> 0"
    by auto
  then have "unat (ucast (cap - 1) :: u64) = 2 ^ k - 1"
    by (simp add: unat_sub1_word k)
  moreover have "uint (mask k :: u64) = 2 ^ k - 1"
    using \<open>k < 32\<close> by (simp only: uint_mask_eq) (simp add: mask_eq_exp_minus_1)
  then have "unat (mask k :: u64) = 2 ^ k - 1"
    by (simp only: nat_uint_eq [symmetric] nat_diff_distrib nat_power_eq) (simp add: nat_diff_distrib nat_power_eq)
  ultimately have "(ucast (cap - 1) :: u64) = mask k"
    by (simp add: word_unat_eq_iff)
  then have "ring_index cap pos = take_bit k (unat pos)"
    by (simp only: ring_index_def take_bit_eq_mask [symmetric] unsigned_take_bit_eq)
  then show ?thesis
    by (simp add: k take_bit_eq_mod)
qed

lemma ring_index_less: "pow2_capacity cap \<Longrightarrow> ring_index cap pos < unat cap"
  by (simp add: ring_index_mod pow2_capacity_pos)

text \<open>
  Advancing a position by \<open>n\<close> advances its slot by \<open>n\<close> modulo the capacity, also when
  the 64-bit counter wraps, because the capacity divides \<open>2 ^ 64\<close>.
\<close>

lemma ring_index_add:
  assumes "pow2_capacity cap"
  shows "ring_index cap (pos + of_nat n) = (ring_index cap pos + n) mod unat cap"
proof -
  from assms obtain k where k: "unat cap = 2 ^ k" and "k < 32"
    by (rule pow2_capacityE)
  have dvd: "(2::nat) ^ k dvd 2 ^ 64"
    using \<open>k < 32\<close> by (intro le_imp_power_dvd) simp
  have "unat (pos + of_nat n) mod 2 ^ k = (unat pos + n) mod 2 ^ 64 mod 2 ^ k"
    by (simp add: unat_word_ariths unat_of_nat mod_simps)
  also have "\<dots> = (unat pos + n) mod 2 ^ k"
    using dvd by (rule mod_mod_cancel)
  finally show ?thesis
    using assms by (simp add: ring_index_mod k mod_simps)
qed

lemma ring_index_neq:
  assumes "pow2_capacity cap" and "i < j" and "j - i < unat cap"
  shows "ring_index cap (pos + of_nat i) \<noteq> ring_index cap (pos + of_nat j)"
proof
  let ?b = "ring_index cap pos"
  assume "ring_index cap (pos + of_nat i) = ring_index cap (pos + of_nat j)"
  then have "(?b + i) mod unat cap = (?b + j) mod unat cap"
    using assms(1) by (simp add: ring_index_add)
  then have "(?b + j) mod unat cap = (?b + i) mod unat cap"
    by (rule sym)
  then have "unat cap dvd (?b + j) - (?b + i)"
    using assms(2) mod_eq_dvd_iff_nat [of "?b + i" "?b + j" "unat cap"] by simp
  then have "unat cap dvd j - i"
    by simp
  with assms(2,3) show False
    by (auto dest: dvd_imp_le)
qed

lemma length_ring_contents [simp]: "length (ring_contents cap ring t h) = unat (h - t)"
  by (simp add: ring_contents_def)

lemma ring_contents_empty [simp]: "ring_contents cap ring p p = []"
  by (simp add: ring_contents_def)

lemma ring_contents_eq_Nil: "ring_contents cap ring t h = [] \<longleftrightarrow> h = t"
  by (simp add: ring_contents_def unat_eq_zero)

lemma ring_contents_nth:
  "i < unat (h - t) \<Longrightarrow> ring_contents cap ring t h ! i = ring ! ring_index cap (t + of_nat i)"
  by (simp add: ring_contents_def)

text \<open>Writing the slot at \<^verbatim>\<open>head\<close> does not disturb what is queued.\<close>

lemma ring_contents_write_head:
  assumes "pow2_capacity cap" and "length ring = unat cap" and "unat (h - t) < unat cap"
  shows "ring_contents cap (ring[ring_index cap h := x]) t h = ring_contents cap ring t h"
proof (rule nth_equalityI, simp)
  fix i assume "i < length (ring_contents cap (ring[ring_index cap h := x]) t h)"
  then have i: "i < unat (h - t)"
    by simp
  have "h = t + of_nat (unat (h - t))"
    by simp
  moreover have "ring_index cap (t + of_nat i) \<noteq> ring_index cap (t + of_nat (unat (h - t)))"
    using assms(1,3) i by (intro ring_index_neq) auto
  ultimately show "ring_contents cap (ring[ring_index cap h := x]) t h ! i =
      ring_contents cap ring t h ! i"
    using i by (simp add: ring_contents_nth)
qed

lemma unat_diff_Suc:
  assumes "unat (h - t) < unat cap" and "pow2_capacity cap"
  shows "unat (h + 1 - t) = Suc (unat (h - t :: u64))"
proof -
  have "unat (cap :: u32) < 2 ^ 32"
    using unsigned_less [of cap] by simp
  then have "unat (h - t) + 1 < 2 ^ 64"
    using assms(1) by simp
  then have "unat (h - t + 1) = unat (h - t) + 1"
    by (intro unat_add1_word) simp
  then show ?thesis
    by (simp add: algebra_simps)
qed

lemma ring_contents_publish:
  assumes "pow2_capacity cap" and "length ring = unat cap" and "unat (h - t) < unat cap"
  shows "ring_contents cap (ring[ring_index cap h := x]) t (h + 1) =
         ring_contents cap ring t h @ [x]"
proof -
  let ?r = "ring[ring_index cap h := x]"
  have "ring_contents cap ?r t (h + 1) =
      ring_contents cap ?r t h @ [?r ! ring_index cap (t + of_nat (unat (h - t)))]"
    using assms by (simp add: ring_contents_def unat_diff_Suc)
  moreover have "?r ! ring_index cap (t + of_nat (unat (h - t))) = x"
    using assms by (simp add: ring_index_less)
  ultimately show ?thesis
    using assms by (simp add: ring_contents_write_head)
qed

lemma ring_contents_retire:
  assumes "h \<noteq> t"
  shows "ring_contents cap ring t h =
         ring ! ring_index cap t # ring_contents cap ring (t + 1) h"
proof -
  have "h - t \<noteq> 0"
    using assms by simp
  then have n: "unat (h - (t + 1)) = unat (h - t) - 1" and "0 < unat (h - t)"
    using unat_sub1_word [of "h - t"] by (simp_all add: algebra_simps unat_gt_0)
  then have "[0..<unat (h - t)] = 0 # map Suc [0..<unat (h - (t + 1))]"
    by (simp add: map_Suc_upt upt_conv_Cons)
  then show ?thesis
    by (simp add: ring_contents_def algebra_simps)
qed

subsection \<open>The contract of a bounded queue\<close>

text \<open>
  What the producers and the consumer of the ring rely on: \<open>put\<close> appends unless the queue is
  full and says which, \<open>get\<close> removes the oldest item, the number of items never passes the
  capacity. What is stored for an event is described by \<open>stored\<close>, since a queue may keep less
  than it was given. The lemmas are the views of the two ends: a batch of puts appends as
  many items as there is room for, and repeated gets yield the items in order.
\<close>

locale bounded_fifo =
  fixes put :: "'e \<Rightarrow> 'q \<Rightarrow> 'q \<times> bool"
    and get :: "'q \<Rightarrow> 'q \<times> 'x option"
    and items :: "'q \<Rightarrow> 'x list"
    and cap :: "'q \<Rightarrow> nat"
    and valid :: "'q \<Rightarrow> bool"
    and acceptable :: "'e \<Rightarrow> bool"
    and stored :: "'e \<Rightarrow> 'x \<Rightarrow> bool"
  assumes items_bound: "valid q \<Longrightarrow> length (items q) \<le> cap q"
    and put_room: "valid q \<Longrightarrow> acceptable e \<Longrightarrow> length (items q) < cap q \<Longrightarrow>
      \<exists>q' x. put e q = (q', True) \<and> valid q' \<and> cap q' = cap q \<and> items q' = items q @ [x] \<and> stored e x"
    and put_full: "valid q \<Longrightarrow> acceptable e \<Longrightarrow> length (items q) = cap q \<Longrightarrow>
      \<exists>q'. put e q = (q', False) \<and> valid q' \<and> cap q' = cap q \<and> items q' = items q"
    and get_empty: "valid q \<Longrightarrow> items q = [] \<Longrightarrow> get q = (q, None)"
    and get_some: "valid q \<Longrightarrow> items q = x # xs \<Longrightarrow>
      \<exists>q'. get q = (q', Some x) \<and> valid q' \<and> cap q' = cap q \<and> items q' = xs"
begin

fun put_all :: "'e list \<Rightarrow> nat \<Rightarrow> 'q \<Rightarrow> 'q \<times> nat" where
  "put_all [] n q = (q, n)"
| "put_all (e # es) n q = (let (q', ok) = put e q in put_all es (if ok then n + 1 else n) q')"

fun drain :: "nat \<Rightarrow> 'q \<Rightarrow> 'x list \<times> 'q" where
  "drain 0 q = ([], q)"
| "drain (Suc n) q =
     (case get q of
        (q', None) \<Rightarrow> ([], q')
      | (q', Some x) \<Rightarrow> let (xs, q'') = drain n q' in (x # xs, q''))"

lemma put_all_spec:
  "valid q \<Longrightarrow> list_all acceptable es \<Longrightarrow>
     \<exists>q' xs. put_all es n q = (q', n + length xs) \<and> valid q' \<and> cap q' = cap q \<and>
       items q' = items q @ xs \<and> length xs = min (length es) (cap q - length (items q)) \<and>
       list_all2 stored (take (length xs) es) xs"
proof (induction es arbitrary: n q)
  case Nil
  then show ?case by simp
next
  case (Cons e es)
  show ?case
  proof (cases "length (items q) < cap q")
    case True
    then obtain q1 x where q1: "put e q = (q1, True)" "valid q1" "cap q1 = cap q"
        "items q1 = items q @ [x]" "stored e x"
      using put_room [of q e] Cons.prems by auto
    with Cons.IH [of q1 "n + 1"] Cons.prems obtain q' xs where
        "put_all es (n + 1) q1 = (q', n + 1 + length xs)" "valid q'" "cap q' = cap q1"
        "items q' = items q1 @ xs" "length xs = min (length es) (cap q1 - length (items q1))"
        "list_all2 stored (take (length xs) es) xs" by auto
    with q1 True show ?thesis by (intro exI [of _ q'] exI [of _ "x # xs"]) auto
  next
    case False
    with items_bound [of q] Cons.prems have full: "length (items q) = cap q" by simp
    then obtain q1 where q1: "put e q = (q1, False)" "valid q1" "cap q1 = cap q" "items q1 = items q"
      using put_full [of q e] Cons.prems by auto
    with Cons.IH [of q1 n] Cons.prems full show ?thesis by auto
  qed
qed

lemma drain_spec:
  "valid q \<Longrightarrow>
     \<exists>q'. drain n q = (take n (items q), q') \<and> items q' = drop n (items q) \<and> valid q' \<and> cap q' = cap q"
proof (induction n arbitrary: q)
  case 0
  then show ?case by simp
next
  case (Suc n)
  show ?case
  proof (cases "items q")
    case Nil
    with Suc.prems get_empty show ?thesis by simp
  next
    case (Cons x xs)
    then obtain q1 where "get q = (q1, Some x)" "valid q1" "cap q1 = cap q" "items q1 = xs"
      using get_some [OF Suc.prems] by blast
    with Suc.IH [of q1] Cons show ?thesis by auto
  qed
qed

lemma put_all_drain:
  assumes "valid q" "items q = []" "list_all acceptable es" "length es \<le> cap q"
  shows "\<exists>xs. fst (drain (length es) (fst (put_all es 0 q))) = xs \<and> list_all2 stored es xs"
proof -
  obtain q' xs where "put_all es 0 q = (q', 0 + length xs)" "valid q'"
      "items q' = items q @ xs" "length xs = min (length es) (cap q - length (items q))"
      "list_all2 stored (take (length xs) es) xs"
    using put_all_spec [OF assms(1,3)] by blast
  with drain_spec [of q' "length es"] assms show ?thesis by auto
qed

end

end
