(* ===== verification/Psch_Guc.thy ===== *)
theory Psch_Guc
  imports Complex_Main Psch_Ring
begin

section \<open>Configuration variables (\<^verbatim>\<open>src/src/config/guc.c\<close>)\<close>

text \<open>
  The table that \<^verbatim>\<open>PschInitGuc\<close> registers, the C initialisers of the variables, the check
  hook of \<^verbatim>\<open>pg_stat_ch.queue_capacity\<close>, and the record of current values that the other
  components read. The lemmas show that the table is consistent, and that the check hook
  accepts exactly the powers of two, which is what the ring arithmetic needs.
\<close>

datatype GucContext = PGC_POSTMASTER | PGC_SIGHUP | PGC_SUSET

text \<open>Error levels (\<^verbatim>\<open>elog.h\<close>; the numbers are those of \<^verbatim>\<open>docs/reference/events-schema.mdx\<close>).\<close>

abbreviation DEBUG5 :: int where "DEBUG5 \<equiv> 10"
abbreviation DEBUG4 :: int where "DEBUG4 \<equiv> 11"
abbreviation DEBUG3 :: int where "DEBUG3 \<equiv> 12"
abbreviation DEBUG2 :: int where "DEBUG2 \<equiv> 13"
abbreviation DEBUG1 :: int where "DEBUG1 \<equiv> 14"
abbreviation LOG :: int where "LOG \<equiv> 15"
abbreviation INFO :: int where "INFO \<equiv> 17"
abbreviation NOTICE :: int where "NOTICE \<equiv> 18"
abbreviation WARNING :: int where "WARNING \<equiv> 19"
abbreviation ERROR :: int where "ERROR \<equiv> 21"
abbreviation FATAL :: int where "FATAL \<equiv> 22"
abbreviation PANIC :: int where "PANIC \<equiv> 23"

definition log_elevel_options :: "(string \<times> int) list" where
  "log_elevel_options =
     [(''debug5'', DEBUG5), (''debug4'', DEBUG4), (''debug3'', DEBUG3), (''debug2'', DEBUG2),
      (''debug1'', DEBUG1), (''log'', LOG), (''info'', INFO), (''notice'', NOTICE),
      (''warning'', WARNING), (''error'', ERROR), (''fatal'', FATAL), (''panic'', PANIC)]"

text \<open>The check hook: positive, and no bit in common with its predecessor.\<close>

definition check_psch_queue_capacity :: "int \<Rightarrow> bool" where
  "check_psch_queue_capacity newval =
     (if newval \<le> 0 then False
      else if (newval AND (newval - 1)) \<noteq> 0 then False
      else True)"

datatype guc_kind =
    BoolVar bool
  | IntVar int int int "int \<Rightarrow> bool"
  | RealVar real real real
  | StringVar string
  | EnumVar int "(string \<times> int) list"

record guc_var =
  gv_name :: string
  gv_kind :: guc_kind
  gv_context :: GucContext
  gv_superuser_only :: bool

definition no_check :: "int \<Rightarrow> bool" where
  "no_check newval = True"

definition guc_def :: "string \<Rightarrow> guc_kind \<Rightarrow> GucContext \<Rightarrow> guc_var" where
  "guc_def nm k c = \<lparr>gv_name = nm, gv_kind = k, gv_context = c, gv_superuser_only = False\<rparr>"

text \<open>The calls of \<^verbatim>\<open>PschInitGuc\<close>, in order and in five groups.\<close>

definition guc_connection :: "guc_var list" where
  "guc_connection =
     [guc_def ''pg_stat_ch.enabled'' (BoolVar True) PGC_SIGHUP,
      guc_def ''pg_stat_ch.use_otel'' (BoolVar False) PGC_POSTMASTER,
      guc_def ''pg_stat_ch.clickhouse_host'' (StringVar ''localhost'') PGC_POSTMASTER,
      guc_def ''pg_stat_ch.clickhouse_port'' (IntVar 9000 1 65535 no_check) PGC_POSTMASTER,
      guc_def ''pg_stat_ch.clickhouse_user'' (StringVar ''default'') PGC_POSTMASTER,
      (guc_def ''pg_stat_ch.clickhouse_password'' (StringVar '''') PGC_POSTMASTER)
        \<lparr>gv_superuser_only := True\<rparr>,
      guc_def ''pg_stat_ch.clickhouse_database'' (StringVar ''pg_stat_ch'') PGC_POSTMASTER,
      guc_def ''pg_stat_ch.clickhouse_use_tls'' (BoolVar False) PGC_POSTMASTER,
      guc_def ''pg_stat_ch.clickhouse_skip_tls_verify'' (BoolVar False) PGC_POSTMASTER,
      guc_def ''pg_stat_ch.otel_endpoint'' (StringVar ''localhost:4317'') PGC_POSTMASTER,
      guc_def ''pg_stat_ch.hostname'' (StringVar '''') PGC_POSTMASTER]"

definition guc_queue :: "guc_var list" where
  "guc_queue =
     [guc_def ''pg_stat_ch.queue_capacity''
        (IntVar 131072 1024 4194304 check_psch_queue_capacity) PGC_POSTMASTER,
      guc_def ''pg_stat_ch.string_area_size'' (IntVar 64 8 1024 no_check) PGC_POSTMASTER,
      guc_def ''pg_stat_ch.flush_interval_ms'' (IntVar 500 100 60000 no_check) PGC_SIGHUP,
      guc_def ''pg_stat_ch.batch_max'' (IntVar 200000 1 1000000 no_check) PGC_SIGHUP]"

definition guc_otel :: "guc_var list" where
  "guc_otel =
     [guc_def ''pg_stat_ch.otel_log_queue_size'' (IntVar 65536 512 1048576 no_check)
        PGC_POSTMASTER,
      guc_def ''pg_stat_ch.otel_log_batch_size'' (IntVar 8192 1 131072 no_check) PGC_POSTMASTER,
      guc_def ''pg_stat_ch.otel_log_max_bytes''
        (IntVar (3 * 1024 * 1024) 65536 (64 * 1024 * 1024) no_check) PGC_POSTMASTER,
      guc_def ''pg_stat_ch.otel_log_delay_ms'' (IntVar 100 10 60000 no_check) PGC_POSTMASTER,
      guc_def ''pg_stat_ch.otel_metric_interval_ms'' (IntVar 5000 100 300000 no_check)
        PGC_POSTMASTER]"

definition guc_capture :: "guc_var list" where
  "guc_capture =
     [guc_def ''pg_stat_ch.log_min_elevel'' (EnumVar WARNING log_elevel_options) PGC_SUSET,
      guc_def ''pg_stat_ch.min_duration_us'' (IntVar 0 0 (2 ^ 31 - 1) no_check) PGC_SUSET,
      guc_def ''pg_stat_ch.normalize_cache_max'' (IntVar 32768 64 65536 no_check) PGC_SUSET,
      guc_def ''pg_stat_ch.sample_rate'' (RealVar 1 0 1) PGC_SUSET]"

definition guc_arrow :: "guc_var list" where
  "guc_arrow =
     [guc_def ''pg_stat_ch.otel_arrow_passthrough'' (BoolVar False) PGC_SIGHUP,
      guc_def ''pg_stat_ch.otel_max_block_bytes''
        (IntVar (3 * 1024 * 1024) 65536 (16 * 1024 * 1024) no_check) PGC_SIGHUP,
      guc_def ''pg_stat_ch.extra_attributes'' (StringVar '''') PGC_SIGHUP,
      guc_def ''pg_stat_ch.debug_arrow_dump_dir'' (StringVar '''') PGC_SIGHUP,
      guc_def ''pg_stat_ch.debug_force_locked_overflow'' (BoolVar False) PGC_SUSET]"

definition PschInitGuc :: "guc_var list" where
  "PschInitGuc = guc_connection @ guc_queue @ guc_otel @ guc_capture @ guc_arrow"

lemmas guc_table = PschInitGuc_def guc_connection_def guc_queue_def guc_otel_def guc_capture_def
  guc_arrow_def guc_def_def

text \<open>
  The current values. A \<^verbatim>\<open>char*\<close> variable is \<^const>\<open>None\<close> when it is NULL, as it is before
  \<^verbatim>\<open>PschInitGuc\<close> runs.
\<close>

record guc =
  psch_enabled :: bool
  psch_use_otel :: bool
  psch_clickhouse_host :: "string option"
  psch_clickhouse_port :: int
  psch_clickhouse_user :: "string option"
  psch_clickhouse_password :: "string option"
  psch_clickhouse_database :: "string option"
  psch_clickhouse_use_tls :: bool
  psch_clickhouse_skip_tls_verify :: bool
  psch_otel_endpoint :: "string option"
  psch_hostname :: "string option"
  psch_queue_capacity :: int
  psch_string_area_size :: int
  psch_flush_interval_ms :: int
  psch_batch_max :: int
  psch_log_min_elevel :: int
  psch_otel_log_queue_size :: int
  psch_otel_log_batch_size :: int
  psch_otel_log_max_bytes :: int
  psch_otel_log_delay_ms :: int
  psch_otel_metric_interval_ms :: int
  psch_debug_force_locked_overflow :: bool
  psch_min_duration_us :: int
  psch_normalize_cache_max :: int
  psch_sample_rate :: real
  psch_otel_arrow_passthrough :: bool
  psch_otel_max_block_bytes :: int
  psch_extra_attributes :: "string option"
  psch_debug_arrow_dump_dir :: "string option"

text \<open>The C initialisers.\<close>

definition guc_init :: guc where
  "guc_init =
     \<lparr>psch_enabled = True, psch_use_otel = False, psch_clickhouse_host = None,
      psch_clickhouse_port = 9000, psch_clickhouse_user = None,
      psch_clickhouse_password = None, psch_clickhouse_database = None,
      psch_clickhouse_use_tls = False, psch_clickhouse_skip_tls_verify = False,
      psch_otel_endpoint = None, psch_hostname = None, psch_queue_capacity = 131072,
      psch_string_area_size = 64, psch_flush_interval_ms = 500, psch_batch_max = 200000,
      psch_log_min_elevel = WARNING, psch_otel_log_queue_size = 65536,
      psch_otel_log_batch_size = 8192, psch_otel_log_max_bytes = 3 * 1024 * 1024,
      psch_otel_log_delay_ms = 100, psch_otel_metric_interval_ms = 5000,
      psch_debug_force_locked_overflow = False, psch_min_duration_us = 0,
      psch_normalize_cache_max = 32768, psch_sample_rate = 1,
      psch_otel_arrow_passthrough = False, psch_otel_max_block_bytes = 3 * 1024 * 1024,
      psch_extra_attributes = None, psch_debug_arrow_dump_dir = None\<rparr>"

text \<open>A value of an integer variable is accepted when it is in range and its hook agrees.\<close>

fun guc_accepts_int :: "guc_kind \<Rightarrow> int \<Rightarrow> bool" where
  "guc_accepts_int (IntVar boot mn mx hook) v = (mn \<le> v \<and> v \<le> mx \<and> hook v)"
| "guc_accepts_int _ v = False"

fun guc_boot_ok :: "guc_kind \<Rightarrow> bool" where
  "guc_boot_ok (BoolVar b) = True"
| "guc_boot_ok (IntVar boot mn mx hook) = (mn \<le> mx \<and> mn \<le> boot \<and> boot \<le> mx \<and> hook boot)"
| "guc_boot_ok (RealVar boot mn mx) = (mn \<le> mx \<and> mn \<le> boot \<and> boot \<le> mx)"
| "guc_boot_ok (StringVar s) = True"
| "guc_boot_ok (EnumVar boot opts) = (boot \<in> snd ` set opts)"

fun lookup_guc :: "guc_var list \<Rightarrow> string \<Rightarrow> guc_kind option" where
  "lookup_guc [] nm = None"
| "lookup_guc (v # vs) nm = (if gv_name v = nm then Some (gv_kind v) else lookup_guc vs nm)"

subsection \<open>Powers of two\<close>

lemma nat_and_pred_power2:
  "0 < n \<Longrightarrow> n AND (n - 1) = 0 \<Longrightarrow> \<exists>k. n = 2 ^ k" for n :: nat
proof (induction n rule: less_induct)
  case (less n)
  show ?case
  proof (cases "even n")
    case True
    then obtain m where m: "n = 2 * m" by (rule evenE)
    with less.prems have "0 < m" by simp
    then have pred: "2 * m - 1 = 2 * (m - 1) + 1" by simp
    have "2 * (m AND (m - 1)) = 2 * m AND (2 * (m - 1) + 1)"
      by (subst and_rec [of "2 * m"]) simp
    with less.prems(2) m pred have "m AND (m - 1) = 0" by simp
    with less.IH [of m] m \<open>0 < m\<close> obtain k where "m = 2 ^ k" by auto
    with m have "n = 2 ^ Suc k" by simp
    then show ?thesis by blast
  next
    case False
    then obtain m where m: "n = 2 * m + 1" by (rule oddE)
    then have "n AND (n - 1) = 2 * m"
      by (subst and_rec [of n]) simp
    with less.prems(2) m have "n = 2 ^ 0" by simp
    then show ?thesis by blast
  qed
qed

lemma nat_power2_and_pred: "(2 ^ k :: nat) AND (2 ^ k - 1) = 0"
proof -
  have "(2 ^ k :: nat) AND mask k = take_bit k (2 ^ k)"
    by (simp add: take_bit_eq_mask)
  then show ?thesis by (simp add: mask_eq_exp_minus_1)
qed

lemma check_psch_queue_capacity_nat:
  "check_psch_queue_capacity (int n) \<longleftrightarrow> 0 < n \<and> n AND (n - 1) = 0"
proof (cases "0 < n")
  case True
  then have "int n - 1 = int (n - 1)" by simp
  then have "int n AND (int n - 1) = int (n AND (n - 1))"
    by (simp only: of_nat_and_eq)
  with True show ?thesis
    by (simp add: check_psch_queue_capacity_def)
qed (simp add: check_psch_queue_capacity_def)

lemma check_psch_queue_capacity_iff:
  "check_psch_queue_capacity v \<longleftrightarrow> (\<exists>k. v = 2 ^ k)"
proof
  assume a: "check_psch_queue_capacity v"
  then have "0 < v" by (simp add: check_psch_queue_capacity_def split: if_splits)
  then obtain n where n: "v = int n" using pos_int_cases by blast
  with a obtain k where "n = 2 ^ k"
    using check_psch_queue_capacity_nat nat_and_pred_power2 by blast
  with n show "\<exists>k. v = 2 ^ k" by auto
next
  assume "\<exists>k. v = 2 ^ k"
  then obtain k where "v = int (2 ^ k)" by auto
  then show "check_psch_queue_capacity v"
    by (simp only: check_psch_queue_capacity_nat nat_power2_and_pred) simp
qed

subsection \<open>The table\<close>

lemma lookup_queue_capacity:
  "lookup_guc PschInitGuc ''pg_stat_ch.queue_capacity''
     = Some (IntVar 131072 1024 4194304 check_psch_queue_capacity)"
  by (simp add: guc_table)

lemma power2_between:
  "(\<exists>k. (v :: int) = 2 ^ k) \<and> 1024 \<le> v \<and> v \<le> 4194304
     \<longleftrightarrow> (\<exists>k. 10 \<le> k \<and> k \<le> 22 \<and> v = 2 ^ k)"
proof -
  have "(1024 :: int) \<le> 2 ^ k \<longleftrightarrow> 10 \<le> k" for k
    using power_increasing_iff [of "2::int" 10 k] by simp
  moreover have "(2 :: int) ^ k \<le> 4194304 \<longleftrightarrow> k \<le> 22" for k
    using power_increasing_iff [of "2::int" k 22] by simp
  ultimately show ?thesis by auto
qed

lemma pow2_capacity_unat:
  assumes "k \<le> 22"
  shows "unat (word_of_int (2 ^ k) :: u32) = 2 ^ k"
proof -
  have "unat (of_nat (2 ^ k) :: u32) = 2 ^ k"
    using assms by (simp only: unsigned_of_nat take_bit_nat_eq_self_iff len_num1 len_bit0) simp
  then show ?thesis by simp
qed

lemma pow2_capacity_word: "k \<le> 22 \<Longrightarrow> pow2_capacity (word_of_int (2 ^ k))"
  using pow2_capacity_unat [of k] by (auto simp: pow2_capacity_def)

text \<open>
  C35 The values that \<^verbatim>\<open>pg_stat_ch.queue_capacity\<close> accepts (range and check hook together) are
  exactly the powers of two from 2^10 to 2^22, and for each of them the conversion to the
  \<^verbatim>\<open>uint32\<close> field \<^verbatim>\<open>capacity\<close> is a power of two, which the masked ring index needs.
\<close>

theorem queue_capacity_accepted:
  "\<exists>kind. lookup_guc PschInitGuc ''pg_stat_ch.queue_capacity'' = Some kind \<and>
     (\<forall>v. guc_accepts_int kind v = (\<exists>k. 10 \<le> k \<and> k \<le> 22 \<and> v = 2 ^ k)) \<and>
     {v. guc_accepts_int kind v} \<subseteq> {v. pow2_capacity (word_of_int v)}"
proof (intro exI conjI allI)
  show "lookup_guc PschInitGuc ''pg_stat_ch.queue_capacity''
          = Some (IntVar 131072 1024 4194304 check_psch_queue_capacity)"
    by (rule lookup_queue_capacity)
  show acc: "guc_accepts_int (IntVar 131072 1024 4194304 check_psch_queue_capacity) v
          = (\<exists>k. 10 \<le> k \<and> k \<le> 22 \<and> v = 2 ^ k)" for v
    using power2_between [of v] by (auto simp: check_psch_queue_capacity_iff)
  show "{v. guc_accepts_int (IntVar 131072 1024 4194304 check_psch_queue_capacity) v}
          \<subseteq> {v. pow2_capacity (word_of_int v)}"
    by (auto simp only: acc pow2_capacity_word)
qed

text \<open>
  The registration table is sound: the names are distinct, every boot value lies in its
  own range and passes its own hook (PostgreSQL refuses to start otherwise), and the C
  initialisers of the variables that size shared memory and drive the exporter agree with
  the boot values.
\<close>

lemma boot_values_consistent:
  "distinct (map gv_name PschInitGuc) \<and>
   list_all (\<lambda>v. guc_boot_ok (gv_kind v)) PschInitGuc \<and>
   lookup_guc PschInitGuc ''pg_stat_ch.queue_capacity''
     = Some (IntVar (psch_queue_capacity guc_init) 1024 4194304 check_psch_queue_capacity) \<and>
   lookup_guc PschInitGuc ''pg_stat_ch.string_area_size''
     = Some (IntVar (psch_string_area_size guc_init) 8 1024 no_check) \<and>
   lookup_guc PschInitGuc ''pg_stat_ch.flush_interval_ms''
     = Some (IntVar (psch_flush_interval_ms guc_init) 100 60000 no_check) \<and>
   lookup_guc PschInitGuc ''pg_stat_ch.batch_max''
     = Some (IntVar (psch_batch_max guc_init) 1 1000000 no_check) \<and>
   lookup_guc PschInitGuc ''pg_stat_ch.normalize_cache_max''
     = Some (IntVar (psch_normalize_cache_max guc_init) 64 65536 no_check)"
proof (intro conjI)
  show "distinct (map gv_name PschInitGuc)"
    by (simp add: guc_table)
  have "check_psch_queue_capacity 131072"
    unfolding check_psch_queue_capacity_iff by (rule exI [of _ 17]) simp
  then show "list_all (\<lambda>v. guc_boot_ok (gv_kind v)) PschInitGuc"
    by (simp add: guc_table no_check_def log_elevel_options_def)
qed (simp_all add: guc_table guc_init_def)

end
