(* ===== verification/Psch_Event.thy ===== *)
theory Psch_Event
  imports Psch_Prelude
begin

section \<open>Events and ring entries (\<^verbatim>\<open>event.h\<close>, \<^verbatim>\<open>ring_entry.h\<close>)\<close>

text \<open>
  \<^verbatim>\<open>PschEvent\<close> is what the hooks build and the exporter reads; \<^verbatim>\<open>PschRingEntry\<close> is the
  compact form in a ring slot. Both structs begin with the same fields, which the queue
  copies with one \<^verbatim>\<open>memcpy\<close> of \<^verbatim>\<open>kFixedPrefixSize\<close> bytes. The model says so with record
  extension: \<open>psch_fixed\<close> is the common prefix, the two structs extend it. That this
  is right at the level of bytes is what the static assertions of \<^verbatim>\<open>ring_entry.h\<close> check; the
  layout section computes the offsets and proves them for every field, not only for the
  ones that have an assertion.
\<close>

abbreviation NAMEDATALEN :: nat where "NAMEDATALEN \<equiv> 64"
abbreviation INET6_ADDRSTRLEN :: nat where "INET6_ADDRSTRLEN \<equiv> 46"
abbreviation PSCH_MAX_QUERY_LEN :: nat where "PSCH_MAX_QUERY_LEN \<equiv> 2048"
abbreviation PSCH_MAX_ERR_MSG_LEN :: nat where "PSCH_MAX_ERR_MSG_LEN \<equiv> 2048"
abbreviation PSCH_MAX_APP_NAME_LEN :: nat where "PSCH_MAX_APP_NAME_LEN \<equiv> NAMEDATALEN - 1"
abbreviation PSCH_MAX_CLIENT_ADDR_LEN :: nat where
  "PSCH_MAX_CLIENT_ADDR_LEN \<equiv> INET6_ADDRSTRLEN - 1"

datatype PschCmdType =
    PSCH_CMD_UNKNOWN
  | PSCH_CMD_SELECT
  | PSCH_CMD_UPDATE
  | PSCH_CMD_INSERT
  | PSCH_CMD_DELETE
  | PSCH_CMD_MERGE
  | PSCH_CMD_UTILITY
  | PSCH_CMD_NOTHING

fun PschCmdTypeToString :: "PschCmdType \<Rightarrow> string" where
  "PschCmdTypeToString PSCH_CMD_SELECT = ''SELECT''"
| "PschCmdTypeToString PSCH_CMD_UPDATE = ''UPDATE''"
| "PschCmdTypeToString PSCH_CMD_INSERT = ''INSERT''"
| "PschCmdTypeToString PSCH_CMD_DELETE = ''DELETE''"
| "PschCmdTypeToString PSCH_CMD_MERGE = ''MERGE''"
| "PschCmdTypeToString PSCH_CMD_UTILITY = ''UTILITY''"
| "PschCmdTypeToString PSCH_CMD_NOTHING = ''NOTHING''"
| "PschCmdTypeToString _ = ''UNKNOWN''"

record psch_fixed =
  ts_start :: TimestampTz
  duration_us :: u64
  dbid :: Oid
  userid :: Oid
  datname :: "char list"
  datname_len :: u8
  username :: "char list"
  username_len :: u8
  pid :: i32
  queryid :: u64
  top_level :: bool
  cmd_type :: PschCmdType
  rows :: u64
  shared_blks_hit :: i64
  shared_blks_read :: i64
  shared_blks_dirtied :: i64
  shared_blks_written :: i64
  local_blks_hit :: i64
  local_blks_read :: i64
  local_blks_dirtied :: i64
  local_blks_written :: i64
  temp_blks_read :: i64
  temp_blks_written :: i64
  shared_blk_read_time_us :: i64
  shared_blk_write_time_us :: i64
  local_blk_read_time_us :: i64
  local_blk_write_time_us :: i64
  temp_blk_read_time_us :: i64
  temp_blk_write_time_us :: i64
  wal_records :: i64
  wal_fpi :: i64
  wal_bytes :: u64
  cpu_user_time_us :: i64
  cpu_sys_time_us :: i64
  jit_functions :: i32
  jit_generation_time_us :: i32
  jit_deform_time_us :: i32
  jit_inlining_time_us :: i32
  jit_optimization_time_us :: i32
  jit_emission_time_us :: i32
  parallel_workers_planned :: i16
  parallel_workers_launched :: i16
  err_sqlstate :: "char list"
  err_elevel :: u8
  padding3 :: u8
  err_message_len :: u16
  application_name :: "char list"
  application_name_len :: u8
  client_addr :: "char list"
  client_addr_len :: u8
  query_len :: u16

record PschEvent = psch_fixed +
  err_message :: "char list"
  query :: "char list"

record PschRingEntry = psch_fixed +
  err_message_dsa :: dsa_pointer
  query_dsa :: dsa_pointer

text \<open>\<^verbatim>\<open>memcpy(slot, event, kFixedPrefixSize)\<close> and \<^verbatim>\<open>memcpy(event, slot, kFixedPrefixSize)\<close>.\<close>

definition copy_prefix_to_slot :: "PschEvent \<Rightarrow> PschRingEntry \<Rightarrow> PschRingEntry" where
  "copy_prefix_to_slot event slot =
     psch_fixed.extend (psch_fixed.truncate event)
       (PschRingEntry.fields (err_message_dsa slot) (query_dsa slot))"

definition copy_prefix_to_event :: "PschRingEntry \<Rightarrow> PschEvent \<Rightarrow> PschEvent" where
  "copy_prefix_to_event slot event =
     psch_fixed.extend (psch_fixed.truncate slot)
       (PschEvent.fields (err_message event) (query event))"

lemmas prefix_defs = copy_prefix_to_slot_def copy_prefix_to_event_def
  psch_fixed.defs PschEvent.defs PschRingEntry.defs

lemma copy_prefix_to_slot_simps [simp]:
  "psch_fixed.truncate (copy_prefix_to_slot event slot) = psch_fixed.truncate event"
  "err_message_dsa (copy_prefix_to_slot event slot) = err_message_dsa slot"
  "query_dsa (copy_prefix_to_slot event slot) = query_dsa slot"
  "err_message_len (copy_prefix_to_slot event slot) = err_message_len event"
  "query_len (copy_prefix_to_slot event slot) = query_len event"
  by (simp_all add: prefix_defs)

lemma copy_prefix_to_event_simps [simp]:
  "psch_fixed.truncate (copy_prefix_to_event slot event) = psch_fixed.truncate slot"
  "err_message (copy_prefix_to_event slot event) = err_message event"
  "query (copy_prefix_to_event slot event) = query event"
  "err_message_len (copy_prefix_to_event slot event) = err_message_len slot"
  "query_len (copy_prefix_to_event slot event) = query_len slot"
  by (simp_all add: prefix_defs)

text \<open>The array bounds of the C declaration: what every \<^verbatim>\<open>PschEvent\<close> in memory satisfies.\<close>

definition event_shape :: "PschEvent \<Rightarrow> bool" where
  "event_shape e \<longleftrightarrow>
     length (datname e) = NAMEDATALEN \<and> length (username e) = NAMEDATALEN \<and>
     length (err_sqlstate e) = 6 \<and> length (application_name e) = NAMEDATALEN \<and>
     length (client_addr e) = INET6_ADDRSTRLEN \<and>
     length (err_message e) = PSCH_MAX_ERR_MSG_LEN \<and> length (query e) = PSCH_MAX_QUERY_LEN"

text \<open>The text fields as the exporter reads them: the first \<^verbatim>\<open>len\<close> bytes of the buffer.\<close>

definition err_text :: "PschEvent \<Rightarrow> char list" where
  "err_text e = take (unat (err_message_len e)) (err_message e)"

definition query_text :: "PschEvent \<Rightarrow> char list" where
  "query_text e = take (unat (query_len e)) (query e)"

text \<open>
  An event with the text lengths set aside: what the ring keeps of an event besides its
  two texts, whatever happens to the texts.
\<close>

definition numeric_part :: "'a psch_fixed_scheme \<Rightarrow> psch_fixed" where
  "numeric_part e = (psch_fixed.truncate e)\<lparr>err_message_len := 0, query_len := 0\<rparr>"

lemma numeric_part_update [simp]:
  "numeric_part (e\<lparr>err_message_len := n\<rparr>) = numeric_part e"
  "numeric_part (e\<lparr>query_len := n\<rparr>) = numeric_part e"
  by (simp_all add: numeric_part_def psch_fixed.truncate_def)

lemma numeric_part_slot_update [simp]:
  "numeric_part (s\<lparr>err_message_dsa := d\<rparr>) = numeric_part s"
  "numeric_part (s\<lparr>query_dsa := d\<rparr>) = numeric_part s"
  by (simp_all add: numeric_part_def psch_fixed.truncate_def)

lemma numeric_part_event_update [simp]:
  "numeric_part (e\<lparr>err_message := b\<rparr>) = numeric_part e"
  "numeric_part (e\<lparr>query := b\<rparr>) = numeric_part e"
  by (simp_all add: numeric_part_def psch_fixed.truncate_def)

lemma numeric_part_copy [simp]:
  "numeric_part (copy_prefix_to_slot event slot) = numeric_part event"
  "numeric_part (copy_prefix_to_event slot event) = numeric_part slot"
  by (simp_all add: numeric_part_def)

subsection \<open>Layout\<close>

text \<open>
  A field with its size and alignment under the LP64 ABI (\<^verbatim>\<open>bool\<close> 1, an enum 4), and the
  offsets the C rules give: each field at the next multiple of its alignment.
\<close>

type_synonym c_field = "string \<times> nat \<times> nat"

definition align_up :: "nat \<Rightarrow> nat \<Rightarrow> nat" where
  "align_up a n = ((n + (a - 1)) div a) * a"

fun c_offsets :: "nat \<Rightarrow> c_field list \<Rightarrow> (string \<times> nat) list" where
  "c_offsets off [] = []"
| "c_offsets off ((nm, sz, al) # fs) =
     (let o' = align_up al off in (nm, o') # c_offsets (o' + sz) fs)"

fun c_end :: "nat \<Rightarrow> c_field list \<Rightarrow> nat" where
  "c_end off [] = off"
| "c_end off ((nm, sz, al) # fs) = c_end (align_up al off + sz) fs"

definition c_sizeof :: "c_field list \<Rightarrow> nat" where
  "c_sizeof fs = align_up (fold max (map (snd \<circ> snd) fs) 1) (c_end 0 fs)"

abbreviation fld64 :: "string \<Rightarrow> c_field" where "fld64 nm \<equiv> (nm, 8, 8)"
abbreviation fld32 :: "string \<Rightarrow> c_field" where "fld32 nm \<equiv> (nm, 4, 4)"
abbreviation fld16 :: "string \<Rightarrow> c_field" where "fld16 nm \<equiv> (nm, 2, 2)"
abbreviation fld8 :: "string \<Rightarrow> c_field" where "fld8 nm \<equiv> (nm, 1, 1)"
abbreviation fldbuf :: "string \<Rightarrow> nat \<Rightarrow> c_field" where "fldbuf nm n \<equiv> (nm, n, 1)"

definition PschEvent_fields :: "c_field list" where
  "PschEvent_fields =
     [fld64 ''ts_start'', fld64 ''duration_us'', fld32 ''dbid'', fld32 ''userid'',
      fldbuf ''datname'' 64, fld8 ''datname_len'', fldbuf ''username'' 64, fld8 ''username_len'',
      fld32 ''pid'', fld64 ''queryid'', fld8 ''top_level'', fld32 ''cmd_type'', fld64 ''rows'',
      fld64 ''shared_blks_hit'', fld64 ''shared_blks_read'', fld64 ''shared_blks_dirtied'',
      fld64 ''shared_blks_written'', fld64 ''local_blks_hit'', fld64 ''local_blks_read'',
      fld64 ''local_blks_dirtied'', fld64 ''local_blks_written'', fld64 ''temp_blks_read'',
      fld64 ''temp_blks_written'',
      fld64 ''shared_blk_read_time_us'', fld64 ''shared_blk_write_time_us'',
      fld64 ''local_blk_read_time_us'', fld64 ''local_blk_write_time_us'',
      fld64 ''temp_blk_read_time_us'', fld64 ''temp_blk_write_time_us'',
      fld64 ''wal_records'', fld64 ''wal_fpi'', fld64 ''wal_bytes'',
      fld64 ''cpu_user_time_us'', fld64 ''cpu_sys_time_us'',
      fld32 ''jit_functions'', fld32 ''jit_generation_time_us'', fld32 ''jit_deform_time_us'',
      fld32 ''jit_inlining_time_us'', fld32 ''jit_optimization_time_us'',
      fld32 ''jit_emission_time_us'',
      fld16 ''parallel_workers_planned'', fld16 ''parallel_workers_launched'',
      fldbuf ''err_sqlstate'' 6, fld8 ''err_elevel'', fld8 ''_padding3'',
      fld16 ''err_message_len'',
      fldbuf ''application_name'' 64, fld8 ''application_name_len'', fldbuf ''client_addr'' 46,
      fld8 ''client_addr_len'', fld16 ''query_len'',
      fldbuf ''err_message'' 2048, fldbuf ''query'' 2048]"

definition PschRingEntry_fields :: "c_field list" where
  "PschRingEntry_fields =
     [fld64 ''ts_start'', fld64 ''duration_us'', fld32 ''dbid'', fld32 ''userid'',
      fldbuf ''datname'' 64, fld8 ''datname_len'', fldbuf ''username'' 64, fld8 ''username_len'',
      fld32 ''pid'', fld64 ''queryid'', fld8 ''top_level'', fld32 ''cmd_type'', fld64 ''rows'',
      fld64 ''shared_blks_hit'', fld64 ''shared_blks_read'', fld64 ''shared_blks_dirtied'',
      fld64 ''shared_blks_written'', fld64 ''local_blks_hit'', fld64 ''local_blks_read'',
      fld64 ''local_blks_dirtied'', fld64 ''local_blks_written'', fld64 ''temp_blks_read'',
      fld64 ''temp_blks_written'',
      fld64 ''shared_blk_read_time_us'', fld64 ''shared_blk_write_time_us'',
      fld64 ''local_blk_read_time_us'', fld64 ''local_blk_write_time_us'',
      fld64 ''temp_blk_read_time_us'', fld64 ''temp_blk_write_time_us'',
      fld64 ''wal_records'', fld64 ''wal_fpi'', fld64 ''wal_bytes'',
      fld64 ''cpu_user_time_us'', fld64 ''cpu_sys_time_us'',
      fld32 ''jit_functions'', fld32 ''jit_generation_time_us'', fld32 ''jit_deform_time_us'',
      fld32 ''jit_inlining_time_us'', fld32 ''jit_optimization_time_us'',
      fld32 ''jit_emission_time_us'',
      fld16 ''parallel_workers_planned'', fld16 ''parallel_workers_launched'',
      fldbuf ''err_sqlstate'' 6, fld8 ''err_elevel'', fld8 ''_padding3'',
      fld16 ''err_message_len'',
      fldbuf ''application_name'' 64, fld8 ''application_name_len'', fldbuf ''client_addr'' 46,
      fld8 ''client_addr_len'', fld16 ''query_len'',
      fld64 ''err_message_dsa'', fld64 ''query_dsa'']"

definition c_offsetof :: "c_field list \<Rightarrow> string \<Rightarrow> nat option" where
  "c_offsetof fs nm = map_of (c_offsets 0 fs) nm"

definition kFixedPrefixSize :: nat where
  "kFixedPrefixSize = the (c_offsetof PschRingEntry_fields ''err_message_dsa'')"

lemma c_offsets_append:
  "c_offsets off (fs @ gs) = c_offsets off fs @ c_offsets (c_end off fs) gs"
  by (induction off fs rule: c_offsets.induct) (auto simp: Let_def)

lemma c_end_append: "c_end off (fs @ gs) = c_end (c_end off fs) gs"
  by (induction off fs rule: c_offsets.induct) (auto simp: Let_def)

lemma length_c_offsets [simp]: "length (c_offsets off fs) = length fs"
  by (induction off fs rule: c_offsets.induct) (auto simp: Let_def)

lemma fst_c_offsets [simp]: "map fst (c_offsets off fs) = map fst fs"
  by (induction off fs rule: c_offsets.induct) (auto simp: Let_def)

text \<open>The declarations of the two structs agree up to \<^verbatim>\<open>query_len\<close>.\<close>

lemma event_fields_split:
  "PschEvent_fields =
     take 51 PschRingEntry_fields @ [fldbuf ''err_message'' 2048, fldbuf ''query'' 2048]"
  by (simp add: PschEvent_fields_def PschRingEntry_fields_def)

lemma ring_entry_fields_split:
  "PschRingEntry_fields =
     take 51 PschRingEntry_fields @ [fld64 ''err_message_dsa'', fld64 ''query_dsa'']"
  by (simp add: PschRingEntry_fields_def)

lemma length_common_fields: "length PschRingEntry_fields = 53"
  by (simp add: PschRingEntry_fields_def)

lemma c_end_common: "c_end 0 (take 51 PschRingEntry_fields) = 504"
  by (simp add: PschRingEntry_fields_def align_up_def)

lemma common_field_names:
  "''err_message'' \<notin> set (map fst (take 51 PschRingEntry_fields))"
  "''err_message_dsa'' \<notin> set (map fst (take 51 PschRingEntry_fields))"
  by (simp_all add: PschRingEntry_fields_def)

lemma c_sizeof_event: "c_sizeof PschEvent_fields = 4600"
  by (simp add: c_sizeof_def PschEvent_fields_def align_up_def)

lemma c_sizeof_ring_entry: "c_sizeof PschRingEntry_fields = 520"
  by (simp add: c_sizeof_def PschRingEntry_fields_def align_up_def)

lemma c_offsets_event:
  "c_offsets 0 PschEvent_fields =
     c_offsets 0 (take 51 PschRingEntry_fields) @ [(''err_message'', 504), (''query'', 2552)]"
  by (subst event_fields_split, simp only: c_offsets_append c_end_common) (simp add: align_up_def)

lemma c_offsets_ring_entry:
  "c_offsets 0 PschRingEntry_fields =
     c_offsets 0 (take 51 PschRingEntry_fields) @ [(''err_message_dsa'', 504), (''query_dsa'', 512)]"
  by (subst ring_entry_fields_split, simp only: c_offsets_append c_end_common)
    (simp add: align_up_def)

lemma map_of_c_offsets_None:
  "nm \<notin> set (map fst fs) \<Longrightarrow> map_of (c_offsets off fs) nm = None"
  by (metis fst_c_offsets map_of_eq_None_iff set_map)

lemma kFixedPrefixSize_eq:
  "c_offsetof PschEvent_fields ''err_message'' = Some 504"
  "c_offsetof PschRingEntry_fields ''err_message_dsa'' = Some 504"
  "kFixedPrefixSize = 504"
  by (simp_all add: kFixedPrefixSize_def c_offsetof_def c_offsets_event c_offsets_ring_entry
      map_add_def map_of_c_offsets_None [OF common_field_names(1)]
      map_of_c_offsets_None [OF common_field_names(2)])

text \<open>A field read from the bytes of a struct: as many bytes as it has, from its offset on.\<close>

definition c_read :: "c_field list \<Rightarrow> string \<Rightarrow> char list \<Rightarrow> char list option" where
  "c_read fs nm mem =
     (case (c_offsetof fs nm, map_of fs nm) of
        (Some off, Some (sz, al)) \<Rightarrow> if off + sz \<le> length mem then Some (take sz (drop off mem)) else None
      | _ \<Rightarrow> None)"

lemma align_up_ge: "0 < a \<Longrightarrow> n \<le> align_up a n"
  unfolding align_up_def using dividend_less_div_times [of a "n + (a - 1)"] by linarith

lemma c_end_ge: "\<forall>f\<in>set fs. 0 < snd (snd f) \<Longrightarrow> off \<le> c_end off fs"
proof (induction off fs rule: c_end.induct)
  case (2 off nm sz al fs)
  have "off \<le> align_up al off" using 2(2) by (intro align_up_ge) simp
  also have "\<dots> \<le> align_up al off + sz" by simp
  also have "\<dots> \<le> c_end (align_up al off + sz) fs" using 2 by simp
  finally show ?case by simp
qed simp

lemma c_field_within:
  assumes "nm \<in> fst ` set fs" and "\<forall>f\<in>set fs. 0 < snd (snd f)"
  obtains o' sz al where "map_of (c_offsets off fs) nm = Some o'" "map_of fs nm = Some (sz, al)" "o' + sz \<le> c_end off fs"
  using assms
proof (induction off fs arbitrary: thesis rule: c_end.induct)
  case (2 off m sz al fs)
  show ?case
  proof (cases "m = nm")
    case True
    have "align_up al off + sz \<le> c_end (align_up al off + sz) fs" using 2(4) by (intro c_end_ge) simp
    with True show ?thesis by (intro 2(2) [of "align_up al off" sz al]) (simp_all add: Let_def)
  next
    case False
    obtain o' sz' al' where "map_of (c_offsets (align_up al off + sz) fs) nm = Some o'" "map_of fs nm = Some (sz', al')"
        "o' + sz' \<le> c_end (align_up al off + sz) fs"
      using 2(1) 2(3,4) False by auto
    with False show ?thesis by (intro 2(2) [of o' sz' al']) (simp_all add: Let_def)
  qed
qed simp

lemma common_aligned: "\<forall>f\<in>set (take 51 PschRingEntry_fields). 0 < snd (snd f)"
  by (simp add: PschRingEntry_fields_def)

lemma tail_field_names:
  "''query'' \<notin> set (map fst (take 51 PschRingEntry_fields))"
  "''query_dsa'' \<notin> set (map fst (take 51 PschRingEntry_fields))"
  by (simp_all add: PschRingEntry_fields_def)

lemma tail_offsets:
  "c_offsetof PschRingEntry_fields ''query_dsa'' = Some 512" "c_offsetof PschEvent_fields ''query'' = Some 2552"
  by (simp_all add: c_offsetof_def c_offsets_event c_offsets_ring_entry map_add_def
      map_of_c_offsets_None [OF tail_field_names(1)] map_of_c_offsets_None [OF tail_field_names(2)])

lemma tail_sizes:
  "map_of PschRingEntry_fields ''err_message_dsa'' = Some (8, 8)"
  "map_of PschRingEntry_fields ''query_dsa'' = Some (8, 8)"
  "map_of PschEvent_fields ''err_message'' = Some (2048, 1)"
  "map_of PschEvent_fields ''query'' = Some (2048, 1)"
  by (simp_all add: PschRingEntry_fields_def PschEvent_fields_def)

lemmas tail_fields = kFixedPrefixSize_eq(1,2) tail_offsets tail_sizes

text \<open>A common field is at the same place in both structs, inside the prefix.\<close>

lemma map_of_appendI: "map_of xs k = Some v \<Longrightarrow> map_of (xs @ ys) k = Some v"
  by (simp add: map_add_def)

lemma common_field:
  assumes "nm \<in> fst ` set (take 51 PschRingEntry_fields)"
  obtains off sz al where "c_offsetof PschEvent_fields nm = Some off" "c_offsetof PschRingEntry_fields nm = Some off"
    "map_of PschEvent_fields nm = Some (sz, al)" "map_of PschRingEntry_fields nm = Some (sz, al)" "off + sz \<le> 504"
proof (rule c_field_within [OF assms common_aligned, of 0], unfold c_end_common)
  fix off sz al
  assume A: "map_of (c_offsets 0 (take 51 PschRingEntry_fields)) nm = Some off"
    "map_of (take 51 PschRingEntry_fields) nm = Some (sz, al)" "off + sz \<le> 504"
  show ?thesis
  proof (rule that [of off sz al])
    show "c_offsetof PschEvent_fields nm = Some off" "c_offsetof PschRingEntry_fields nm = Some off"
      unfolding c_offsetof_def c_offsets_event c_offsets_ring_entry by (rule map_of_appendI [OF A(1)])+
    show "map_of PschEvent_fields nm = Some (sz, al)"
      unfolding event_fields_split by (rule map_of_appendI [OF A(2)])
    show "map_of PschRingEntry_fields nm = Some (sz, al)"
      by (subst ring_entry_fields_split) (rule map_of_appendI [OF A(2)])
  qed (rule A(3))
qed

lemma read_prefix:
  "off + sz \<le> n \<Longrightarrow> take sz (drop off (take n a)) = take sz (drop off a)"
  by (simp add: drop_take min_absorb1)

text \<open>
  C34 The copies between an event and a ring slot, byte by byte. For any contents of the two
  structs, \<^verbatim>\<open>memcpy(slot, event, kFixedPrefixSize)\<close> stays inside both, gives every one of the 51
  common fields of the slot the bytes of the event's field of that name, and leaves the bytes
  of the two DSA pointers; \<^verbatim>\<open>memcpy(event, slot, kFixedPrefixSize)\<close> does the same the other way and
  leaves the two text buffers. The static assertions of \<^verbatim>\<open>ring_entry.h\<close> check ten of the offsets
  this rests on.
\<close>

theorem prefix_copy_bytes:
  assumes "length event = c_sizeof PschEvent_fields" and "length slot = c_sizeof PschRingEntry_fields"
  shows "\<exists>slot' event'. memcpy slot event kFixedPrefixSize = Some slot' \<and>
     memcpy event slot kFixedPrefixSize = Some event' \<and>
     (\<forall>nm\<in>fst ` set (take 51 PschRingEntry_fields).
        c_read PschEvent_fields nm event \<noteq> None \<and> c_read PschRingEntry_fields nm slot \<noteq> None \<and>
        c_read PschRingEntry_fields nm slot' = c_read PschEvent_fields nm event \<and>
        c_read PschEvent_fields nm event' = c_read PschRingEntry_fields nm slot) \<and>
     (\<forall>nm\<in>{''err_message_dsa'', ''query_dsa''}.
        c_read PschRingEntry_fields nm slot' = c_read PschRingEntry_fields nm slot) \<and>
     (\<forall>nm\<in>{''err_message'', ''query''}. c_read PschEvent_fields nm event' = c_read PschEvent_fields nm event)"
proof -
  have l: "length event = 4600" "length slot = 520" using assms by (simp_all add: c_sizeof_event c_sizeof_ring_entry)
  let ?s = "take 504 event @ drop 504 slot" and ?e = "take 504 slot @ drop 504 event"
  have m: "memcpy slot event kFixedPrefixSize = Some ?s" "memcpy event slot kFixedPrefixSize = Some ?e"
    by (simp_all add: kFixedPrefixSize_eq l)
  have c: "c_read PschEvent_fields nm event \<noteq> None \<and> c_read PschRingEntry_fields nm slot \<noteq> None \<and>
      c_read PschRingEntry_fields nm ?s = c_read PschEvent_fields nm event \<and>
      c_read PschEvent_fields nm ?e = c_read PschRingEntry_fields nm slot"
    if "nm \<in> fst ` set (take 51 PschRingEntry_fields)" for nm
    using that by (rule common_field) (simp add: c_read_def l read_prefix)
  have d: "c_read PschRingEntry_fields nm ?s = c_read PschRingEntry_fields nm slot"
    if "nm \<in> {''err_message_dsa'', ''query_dsa''}" for nm
    using that by (auto simp: c_read_def l tail_fields)
  have t: "c_read PschEvent_fields nm ?e = c_read PschEvent_fields nm event"
    if "nm \<in> {''err_message'', ''query''}" for nm
    using that by (auto simp: c_read_def l tail_fields)
  show ?thesis
    by (rule exI [of _ ?s], rule exI [of _ ?e], intro conjI) (rule m, rule m, rule ballI, erule c, rule ballI, erule d, rule ballI, erule t)
qed

theorem prefix_copy_bytes_witness:
  "\<exists>slot'. memcpy (replicate 520 CHR ''b'') (replicate 4600 CHR ''a'') kFixedPrefixSize = Some slot' \<and>
     c_read PschRingEntry_fields ''query_dsa'' slot' =
       c_read PschRingEntry_fields ''query_dsa'' (replicate 520 CHR ''b'')"
  using prefix_copy_bytes [of "replicate 4600 CHR ''a''" "replicate 520 CHR ''b''",
      unfolded length_replicate c_sizeof_event c_sizeof_ring_entry, OF refl refl] by blast

end
