(* ===== verification/Psch_Dsa.thy ===== *)
theory Psch_Dsa
  imports Psch_Event
begin

section \<open>Shared state and string storage (\<^verbatim>\<open>psch_dsa.h\<close>, \<^verbatim>\<open>psch_dsa.c\<close>)\<close>

text \<open>
  The shared-memory segment, the process-local state, and the two operations on the
  dynamic shared area (DSA) that store and fetch an error message.

  PostgreSQL's own code is not part of the repository; it enters through the record
  \<open>pg_env\<close>, whose fields are the answers of the calls the extension makes. A theorem that
  relies on the documentation of such a call names that as a hypothesis
  (\<open>dsa_allocate_fresh\<close>, and others in the theories below).
\<close>

subsection \<open>What lives in shared memory\<close>

text \<open>
  The bodies that a \<^verbatim>\<open>dsa_pointer\<close> can point at: a C string (an error message), or an
  interned query (\<^verbatim>\<open>PschQueryInternObject\<close>, with the bytes of its flexible array). A pointer
  that the map does not have is memory that is not allocated.
\<close>

record PschQueryInternKey =
  key_dbid :: Oid
  key_queryid :: u64
  key_query_hash :: u64
  key_query_len :: u16

text \<open>In C the entry holds its key as first member; here the key is the map's key.\<close>

record PschQueryInternEntry =
  entry_object :: dsa_pointer
  entry_refcount :: u32

record PschQueryInternObject =
  obj_key :: PschQueryInternKey
  obj_magic :: u32
  obj_query :: "char list"

datatype dsa_body = StrBody "char list" | InternBody PschQueryInternObject

type_synonym dsa_heap = "dsa_pointer \<rightharpoonup> dsa_body"
type_synonym intern_htab = "PschQueryInternKey \<rightharpoonup> PschQueryInternEntry"

text \<open>
  Reports that reach \<^verbatim>\<open>errfinish\<close> and so \<^verbatim>\<open>emit_log_hook\<close>, each with the value of
  \<^verbatim>\<open>disable_error_capture\<close> of the reporting process at that moment.
\<close>

datatype log_msg =
    OverflowWarning
  | InitLog int
  | ShutdownLog u64 u64 u64
  | ExporterWarning "char list"
  | WorkerNotRunning
  | WorkerSignalFailed

record PschSharedState =
  lock :: bool
  raw_dsa_area :: bool
  dsa_oom_count :: u64
  capacity :: u32
  head :: u64
  enqueued :: u64
  dropped :: u64
  overflow_logged :: bool
  tail :: u64
  exported :: u64
  send_failures :: u64
  last_success_ts :: TimestampTz
  last_error_ts :: TimestampTz
  last_error_text :: "char list"
  bgworker_pid :: u32
  ring_buffer :: "PschRingEntry list"
  dsa_area :: dsa_heap
  dsa_refcnt :: nat
  intern_tab :: intern_htab
  server_log :: "(log_msg \<times> bool) list"

datatype exit_callback = PschShmemShutdownCb | PschDsaDetachOnExitCb | PschLocalBatchShutdownCb

text \<open>
  Process-local state: the static variables of the \<^verbatim>\<open>.c\<close> files. A pointer variable is
  the truth value of its being non-NULL. \<open>shmem_exit_list\<close> is the stack of callbacks that
  \<^verbatim>\<open>on_shmem_exit\<close> has registered, newest first.
\<close>

record PschProc =
  psch_shared_state :: bool
  psch_query_intern_htab :: bool
  psch_dsa :: bool
  psch_dsa_exit_hook_registered :: bool
  shmem_exit_list :: "exit_callback list"
  holds_lock :: bool
  disable_error_capture :: bool
  local_batch :: "PschEvent list"
  local_batch_count :: nat
  local_batch_initialized :: bool
  xact_callback_registered :: bool

type_synonym world = "PschSharedState \<times> PschProc"

record pg_env =
  dsa_attach_ok :: bool
  dsa_allocate :: "dsa_heap \<Rightarrow> nat \<Rightarrow> dsa_pointer"
  uninit_byte :: "nat \<Rightarrow> char"
  hash_any_extended :: "char list \<Rightarrow> u64"
  get_hash_value :: "PschQueryInternKey \<Rightarrow> u32"
  htab_full :: "intern_htab \<Rightarrow> bool"
  lwlock_wait :: "PschSharedState \<Rightarrow> PschSharedState"
  GetCurrentTimestamp :: TimestampTz
  log_capture :: "log_msg \<Rightarrow> world \<Rightarrow> world option"

text \<open>
  The documented behaviour of \<^verbatim>\<open>dsa_allocate_extended\<close>: a valid result is memory that no
  live allocation uses.
\<close>

definition dsa_allocate_fresh :: "pg_env \<Rightarrow> bool" where
  "dsa_allocate_fresh env \<longleftrightarrow>
     (\<forall>h n. dsa_allocate env h n \<noteq> InvalidDsaPointer \<longrightarrow> h (dsa_allocate env h n) = None)"

subsection \<open>Attaching\<close>

definition PschDsaShmemSize :: "int \<Rightarrow> int" where
  "PschDsaShmemSize string_area_size = string_area_size * 1024 * 1024"

text \<open>
  \<^verbatim>\<open>dsa_create_in_place\<close> takes the first reference, \<^verbatim>\<open>dsa_pin\<close> a second one that is never
  dropped; \<^verbatim>\<open>dsa_detach\<close> drops only the process-local handle.
\<close>

definition PschDsaInit :: "PschSharedState \<Rightarrow> PschSharedState" where
  "PschDsaInit sh = sh\<lparr>raw_dsa_area := True, dsa_area := Map.empty, dsa_refcnt := 2\<rparr>"

definition on_shmem_exit :: "exit_callback \<Rightarrow> PschProc \<Rightarrow> PschProc" where
  "on_shmem_exit cb p = p\<lparr>shmem_exit_list := cb # shmem_exit_list p\<rparr>"

text \<open>\<^verbatim>\<open>dsa_attach_in_place\<close> allocates the handle and may run out of memory (\<open>dsa_attach_ok\<close>).\<close>

definition PschDsaAttach :: "pg_env \<Rightarrow> world \<Rightarrow> (world, unit) pgres" where
  "PschDsaAttach env w =
     (case w of (sh, p) \<Rightarrow>
        if psch_dsa p then pg_ret (sh, p) ()
        else if \<not> psch_shared_state p \<or> \<not> raw_dsa_area sh then pg_ret (sh, p) ()
        else if \<not> dsa_attach_ok env then Some ((sh, p), Throw)
        else
          let sh = sh\<lparr>dsa_refcnt := dsa_refcnt sh + 1\<rparr>;
              p = p\<lparr>psch_dsa := True\<rparr>;
              p = (if psch_dsa_exit_hook_registered p then p
                   else (on_shmem_exit PschDsaDetachOnExitCb p)
                          \<lparr>psch_dsa_exit_hook_registered := True\<rparr>)
          in pg_ret (sh, p) ())"

definition PschDsaGetArea :: "pg_env \<Rightarrow> world \<Rightarrow> (world, bool) pgres" where
  "PschDsaGetArea env w =
     pg_bind (if \<not> psch_dsa (snd w) then PschDsaAttach env w else pg_ret w ())
       (\<lambda>w _. pg_ret w (psch_dsa (snd w)))"

definition PschDsaDetachOnExit :: "world \<Rightarrow> world" where
  "PschDsaDetachOnExit w =
     (case w of (sh, p) \<Rightarrow>
        let p = (if psch_dsa p then p\<lparr>psch_dsa := False\<rparr> else p);
            sh = (if psch_shared_state p \<and> raw_dsa_area sh
                  then sh\<lparr>dsa_refcnt := dsa_refcnt sh - 1\<rparr> else sh)
        in (sh, p\<lparr>psch_dsa_exit_hook_registered := False\<rparr>))"

subsection \<open>Strings\<close>

text \<open>\<^verbatim>\<open>dsa_free\<close> of a pointer that is not allocated is undefined behaviour.\<close>

definition dsa_free :: "dsa_pointer \<Rightarrow> PschSharedState \<Rightarrow> PschSharedState option" where
  "dsa_free dp sh =
     (case dsa_area sh dp of
        None \<Rightarrow> None
      | Some _ \<Rightarrow> Some (sh\<lparr>dsa_area := (dsa_area sh)(dp := None)\<rparr>))"

text \<open>The bytes of an allocation of \<open>n\<close> bytes before anything is written to it.\<close>

definition fresh_bytes :: "pg_env \<Rightarrow> nat \<Rightarrow> char list" where
  "fresh_bytes env n = map (uninit_byte env) [0..<n]"

lemma length_fresh_bytes [simp]: "length (fresh_bytes env n) = n"
  by (simp add: fresh_bytes_def)

text \<open>
  The allocation has exactly the bytes that were asked for: writing past them is undefined
  behaviour, as is reading past the source.
\<close>

definition PschDsaAllocString ::
    "pg_env \<Rightarrow> char list \<Rightarrow> u16 \<Rightarrow> u16 \<Rightarrow> world \<Rightarrow> (world, dsa_pointer) pgres" where
  "PschDsaAllocString env src len max_len w =
     (if len = 0 then pg_ret w InvalidDsaPointer
      else pg_bind (PschDsaGetArea env w) (\<lambda>(sh, p) dsa.
        if \<not> dsa then pg_ret (sh, p) InvalidDsaPointer
        else
          let clamped = min len (max_len - 1);
              size = unat clamped + 1;
              dp = dsa_allocate env (dsa_area sh) size
          in if dp \<noteq> InvalidDsaPointer then
               (case memcpy (fresh_bytes env size) src (unat clamped) of
                  None \<Rightarrow> None
                | Some dst \<Rightarrow>
                    (case set_byte dst (unat clamped) NUL of
                       None \<Rightarrow> None
                     | Some dst \<Rightarrow> pg_ret (sh\<lparr>dsa_area := (dsa_area sh)(dp \<mapsto> StrBody dst)\<rparr>, p) dp))
             else pg_ret (sh\<lparr>dsa_oom_count := dsa_oom_count sh + 1\<rparr>, p) dp))"

text \<open>
  The result is the caller's buffer and \<^verbatim>\<open>*out_len\<close>. Reading more bytes than the string
  body has, or reading a body that is not a string, is undefined behaviour.
\<close>

definition PschDsaResolveString ::
    "pg_env \<Rightarrow> dsa_pointer \<Rightarrow> u16 \<Rightarrow> char list \<Rightarrow> u16 \<Rightarrow> world \<Rightarrow>
       (world, char list \<times> u16) pgres" where
  "PschDsaResolveString env dp src_len dst_buf max_len w =
     (if dp \<noteq> InvalidDsaPointer then
        pg_bind (PschDsaGetArea env w) (\<lambda>(sh, p) dsa.
          if \<not> dsa then
            (case set_byte dst_buf 0 NUL of
               None \<Rightarrow> None
             | Some buf \<Rightarrow> pg_ret (sh, p) (buf, 0))
          else
            (case dsa_area sh dp of
               Some (StrBody src) \<Rightarrow>
                 (let len = min src_len (max_len - 1) in
                  case memcpy dst_buf src (unat len) of
                    None \<Rightarrow> None
                  | Some buf \<Rightarrow>
                      (case set_byte buf (unat len) NUL of
                         None \<Rightarrow> None
                       | Some buf \<Rightarrow>
                           (case dsa_free dp sh of
                              None \<Rightarrow> None
                            | Some sh \<Rightarrow> pg_ret (sh, p) (buf, len))))
             | _ \<Rightarrow> None))
      else
        (case set_byte dst_buf 0 NUL of
           None \<Rightarrow> None
         | Some buf \<Rightarrow> pg_ret w (buf, 0)))"

subsection \<open>Lemmas\<close>

text \<open>
  A process whose handle is open reads the area directly; the other cases of
  \<open>PschDsaGetArea\<close> only change the handle and the reference count.
\<close>

lemma PschDsaGetArea_attached [simp]:
  "psch_dsa p \<Longrightarrow> PschDsaGetArea env (sh, p) = pg_ret (sh, p) True"
  by (simp add: PschDsaGetArea_def)

definition same_but_refcnt :: "PschSharedState \<Rightarrow> PschSharedState \<Rightarrow> bool" where
  "same_but_refcnt sh sh' \<longleftrightarrow> sh'\<lparr>dsa_refcnt := 0\<rparr> = sh\<lparr>dsa_refcnt := 0\<rparr>"

lemma same_but_refcntE:
  assumes "same_but_refcnt sh sh'"
  obtains n where "sh' = sh\<lparr>dsa_refcnt := n\<rparr>"
proof
  have "sh'\<lparr>dsa_refcnt := 0, dsa_refcnt := dsa_refcnt sh'\<rparr>
          = sh\<lparr>dsa_refcnt := 0, dsa_refcnt := dsa_refcnt sh'\<rparr>"
    using assms by (simp only: same_but_refcnt_def)
  then show "sh' = sh\<lparr>dsa_refcnt := dsa_refcnt sh'\<rparr>"
    by simp
qed

lemma same_but_refcnt_refl [intro, simp]: "same_but_refcnt sh sh"
  by (simp add: same_but_refcnt_def)

lemma same_but_refcnt_update [intro, simp]: "same_but_refcnt sh (sh\<lparr>dsa_refcnt := n\<rparr>)"
  by (simp add: same_but_refcnt_def)

lemma same_but_refcnt_trans:
  "same_but_refcnt a b \<Longrightarrow> same_but_refcnt b c \<Longrightarrow> same_but_refcnt a c"
  by (simp add: same_but_refcnt_def)

text \<open>What attaching may change of the process: the handle and the callback stack.\<close>

definition erase_handle :: "PschProc \<Rightarrow> PschProc" where
  "erase_handle p = p\<lparr>psch_dsa := False, psch_dsa_exit_hook_registered := False,
                      shmem_exit_list := []\<rparr>"

definition same_proc :: "PschProc \<Rightarrow> PschProc \<Rightarrow> bool" where
  "same_proc p p' \<longleftrightarrow> erase_handle p' = erase_handle p"

lemma same_proc_refl [intro, simp]: "same_proc p p"
  by (simp add: same_proc_def)

lemma same_proc_trans: "same_proc p q \<Longrightarrow> same_proc q r \<Longrightarrow> same_proc p r"
  by (simp add: same_proc_def)

lemma same_procD:
  assumes "same_proc p p'"
  shows "psch_shared_state p' = psch_shared_state p"
    and "psch_query_intern_htab p' = psch_query_intern_htab p"
    and "holds_lock p' = holds_lock p"
    and "disable_error_capture p' = disable_error_capture p"
    and "local_batch p' = local_batch p"
    and "local_batch_count p' = local_batch_count p"
    and "local_batch_initialized p' = local_batch_initialized p"
    and "xact_callback_registered p' = xact_callback_registered p"
  using assms by (cases p; cases p'; simp add: same_proc_def erase_handle_def)+

lemma PschDsaAllocString_eq:
  "PschDsaAllocString env src len max_len w =
     (if len = 0 then pg_ret w InvalidDsaPointer
      else pg_bind (PschDsaGetArea env w) (\<lambda>(sh, p) dsa.
        if \<not> dsa then pg_ret (sh, p) InvalidDsaPointer
        else
          let clamped = min len (max_len - 1);
              dp = dsa_allocate env (dsa_area sh) (unat clamped + 1)
          in if dp \<noteq> InvalidDsaPointer then
               (if unat clamped \<le> length src
                then pg_ret (sh\<lparr>dsa_area :=
                       (dsa_area sh)(dp \<mapsto> StrBody (take (unat clamped) src @ [NUL]))\<rparr>, p) dp
                else None)
             else pg_ret (sh\<lparr>dsa_oom_count := dsa_oom_count sh + 1\<rparr>, p) dp))"
  by (simp add: PschDsaAllocString_def Let_def copy_exact memcpy_def cong: if_cong)

lemma PschDsaAttach_frame:
  "PschDsaAttach env (sh, p) = Some ((sh', p'), r) \<Longrightarrow> same_but_refcnt sh sh' \<and> same_proc p p'"
  by (auto simp: PschDsaAttach_def pg_ret_def Let_def on_shmem_exit_def same_proc_def
      erase_handle_def split: if_splits)

lemma PschDsaAttach_not_None: "PschDsaAttach env w \<noteq> None"
  by (auto simp: PschDsaAttach_def pg_ret_def Let_def split: prod.splits)

lemma PschDsaGetArea_frame:
  "PschDsaGetArea env (sh, p) = Some ((sh', p'), r) \<Longrightarrow> same_but_refcnt sh sh' \<and> same_proc p p'"
  by (auto simp: PschDsaGetArea_def pg_bind_eq_Some pg_ret_def dest: PschDsaAttach_frame
      split: if_splits)

lemma PschDsaGetArea_not_None: "PschDsaGetArea env w \<noteq> None"
  unfolding PschDsaGetArea_def
  by (rule pg_bind_not_None) (auto simp: PschDsaAttach_not_None pg_ret_def simp del: not_None_eq)

lemma PschDsaGetArea_cases:
  obtains sh' p' r where "PschDsaGetArea env (sh, p) = Some ((sh', p'), r)"
    and "same_but_refcnt sh sh'" and "same_proc p p'" and "r \<noteq> Throw \<Longrightarrow> r = Ret (psch_dsa p')"
proof -
  obtain sh' p' r where e: "PschDsaGetArea env (sh, p) = Some ((sh', p'), r)"
    using PschDsaGetArea_not_None [of env "(sh, p)"]
    by (cases "PschDsaGetArea env (sh, p)") auto
  have r: "r \<noteq> Throw \<Longrightarrow> r = Ret (psch_dsa p')"
    using e by (auto simp: PschDsaGetArea_def pg_bind_eq_Some pg_ret_def split: if_splits)
  show ?thesis
    using PschDsaGetArea_frame [OF e] by (intro that [OF e _ _ r]) simp_all
qed

text \<open>
  In a process that has shared memory, getting the area either yields an open handle or
  raises before anything has changed.
\<close>

lemma PschDsaGetArea_ready:
  assumes "psch_shared_state p" "raw_dsa_area sh"
  obtains (open_handle) n p' where "PschDsaGetArea env (sh, p) = Some ((sh\<lparr>dsa_refcnt := n\<rparr>, p'), Ret True)"
      "same_proc p p'" "psch_dsa p'"
  | (throws) "PschDsaGetArea env (sh, p) = Some ((sh, p), Throw)" "\<not> psch_dsa p" "\<not> dsa_attach_ok env"
proof (cases "psch_dsa p")
  case True
  then have "PschDsaGetArea env (sh, p) = Some ((sh\<lparr>dsa_refcnt := dsa_refcnt sh\<rparr>, p), Ret True)"
    by (simp add: pg_ret_def)
  from open_handle [OF this same_proc_refl True] show ?thesis .
next
  case closed: False
  show ?thesis
  proof (cases "dsa_attach_ok env")
    case True
    let ?p = "if psch_dsa_exit_hook_registered p then p\<lparr>psch_dsa := True\<rparr>
              else (on_shmem_exit PschDsaDetachOnExitCb (p\<lparr>psch_dsa := True\<rparr>))
                     \<lparr>psch_dsa_exit_hook_registered := True\<rparr>"
    have "PschDsaGetArea env (sh, p) = Some ((sh\<lparr>dsa_refcnt := dsa_refcnt sh + 1\<rparr>, ?p), Ret True)"
      using closed True assms
      by (simp add: PschDsaGetArea_def PschDsaAttach_def pg_ret_def Let_def on_shmem_exit_def)
    then show ?thesis
      by (rule open_handle) (simp_all add: same_proc_def erase_handle_def on_shmem_exit_def)
  next
    case False
    then show ?thesis
      using closed assms by (intro throws) (simp_all add: PschDsaGetArea_def PschDsaAttach_def)
  qed
qed

end
