(* ===== verification/Psch_Query_Intern.thy ===== *)
theory Psch_Query_Intern
  imports Psch_Dsa
begin

section \<open>The query-text interner (\<^verbatim>\<open>query_intern.c\<close>)\<close>

text \<open>
  Repeated query texts share one body in the dynamic shared area. A shared hash table maps
  (database, query id, text hash, text length) to the body and a reference count; the
  producer acquires a reference per queued event, the consumer copies the text out and
  drops the reference.

  The two critical sections of \<^verbatim>\<open>PschQueryInternAcquire\<close> are separate definitions
  (\<open>intern_find\<close>, \<open>intern_enter\<close>), because the allocation between them runs without the
  partition lock. \<open>intern_inv sh R\<close> is the invariant, with \<open>R\<close> the multiset of references
  that are outstanding; the locale \<open>refcounted_interner\<close> is the contract the queue uses.
\<close>

subsection \<open>Operations\<close>

abbreviation PSCH_QUERY_INTERN_MAGIC :: u32 where "PSCH_QUERY_INTERN_MAGIC \<equiv> 0x51544348"
abbreviation PSCH_QUERY_INTERN_PARTITIONS :: u32 where "PSCH_QUERY_INTERN_PARTITIONS \<equiv> 32"

definition PschQueryInternMaxEntries :: "int \<Rightarrow> int" where
  "PschQueryInternMaxEntries queue_capacity = queue_capacity"

definition PschQueryInternLockCount :: u32 where
  "PschQueryInternLockCount = PSCH_QUERY_INTERN_PARTITIONS"

text \<open>Hashing reads \<open>qlen\<close> bytes of the buffer.\<close>

definition MakeKey ::
    "pg_env \<Rightarrow> Oid \<Rightarrow> u64 \<Rightarrow> char list \<Rightarrow> u16 \<Rightarrow> PschQueryInternKey option" where
  "MakeKey env db qid q qlen =
     (if unat qlen \<le> length q
      then Some \<lparr>key_dbid = db, key_queryid = qid,
                 key_query_hash = hash_any_extended env (take (unat qlen) q),
                 key_query_len = qlen\<rparr>
      else None)"

definition CopyKeyFields :: "PschQueryInternKey \<Rightarrow> PschQueryInternKey" where
  "CopyKeyFields src =
     \<lparr>key_dbid = key_dbid src, key_queryid = key_queryid src,
      key_query_hash = key_query_hash src, key_query_len = key_query_len src\<rparr>"

text \<open>The index of the partition lock, relative to the base of the array.\<close>

definition PartitionLockFor :: "u32 \<Rightarrow> nat" where
  "PartitionLockFor hashcode = unat (hashcode AND (PSCH_QUERY_INTERN_PARTITIONS - 1))"

text \<open>
  \<^verbatim>\<open>offsetof(PschQueryInternObject, query)\<close> is 36 where 64-bit integers are aligned to 8 bytes;
  what the allocation has beyond it is the flexible array.
\<close>

definition offsetof_query :: nat where
  "offsetof_query = 36"

definition AllocInternObject ::
    "pg_env \<Rightarrow> PschQueryInternKey \<Rightarrow> char list \<Rightarrow> u16 \<Rightarrow> PschSharedState \<Rightarrow>
       (PschSharedState \<times> dsa_pointer) option" where
  "AllocInternObject env key q qlen sh =
     (let alloc_size = offsetof_query + unat qlen + 1;
          dp = dsa_allocate env (dsa_area sh) alloc_size
      in if dp = InvalidDsaPointer
         then Some (sh\<lparr>dsa_oom_count := dsa_oom_count sh + 1\<rparr>, InvalidDsaPointer)
         else
           (case memcpy (fresh_bytes env (alloc_size - offsetof_query)) q (unat qlen) of
              None \<Rightarrow> None
            | Some bytes \<Rightarrow>
                (case set_byte bytes (unat qlen) NUL of
                   None \<Rightarrow> None
                 | Some bytes \<Rightarrow>
                     Some (sh\<lparr>dsa_area := (dsa_area sh)
                       (dp \<mapsto> InternBody \<lparr>obj_key = CopyKeyFields key, obj_magic = PSCH_QUERY_INTERN_MAGIC,
                                         obj_query = bytes\<rparr>)\<rparr>, dp))))"

text \<open>The writes stay inside the allocation, which then holds the text and its terminator.\<close>

lemma AllocInternObject_eq:
  "AllocInternObject env key q qlen sh =
     (let dp = dsa_allocate env (dsa_area sh) (offsetof_query + unat qlen + 1)
      in if dp = InvalidDsaPointer
         then Some (sh\<lparr>dsa_oom_count := dsa_oom_count sh + 1\<rparr>, InvalidDsaPointer)
         else if unat qlen \<le> length q
         then Some (sh\<lparr>dsa_area := (dsa_area sh)
                (dp \<mapsto> InternBody \<lparr>obj_key = CopyKeyFields key, obj_magic = PSCH_QUERY_INTERN_MAGIC,
                                  obj_query = take (unat qlen) q @ [NUL]\<rparr>)\<rparr>, dp)
         else None)"
  by (simp add: AllocInternObject_def Let_def copy_exact memcpy_def)

definition ObjectMatches ::
    "PschSharedState \<Rightarrow> dsa_pointer \<Rightarrow> char list \<Rightarrow> u16 \<Rightarrow> bool option" where
  "ObjectMatches sh dp q qlen =
     (case dsa_area sh dp of
        Some (InternBody obj) \<Rightarrow>
          if obj_magic obj \<noteq> PSCH_QUERY_INTERN_MAGIC then Some False
          else if key_query_len (obj_key obj) \<noteq> qlen then Some False
          else if unat qlen \<le> length (obj_query obj) \<and> unat qlen \<le> length q
          then Some (take (unat qlen) (obj_query obj) = take (unat qlen) q)
          else None
      | _ \<Rightarrow> None)"

definition bump_ref :: "PschQueryInternKey \<Rightarrow> PschQueryInternEntry \<Rightarrow> PschSharedState \<Rightarrow> PschSharedState"
  where
  "bump_ref key entry sh =
     sh\<lparr>intern_tab := (intern_tab sh)(key \<mapsto> entry\<lparr>entry_refcount := entry_refcount entry + 1\<rparr>)\<rparr>"

text \<open>
  First critical section: a hit or a collision is final (\<open>Some dp\<close>), a miss is \<open>None\<close>.
\<close>

definition intern_find ::
    "PschQueryInternKey \<Rightarrow> char list \<Rightarrow> u16 \<Rightarrow> PschSharedState \<Rightarrow>
       (PschSharedState \<times> dsa_pointer option) option" where
  "intern_find key q qlen sh =
     (case intern_tab sh key of
        None \<Rightarrow> Some (sh, None)
      | Some entry \<Rightarrow>
          (case ObjectMatches sh (entry_object entry) q qlen of
             None \<Rightarrow> None
           | Some True \<Rightarrow> Some (bump_ref key entry sh, Some (entry_object entry))
           | Some False \<Rightarrow> Some (sh, Some InvalidDsaPointer)))"

text \<open>Second critical section, after the allocation of \<open>new_dp\<close>.\<close>

definition intern_enter ::
    "pg_env \<Rightarrow> PschQueryInternKey \<Rightarrow> char list \<Rightarrow> u16 \<Rightarrow> dsa_pointer \<Rightarrow> PschSharedState \<Rightarrow>
       (PschSharedState \<times> dsa_pointer) option" where
  "intern_enter env key q qlen new_dp sh =
     (case intern_tab sh key of
        None \<Rightarrow>
          if htab_full env (intern_tab sh)
          then map_option (\<lambda>sh. (sh, InvalidDsaPointer)) (dsa_free new_dp sh)
          else Some (sh\<lparr>intern_tab := (intern_tab sh)
                 (key \<mapsto> \<lparr>entry_object = new_dp, entry_refcount = 1\<rparr>)\<rparr>, new_dp)
      | Some entry \<Rightarrow>
          (case ObjectMatches sh (entry_object entry) q qlen of
             None \<Rightarrow> None
           | Some True \<Rightarrow>
               map_option (\<lambda>sh. (sh, entry_object entry)) (dsa_free new_dp (bump_ref key entry sh))
           | Some False \<Rightarrow>
               map_option (\<lambda>sh. (sh, InvalidDsaPointer)) (dsa_free new_dp sh)))"

text \<open>Everything after \<^verbatim>\<open>PschDsaGetArea\<close> and \<^verbatim>\<open>MakeKey\<close>.\<close>

definition intern_acquire ::
    "pg_env \<Rightarrow> PschQueryInternKey \<Rightarrow> char list \<Rightarrow> u16 \<Rightarrow> PschSharedState \<Rightarrow>
       (PschSharedState \<times> dsa_pointer) option" where
  "intern_acquire env key q qlen sh =
     (case intern_find key q qlen sh of
        None \<Rightarrow> None
      | Some (sh, Some dp) \<Rightarrow> Some (sh, dp)
      | Some (sh, None) \<Rightarrow>
          (case AllocInternObject env key q qlen sh of
             None \<Rightarrow> None
           | Some (sh, new_dp) \<Rightarrow>
               if new_dp = InvalidDsaPointer then Some (sh, InvalidDsaPointer)
               else intern_enter env key q qlen new_dp sh))"

definition PschQueryInternAcquire ::
    "pg_env \<Rightarrow> Oid \<Rightarrow> u64 \<Rightarrow> char list \<Rightarrow> u16 \<Rightarrow> world \<Rightarrow> (world, dsa_pointer) pgres" where
  "PschQueryInternAcquire env db qid q qlen w =
     (if qlen = 0 \<or> \<not> psch_query_intern_htab (snd w) then pg_ret w InvalidDsaPointer
      else pg_bind (PschDsaGetArea env w) (\<lambda>(sh, p) dsa.
        if \<not> dsa then pg_ret (sh, p) InvalidDsaPointer
        else
          (case MakeKey env db qid q qlen of
             None \<Rightarrow> None
           | Some key \<Rightarrow>
               (case intern_acquire env key q qlen sh of
                  None \<Rightarrow> None
                | Some (sh, dp) \<Rightarrow> pg_ret (sh, p) dp))))"

text \<open>The locked part of \<^verbatim>\<open>ReleaseRef\<close> and the free that follows it.\<close>

definition intern_release :: "dsa_pointer \<Rightarrow> PschSharedState \<Rightarrow> PschSharedState option" where
  "intern_release ref sh =
     (case dsa_area sh ref of
        Some (InternBody obj) \<Rightarrow>
          if obj_magic obj \<noteq> PSCH_QUERY_INTERN_MAGIC then Some sh
          else
            (let key = CopyKeyFields (obj_key obj) in
             case intern_tab sh key of
               None \<Rightarrow> Some sh
             | Some entry \<Rightarrow>
                 if entry_object entry \<noteq> ref then Some sh
                 else
                   (let entry = entry\<lparr>entry_refcount := entry_refcount entry - 1\<rparr> in
                    if entry_refcount entry = 0
                    then dsa_free ref (sh\<lparr>intern_tab := (intern_tab sh)(key := None)\<rparr>)
                    else Some (sh\<lparr>intern_tab := (intern_tab sh)(key \<mapsto> entry)\<rparr>)))
      | _ \<Rightarrow> None)"

definition ReleaseRef :: "pg_env \<Rightarrow> dsa_pointer \<Rightarrow> world \<Rightarrow> (world, unit) pgres" where
  "ReleaseRef env ref w =
     (if ref = InvalidDsaPointer \<or> \<not> psch_query_intern_htab (snd w) then pg_ret w ()
      else pg_bind (PschDsaGetArea env w) (\<lambda>(sh, p) dsa.
        if \<not> dsa then pg_ret (sh, p) ()
        else
          (case intern_release ref sh of
             None \<Rightarrow> None
           | Some sh \<Rightarrow> pg_ret (sh, p) ())))"

text \<open>
  \<open>dst\<close> and \<open>out_len\<close> are \<^const>\<open>None\<close> for a NULL argument; the result is what they hold
  afterwards.
\<close>

definition ResolveInto ::
    "pg_env \<Rightarrow> dsa_pointer \<Rightarrow> char list option \<Rightarrow> u16 \<Rightarrow> u16 option \<Rightarrow> world \<Rightarrow>
       (world, char list option \<times> u16 option) pgres" where
  "ResolveInto env ref dst dst_size out_len w =
     (case (dst, out_len) of
        (Some buf, Some n) \<Rightarrow>
          if ref = InvalidDsaPointer \<or> dst_size = 0 then pg_ret w (dst, out_len)
          else pg_bind (PschDsaGetArea env w) (\<lambda>(sh, p) dsa.
            if \<not> dsa then pg_ret (sh, p) (dst, out_len)
            else
              (case dsa_area sh ref of
                 Some (InternBody obj) \<Rightarrow>
                   if obj_magic obj \<noteq> PSCH_QUERY_INTERN_MAGIC then pg_ret (sh, p) (dst, out_len)
                   else
                     (let copy_len = key_query_len (obj_key obj);
                          copy_len = (if dst_size \<le> copy_len then dst_size - 1 else copy_len)
                      in case memcpy buf (obj_query obj) (unat copy_len) of
                           None \<Rightarrow> None
                         | Some buf \<Rightarrow>
                             (case set_byte buf (unat copy_len) NUL of
                                None \<Rightarrow> None
                              | Some buf \<Rightarrow> pg_ret (sh, p) (Some buf, Some copy_len)))
               | _ \<Rightarrow> None))
      | _ \<Rightarrow> pg_ret w (dst, out_len))"

definition PschQueryInternResolveAndRelease ::
    "pg_env \<Rightarrow> dsa_pointer \<Rightarrow> char list option \<Rightarrow> u16 \<Rightarrow> u16 option \<Rightarrow> world \<Rightarrow>
       (world, char list option \<times> u16 option) pgres" where
  "PschQueryInternResolveAndRelease env ref dst dst_size out_len w =
     (let out_len = map_option (\<lambda>_. 0) out_len in
      case (case dst of
              Some buf \<Rightarrow> if 0 < dst_size then map_option Some (set_byte buf 0 NUL) else Some dst
            | None \<Rightarrow> Some None) of
        None \<Rightarrow> None
      | Some dst \<Rightarrow>
          pg_bind (ResolveInto env ref dst dst_size out_len w) (\<lambda>w out.
            pg_bind (ReleaseRef env ref w) (\<lambda>w _. pg_ret w out)))"

subsection \<open>Invariant\<close>

text \<open>
  \<open>R\<close> holds every outstanding reference once per holder, \<open>P\<close> the bodies that a producer has
  allocated and not yet entered in the table. Every table entry points at a body that
  carries its own key, and counts its references exactly; there is no other interned body.
\<close>

definition intern_obj :: "PschQueryInternKey \<Rightarrow> char list \<Rightarrow> PschQueryInternObject" where
  "intern_obj k t = \<lparr>obj_key = k, obj_magic = PSCH_QUERY_INTERN_MAGIC, obj_query = t @ [NUL]\<rparr>"

lemma intern_obj_simps [simp]:
  "obj_key (intern_obj k t) = k"
  "obj_magic (intern_obj k t) = PSCH_QUERY_INTERN_MAGIC"
  "obj_query (intern_obj k t) = t @ [NUL]"
  "intern_obj k t = intern_obj k' t' \<longleftrightarrow> k = k' \<and> t = t'"
  by (simp_all add: intern_obj_def)

lemma CopyKeyFields_id [simp]: "CopyKeyFields k = k"
  by (simp add: CopyKeyFields_def)

definition intern_body :: "PschSharedState \<Rightarrow> dsa_pointer \<Rightarrow> PschQueryInternKey \<Rightarrow> char list \<Rightarrow> bool" where
  "intern_body sh r k t \<longleftrightarrow>
     dsa_area sh r = Some (InternBody (intern_obj k t)) \<and> length t = unat (key_query_len k)"

definition intern_entry_ok ::
    "PschSharedState \<Rightarrow> dsa_pointer multiset \<Rightarrow> PschQueryInternKey \<Rightarrow> PschQueryInternEntry \<Rightarrow> bool" where
  "intern_entry_ok sh R k e \<longleftrightarrow>
     (\<exists>t. intern_body sh (entry_object e) k t) \<and>
     unat (entry_refcount e) = count R (entry_object e) \<and> entry_refcount e \<noteq> 0"

definition intern_inv ::
    "PschSharedState \<Rightarrow> dsa_pointer multiset \<Rightarrow> dsa_pointer set \<Rightarrow> bool" where
  "intern_inv sh R P \<longleftrightarrow>
     (\<forall>k e. intern_tab sh k = Some e \<longrightarrow> intern_entry_ok sh R k e \<and> entry_object e \<notin> P) \<and>
     (\<forall>r obj. dsa_area sh r = Some (InternBody obj) \<longrightarrow>
        r \<in> P \<or> (\<exists>e. intern_tab sh (obj_key obj) = Some e \<and> entry_object e = r)) \<and>
     (\<forall>r. r \<in># R \<longrightarrow> r \<notin> P \<and> (\<exists>k t. intern_body sh r k t)) \<and>
     (\<forall>r. r \<in> P \<longrightarrow> (\<exists>k t. intern_body sh r k t)) \<and>
     dsa_area sh InvalidDsaPointer = None \<and> size R < 2 ^ 32"

text \<open>The fields the interner and the string storage never touch.\<close>

definition queue_part :: "PschSharedState \<Rightarrow> PschSharedState" where
  "queue_part sh = sh\<lparr>dsa_oom_count := 0, dsa_area := Map.empty, dsa_refcnt := 0,
                      intern_tab := Map.empty\<rparr>"

lemma queue_part_update [simp]:
  "queue_part (sh\<lparr>dsa_area := a\<rparr>) = queue_part sh"
  "queue_part (sh\<lparr>intern_tab := tb\<rparr>) = queue_part sh"
  "queue_part (sh\<lparr>dsa_oom_count := n\<rparr>) = queue_part sh"
  "queue_part (sh\<lparr>dsa_refcnt := m\<rparr>) = queue_part sh"
  by (simp_all add: queue_part_def)

text \<open>
  What an interner operation leaves alone: the queue itself, the bodies of the references
  \<open>R\<close>, and every string that is not interned.
\<close>

definition intern_frame ::
    "dsa_pointer multiset \<Rightarrow> PschSharedState \<Rightarrow> PschSharedState \<Rightarrow> bool" where
  "intern_frame R sh sh' \<longleftrightarrow>
     queue_part sh' = queue_part sh \<and>
     (\<forall>r. r \<in># R \<longrightarrow> dsa_area sh' r = dsa_area sh r) \<and>
     (\<forall>r s. (dsa_area sh' r = Some (StrBody s)) = (dsa_area sh r = Some (StrBody s)))"

lemma intern_frame_refl [intro, simp]: "intern_frame R sh sh"
  by (simp add: intern_frame_def)

lemma intern_frame_trans:
  "intern_frame R sh sh' \<Longrightarrow> intern_frame R sh' sh'' \<Longrightarrow> intern_frame R sh sh''"
  by (simp add: intern_frame_def)

lemma intern_frame_mono: "intern_frame R sh sh' \<Longrightarrow> R' \<subseteq># R \<Longrightarrow> intern_frame R' sh sh'"
  by (auto simp: intern_frame_def dest: mset_subset_eqD)

lemma intern_frame_bodies:
  "intern_frame R sh sh' \<Longrightarrow> r \<in># R \<Longrightarrow> intern_body sh' r k t = intern_body sh r k t"
  by (simp add: intern_frame_def intern_body_def)

lemma intern_inv_cong:
  assumes "intern_inv sh R P" "dsa_area sh' = dsa_area sh" "intern_tab sh' = intern_tab sh"
  shows "intern_inv sh' R P"
  using assms by (simp add: intern_inv_def intern_entry_ok_def intern_body_def)

lemma intern_invD:
  assumes "intern_inv sh R P"
  shows "intern_tab sh k = Some e \<Longrightarrow> intern_entry_ok sh R k e"
    and "intern_tab sh k = Some e \<Longrightarrow> entry_object e \<notin> P"
    and "dsa_area sh r = Some (InternBody obj) \<Longrightarrow> r \<notin> P \<Longrightarrow>
           \<exists>e. intern_tab sh (obj_key obj) = Some e \<and> entry_object e = r"
    and "r \<in># R \<Longrightarrow> r \<notin> P" and "r \<in># R \<Longrightarrow> \<exists>k t. intern_body sh r k t"
    and "r \<in> P \<Longrightarrow> \<exists>k t. intern_body sh r k t"
    and "dsa_area sh InvalidDsaPointer = None" and "size R < 2 ^ 32"
  using assms unfolding intern_inv_def by blast+

lemma intern_invI:
  assumes "\<And>k e. intern_tab sh k = Some e \<Longrightarrow> intern_entry_ok sh R k e \<and> entry_object e \<notin> P"
    and "\<And>r obj. dsa_area sh r = Some (InternBody obj) \<Longrightarrow> r \<notin> P \<Longrightarrow>
           \<exists>e. intern_tab sh (obj_key obj) = Some e \<and> entry_object e = r"
    and "\<And>r. r \<in># R \<Longrightarrow> r \<notin> P \<and> (\<exists>k t. intern_body sh r k t)"
    and "\<And>r. r \<in> P \<Longrightarrow> \<exists>k t. intern_body sh r k t"
    and "dsa_area sh InvalidDsaPointer = None" and "size R < 2 ^ 32"
  shows "intern_inv sh R P"
  using assms unfolding intern_inv_def by blast

lemma intern_body_unique:
  "intern_body sh r k t \<Longrightarrow> intern_body sh r k' t' \<Longrightarrow> k = k' \<and> t = t'"
  by (simp add: intern_body_def)

lemma intern_body_nonzero: "intern_inv sh R P \<Longrightarrow> intern_body sh r k t \<Longrightarrow> r \<noteq> InvalidDsaPointer"
  using intern_invD(7) [of sh R P] by (auto simp: intern_body_def)

text \<open>A reference that is held is the object of the table entry of its key.\<close>

lemma intern_ref_entry:
  assumes inv: "intern_inv sh R P" and r: "r \<in># R"
  obtains k t e where "intern_body sh r k t" "intern_tab sh k = Some e" "entry_object e = r"
    "unat (entry_refcount e) = count R r"
proof -
  obtain k t where b: "intern_body sh r k t" using intern_invD(5) [OF inv r] by blast
  then obtain e where e: "intern_tab sh k = Some e" "entry_object e = r"
    using intern_invD(3) [OF inv, of r "intern_obj k t"] intern_invD(4) [OF inv r]
    by (auto simp: intern_body_def)
  with intern_invD(1) [OF inv e(1)] have "unat (entry_refcount e) = count R r"
    by (simp add: intern_entry_ok_def)
  with b e that show ?thesis by blast
qed

lemma intern_entry_unique:
  assumes "intern_inv sh R P" "intern_tab sh k = Some e" "intern_tab sh k' = Some e'"
    "entry_object e = entry_object e'"
  shows "k = k'"
  using intern_invD(1) [OF assms(1,2)] intern_invD(1) [OF assms(1,3)] assms(4)
  by (auto simp: intern_entry_ok_def dest: intern_body_unique)

subsection \<open>Every critical section preserves the invariant\<close>

lemma ObjectMatches_body:
  assumes "intern_body sh r k t" "key_query_len k = qlen" "unat qlen \<le> length q"
  shows "ObjectMatches sh r q qlen = Some (t = take (unat qlen) q)"
  using assms by (auto simp: ObjectMatches_def intern_body_def)

lemma bump_ref_sel [simp]:
  "dsa_area (bump_ref k e sh) = dsa_area sh"
  "queue_part (bump_ref k e sh) = queue_part sh"
  "intern_tab (bump_ref k e sh) =
     (intern_tab sh)(k \<mapsto> e\<lparr>entry_refcount := entry_refcount e + 1\<rparr>)"
  by (simp_all add: bump_ref_def)

lemma intern_entry_ok_other:
  assumes "intern_inv sh R P" "intern_tab sh k = Some e" "intern_tab sh k' = Some e'" "k' \<noteq> k"
  shows "entry_object e' \<noteq> entry_object e"
  using intern_entry_unique [OF assms(1-3)] assms(4) by auto

lemma bump_ref_inv:
  assumes inv: "intern_inv sh R P" and e: "intern_tab sh k = Some e" and sz: "Suc (size R) < 2 ^ 32"
  shows "intern_inv (bump_ref k e sh) (add_mset (entry_object e) R) P"
proof -
  let ?r = "entry_object e"
  have ok: "intern_entry_ok sh R k e" by (rule intern_invD(1) [OF inv e])
  then have "unat (entry_refcount e) \<le> size R"
    by (simp add: intern_entry_ok_def count_le_size)
  then have rc: "unat (entry_refcount e + 1) = Suc (unat (entry_refcount e))"
    using sz unat_add1_word [of "entry_refcount e"] by simp
  then have nz: "entry_refcount e + 1 \<noteq> 0" by force
  have body: "intern_body (bump_ref k e sh) = intern_body sh"
    by (intro ext) (simp add: intern_body_def)
  show ?thesis
  proof (rule intern_invI)
    fix k' e'
    assume that: "intern_tab (bump_ref k e sh) k' = Some e'"
    show "intern_entry_ok (bump_ref k e sh) (add_mset ?r R) k' e' \<and> entry_object e' \<notin> P"
    proof (cases "k' = k")
      case True
      with that have "e' = e\<lparr>entry_refcount := entry_refcount e + 1\<rparr>" by simp
      with True ok rc nz show ?thesis
        using intern_invD(2) [OF inv e] by (simp add: intern_entry_ok_def body)
    next
      case False
      with that have e': "intern_tab sh k' = Some e'" by simp
      with intern_entry_ok_other [OF inv e e' False] intern_invD(1,2) [OF inv e'] show ?thesis
        by (simp add: intern_entry_ok_def body)
    qed
  next
    fix r obj
    assume "dsa_area (bump_ref k e sh) r = Some (InternBody obj)" "r \<notin> P"
    then show "\<exists>e'. intern_tab (bump_ref k e sh) (obj_key obj) = Some e' \<and> entry_object e' = r"
      using intern_invD(3) [OF inv, of r obj] e by auto
  next
    fix r
    assume "r \<in># add_mset ?r R"
    then show "r \<notin> P \<and> (\<exists>k' t. intern_body (bump_ref k e sh) r k' t)"
      using ok intern_invD(2) [OF inv e] intern_invD(4,5) [OF inv, of r]
      by (auto simp: body intern_entry_ok_def)
  next
    fix r
    assume "r \<in> P"
    then show "\<exists>k' t. intern_body (bump_ref k e sh) r k' t"
      using intern_invD(6) [OF inv, of r] by (simp add: body)
  qed (use sz intern_invD(7) [OF inv] in simp_all)
qed

lemma intern_free_private:
  assumes inv: "intern_inv sh R P" and r: "r \<in> P"
  obtains sh' where "dsa_free r sh = Some sh'" "intern_inv sh' R (P - {r})" "intern_frame R sh sh'"
    "intern_tab sh' = intern_tab sh"
proof
  obtain k t where b: "intern_body sh r k t" using intern_invD(6) [OF inv r] by blast
  let ?sh = "sh\<lparr>dsa_area := (dsa_area sh)(r := None)\<rparr>"
  show "dsa_free r sh = Some ?sh" using b by (simp add: dsa_free_def intern_body_def)
  have other: "intern_body ?sh r' k' t' = intern_body sh r' k' t'" if "r' \<noteq> r" for r' k' t'
    using that by (simp add: intern_body_def)
  have obj: "entry_object e \<noteq> r" if "intern_tab sh k' = Some e" for k' e
    using intern_invD(2) [OF inv that] r by auto
  have ref: "r' \<noteq> r" if "r' \<in># R" for r' using intern_invD(4) [OF inv that] r by auto
  show "intern_frame R sh ?sh"
    using b ref by (auto simp: intern_frame_def intern_body_def)
  show "intern_inv ?sh R (P - {r})"
  proof (rule intern_invI)
    fix k' e
    assume e: "intern_tab ?sh k' = Some e"
    then show "intern_entry_ok ?sh R k' e \<and> entry_object e \<notin> P - {r}"
      using intern_invD(1,2) [OF inv, of k' e] obj [of k' e]
      by (auto simp: intern_entry_ok_def other)
  next
    fix r' o'
    assume "dsa_area ?sh r' = Some (InternBody o')" "r' \<notin> P - {r}"
    then show "\<exists>e. intern_tab ?sh (obj_key o') = Some e \<and> entry_object e = r'"
      using intern_invD(3) [OF inv, of r' o'] by (auto split: if_splits)
  next
    fix r'
    assume "r' \<in># R"
    then show "r' \<notin> P - {r} \<and> (\<exists>k t. intern_body ?sh r' k t)"
      using intern_invD(4,5) [OF inv, of r'] ref [of r'] by (auto simp: other)
  next
    fix r'
    assume "r' \<in> P - {r}"
    then show "\<exists>k t. intern_body ?sh r' k t"
      using intern_invD(6) [OF inv, of r'] by (auto simp: other)
  qed (use intern_invD(7,8) [OF inv] in simp_all)
qed simp

lemma AllocInternObject_inv:
  assumes inv: "intern_inv sh R P" and fresh: "dsa_allocate_fresh env"
    and k: "key_query_len k = qlen" and len: "unat qlen \<le> length q"
    and a: "AllocInternObject env k q qlen sh = Some (sh', dp)" and dp: "dp \<noteq> InvalidDsaPointer"
  shows "intern_inv sh' R (insert dp P)" and "dp \<notin> P" and "intern_body sh' dp k (take (unat qlen) q)"
    and "intern_frame R sh sh'" and "intern_tab sh' = intern_tab sh"
proof -
  have new: "dsa_area sh dp = None"
    and sh': "sh' = sh\<lparr>dsa_area := (dsa_area sh)(dp \<mapsto> InternBody (intern_obj k (take (unat qlen) q)))\<rparr>"
    using a dp fresh len
    by (auto simp: AllocInternObject_eq Let_def dsa_allocate_fresh_def intern_obj_def split: if_splits)
  have other: "intern_body sh' r' k' t'" "r' \<noteq> dp" if "intern_body sh r' k' t'" for r' k' t'
    using that new sh' by (auto simp: intern_body_def)
  show b: "intern_body sh' dp k (take (unat qlen) q)"
    using k len sh' by (auto simp: intern_body_def)
  show "dp \<notin> P" using intern_invD(6) [OF inv, of dp] new by (auto simp: intern_body_def)
  show "intern_tab sh' = intern_tab sh" using sh' by simp
  show "intern_inv sh' R (insert dp P)"
  proof (rule intern_invI)
    fix k' e
    assume "intern_tab sh' k' = Some e"
    then have e: "intern_tab sh k' = Some e" using sh' by simp
    then show "intern_entry_ok sh' R k' e \<and> entry_object e \<notin> insert dp P"
      using intern_invD(1,2) [OF inv e] other [of "entry_object e" k']
      by (auto simp: intern_entry_ok_def)
  next
    fix r obj
    assume "dsa_area sh' r = Some (InternBody obj)" "r \<notin> insert dp P"
    then show "\<exists>e. intern_tab sh' (obj_key obj) = Some e \<and> entry_object e = r"
      using intern_invD(3) [OF inv, of r obj] sh' by auto
  next
    fix r
    assume "r \<in># R"
    then show "r \<notin> insert dp P \<and> (\<exists>k t. intern_body sh' r k t)"
      using intern_invD(4,5) [OF inv, of r] other [of r] by blast
  next
    fix r
    assume "r \<in> insert dp P"
    then show "\<exists>k t. intern_body sh' r k t"
      using intern_invD(6) [OF inv, of r] other [of r] b by blast
  qed (use intern_invD(7,8) [OF inv] sh' dp in auto)
  show "intern_frame R sh sh'"
    using sh' new intern_invD(5) [OF inv, of dp] by (auto simp: intern_frame_def intern_body_def)
qed

lemma intern_new_entry_inv:
  assumes inv: "intern_inv sh R P" and r: "r \<in> P" and b: "intern_body sh r k t"
    and k: "intern_tab sh k = None" and sz: "Suc (size R) < 2 ^ 32"
  shows "intern_inv (sh\<lparr>intern_tab := (intern_tab sh)(k \<mapsto> \<lparr>entry_object = r, entry_refcount = 1\<rparr>)\<rparr>)
           (add_mset r R) (P - {r})"
proof -
  let ?sh = "sh\<lparr>intern_tab := (intern_tab sh)(k \<mapsto> \<lparr>entry_object = r, entry_refcount = 1\<rparr>)\<rparr>"
  have body: "intern_body ?sh = intern_body sh" by (intro ext) (simp add: intern_body_def)
  have "r \<notin># R" using intern_invD(4) [OF inv] r by blast
  then have cnt: "count R r = 0" by (simp add: not_in_iff)
  have obj: "entry_object e \<noteq> r" if "intern_tab sh k' = Some e" for k' e
    using intern_invD(2) [OF inv that] r by auto
  show ?thesis
  proof (rule intern_invI)
    fix k' e'
    assume that: "intern_tab ?sh k' = Some e'"
    show "intern_entry_ok ?sh (add_mset r R) k' e' \<and> entry_object e' \<notin> P - {r}"
    proof (cases "k' = k")
      case True
      with that b cnt show ?thesis by (auto simp: intern_entry_ok_def body)
    next
      case False
      with that have e': "intern_tab sh k' = Some e'" by simp
      with obj [OF e'] intern_invD(1,2) [OF inv e'] show ?thesis
        by (simp add: intern_entry_ok_def body)
    qed
  next
    fix r' obj
    assume "dsa_area ?sh r' = Some (InternBody obj)" "r' \<notin> P - {r}"
    then show "\<exists>e'. intern_tab ?sh (obj_key obj) = Some e' \<and> entry_object e' = r'"
      using b k intern_invD(3) [OF inv, of r' obj]
      by (cases "r' = r") (auto simp: intern_body_def)
  next
    fix r'
    assume "r' \<in># add_mset r R"
    then show "r' \<notin> P - {r} \<and> (\<exists>k t. intern_body ?sh r' k t)"
      using b intern_invD(4,5) [OF inv, of r'] by (auto simp: body)
  next
    fix r'
    assume "r' \<in> P - {r}"
    then show "\<exists>k t. intern_body ?sh r' k t"
      using intern_invD(6) [OF inv, of r'] by (auto simp: body)
  qed (use intern_invD(7) [OF inv] sz in simp_all)
qed

text \<open>
  The outcome of the whole acquire: either no reference was taken, or the returned
  reference is added to \<open>R\<close> and denotes exactly the text that was passed in.
\<close>

definition acquired ::
    "PschQueryInternKey \<Rightarrow> char list \<Rightarrow> dsa_pointer multiset \<Rightarrow> dsa_pointer set \<Rightarrow>
       PschSharedState \<Rightarrow> PschSharedState \<Rightarrow> dsa_pointer \<Rightarrow> bool" where
  "acquired k t R P sh sh' r \<longleftrightarrow>
     intern_frame R sh sh' \<and>
     (if r = InvalidDsaPointer then intern_inv sh' R P
      else intern_inv sh' (add_mset r R) P \<and> intern_body sh' r k t)"

lemma acquired_bump:
  assumes inv: "intern_inv sh R P" and e: "intern_tab sh k = Some e" and sz: "Suc (size R) < 2 ^ 32"
    and b: "intern_body sh (entry_object e) k t"
  shows "acquired k t R P sh (bump_ref k e sh) (entry_object e)"
  using bump_ref_inv [OF inv e sz] b intern_body_nonzero [OF inv b]
  by (auto simp: acquired_def intern_frame_def intern_body_def)

lemma acquired_frame:
  "intern_frame R sh sh' \<Longrightarrow> acquired k t R P sh' sh'' r \<Longrightarrow> acquired k t R P sh sh'' r"
  by (simp add: acquired_def intern_frame_def)

lemma intern_find_spec:
  assumes inv: "intern_inv sh R P" and sz: "Suc (size R) < 2 ^ 32"
    and k: "key_query_len k = qlen" and len: "unat qlen \<le> length q"
  shows "(intern_tab sh k = None \<and> intern_find k q qlen sh = Some (sh, None)) \<or>
         (\<exists>sh' r. intern_find k q qlen sh = Some (sh', Some r) \<and>
            acquired k (take (unat qlen) q) R P sh sh' r)"
proof (cases "intern_tab sh k")
  case None
  then show ?thesis by (simp add: intern_find_def)
next
  case (Some e)
  obtain t where b: "intern_body sh (entry_object e) k t"
    using intern_invD(1) [OF inv Some] by (auto simp: intern_entry_ok_def)
  show ?thesis
  proof (cases "t = take (unat qlen) q")
    case True
    with Some acquired_bump [OF inv Some sz b] ObjectMatches_body [OF b k len] show ?thesis
      by (simp add: intern_find_def)
  next
    case False
    with Some inv ObjectMatches_body [OF b k len] show ?thesis
      by (simp add: intern_find_def acquired_def)
  qed
qed

lemma intern_enter_spec:
  assumes inv: "intern_inv sh R P" and sz: "Suc (size R) < 2 ^ 32" and new: "new \<in> P"
    and b: "intern_body sh new k (take (unat qlen) q)"
    and k: "key_query_len k = qlen" and len: "unat qlen \<le> length q"
  shows "\<exists>sh' r. intern_enter env k q qlen new sh = Some (sh', r) \<and>
           acquired k (take (unat qlen) q) R (P - {new}) sh sh' r"
proof (cases "intern_tab sh k")
  case None
  obtain sh' where f: "dsa_free new sh = Some sh'" "intern_inv sh' R (P - {new})"
      "intern_frame R sh sh'"
    by (rule intern_free_private [OF inv new])
  show ?thesis
  proof (cases "htab_full env (intern_tab sh)")
    case True
    with None f show ?thesis by (simp add: intern_enter_def acquired_def)
  next
    case False
    with None b intern_new_entry_inv [OF inv new b None sz] intern_body_nonzero [OF inv b]
    show ?thesis
      by (simp add: intern_enter_def acquired_def intern_frame_def intern_body_def)
  qed
next
  case (Some e)
  obtain t where bt: "intern_body sh (entry_object e) k t"
    using intern_invD(1) [OF inv Some] by (auto simp: intern_entry_ok_def)
  let ?bump = "bump_ref k e sh"
  have m: "ObjectMatches sh (entry_object e) q qlen = Some (t = take (unat qlen) q)"
    by (rule ObjectMatches_body [OF bt k len])
  show ?thesis
  proof (cases "t = take (unat qlen) q")
    case True
    have acq: "acquired k (take (unat qlen) q) R P sh ?bump (entry_object e)"
      using acquired_bump [OF inv Some sz bt] True by simp
    then have binv: "intern_inv ?bump (add_mset (entry_object e) R) P"
      using intern_body_nonzero [OF inv bt] by (simp add: acquired_def)
    obtain sh' where f: "dsa_free new ?bump = Some sh'"
        "intern_inv sh' (add_mset (entry_object e) R) (P - {new})"
        "intern_frame (add_mset (entry_object e) R) ?bump sh'"
      by (rule intern_free_private [OF binv new])
    have fr: "intern_frame R sh sh'"
      using f(3) by (auto simp: intern_frame_def)
    have "intern_body sh' (entry_object e) k t"
      using bt f(3) by (auto simp: intern_frame_def intern_body_def)
    with Some m True f fr intern_body_nonzero [OF inv bt] show ?thesis
      by (simp add: intern_enter_def acquired_def)
  next
    case False
    with Some m show ?thesis
      by (rule_tac intern_free_private [OF inv new]) (simp add: intern_enter_def acquired_def)
  qed
qed

lemma intern_acquire_spec:
  assumes inv: "intern_inv sh R P" and sz: "Suc (size R) < 2 ^ 32" and fresh: "dsa_allocate_fresh env"
    and k: "key_query_len k = qlen" and len: "unat qlen \<le> length q"
  shows "\<exists>sh' r. intern_acquire env k q qlen sh = Some (sh', r) \<and>
           acquired k (take (unat qlen) q) R P sh sh' r"
  using intern_find_spec [OF inv sz k len]
proof (elim disjE exE conjE)
  fix sh' r
  assume "intern_find k q qlen sh = Some (sh', Some r)"
    "acquired k (take (unat qlen) q) R P sh sh' r"
  then show ?thesis by (simp add: intern_acquire_def)
next
  assume miss: "intern_find k q qlen sh = Some (sh, None)"
  obtain sh1 new where a: "AllocInternObject env k q qlen sh = Some (sh1, new)"
    using len by (cases "AllocInternObject env k q qlen sh")
      (auto simp: AllocInternObject_eq Let_def split: if_splits)
  show ?thesis
  proof (cases "new = InvalidDsaPointer")
    case True
    with a len have "sh1 = sh\<lparr>dsa_oom_count := dsa_oom_count sh + 1\<rparr>"
      by (auto simp: AllocInternObject_eq Let_def split: if_splits)
    with a miss True inv show ?thesis
      by (auto simp: intern_acquire_def acquired_def intern_frame_def intro: intern_inv_cong)
  next
    case False
    note alloc = AllocInternObject_inv [OF inv fresh k len a False]
    obtain sh' r where e: "intern_enter env k q qlen new sh1 = Some (sh', r)"
        "acquired k (take (unat qlen) q) R (insert new P - {new}) sh1 sh' r"
      using intern_enter_spec [OF alloc(1) sz _ alloc(3) k len, of env] by auto
    moreover have "insert new P - {new} = P" using alloc(2) by simp
    ultimately show ?thesis
      using a miss False acquired_frame [OF alloc(4)] by (simp add: intern_acquire_def)
  qed
qed

lemma intern_release_spec:
  assumes inv: "intern_inv sh (add_mset r R) P"
  shows "\<exists>sh'. intern_release r sh = Some sh' \<and> intern_inv sh' R P \<and> intern_frame R sh sh' \<and>
           (r \<notin># R \<longrightarrow> dsa_area sh' r = None)"
proof -
  obtain k t e where b: "intern_body sh r k t" and e: "intern_tab sh k = Some e"
    and er: "entry_object e = r" and cnt: "unat (entry_refcount e) = Suc (count R r)"
    by (rule intern_ref_entry [OF inv, of r]) simp_all
  have area: "dsa_area sh r = Some (InternBody (intern_obj k t))"
    using b by (simp add: intern_body_def)
  let ?e = "e\<lparr>entry_refcount := entry_refcount e - 1\<rparr>"
  have nz: "entry_refcount e \<noteq> 0" using cnt by force
  have rc: "unat (entry_refcount e - 1) = count R r"
    using unat_sub1_word [OF nz] cnt by simp
  then have zero: "entry_refcount e - 1 = 0 \<longleftrightarrow> r \<notin># R"
    by (metis not_in_iff unat_eq_zero)
  have rP: "r \<notin> P" using intern_invD(4) [OF inv, of r] by simp
  have sz: "size R < 2 ^ 32" using intern_invD(8) [OF inv] by simp
  show ?thesis
  proof (cases "r \<in># R")
    case True
    let ?sh = "sh\<lparr>intern_tab := (intern_tab sh)(k \<mapsto> ?e)\<rparr>"
    have body: "intern_body ?sh = intern_body sh" by (intro ext) (simp add: intern_body_def)
    have "intern_inv ?sh R P"
    proof (rule intern_invI)
      fix k' e'
      assume "intern_tab ?sh k' = Some e'"
      then show "intern_entry_ok ?sh R k' e' \<and> entry_object e' \<notin> P"
        using b rc zero True er rP intern_invD(1,2) [OF inv, of k' e']
          intern_entry_ok_other [OF inv e, of k' e']
        by (cases "k' = k") (auto simp: intern_entry_ok_def body)
    next
      fix r' obj
      assume "dsa_area ?sh r' = Some (InternBody obj)" "r' \<notin> P"
      then show "\<exists>e'. intern_tab ?sh (obj_key obj) = Some e' \<and> entry_object e' = r'"
        using intern_invD(3) [OF inv, of r' obj] e by auto
    next
      fix r'
      assume "r' \<in># R"
      then show "r' \<notin> P \<and> (\<exists>k t. intern_body ?sh r' k t)"
        using intern_invD(4,5) [OF inv, of r'] by (simp add: body)
    next
      fix r'
      assume "r' \<in> P"
      then show "\<exists>k t. intern_body ?sh r' k t"
        using intern_invD(6) [OF inv, of r'] by (simp add: body)
    qed (use sz intern_invD(7) [OF inv] in simp_all)
    moreover have "intern_release r sh = Some ?sh"
      using area e er zero True by (simp add: intern_release_def Let_def)
    ultimately show ?thesis using True by (simp add: intern_frame_def)
  next
    case False
    let ?sh = "sh\<lparr>intern_tab := (intern_tab sh)(k := None), dsa_area := (dsa_area sh)(r := None)\<rparr>"
    have other: "intern_body ?sh r' k' t' = intern_body sh r' k' t'" if "r' \<noteq> r" for r' k' t'
      using that by (simp add: intern_body_def)
    have "intern_inv ?sh R P"
    proof (rule intern_invI)
      fix k' e'
      assume "intern_tab ?sh k' = Some e'"
      then have e': "intern_tab sh k' = Some e'" "k' \<noteq> k" by (simp_all split: if_splits)
      then show "intern_entry_ok ?sh R k' e' \<and> entry_object e' \<notin> P"
        using er intern_invD(1,2) [OF inv e'(1)] intern_entry_ok_other [OF inv e e']
        by (simp add: intern_entry_ok_def other)
    next
      fix r' obj
      assume a: "dsa_area ?sh r' = Some (InternBody obj)" "r' \<notin> P"
      then show "\<exists>e'. intern_tab ?sh (obj_key obj) = Some e' \<and> entry_object e' = r'"
        using intern_invD(3) [OF inv, of r' obj] e er by (auto split: if_splits)
    next
      fix r'
      assume "r' \<in># R"
      then show "r' \<notin> P \<and> (\<exists>k t. intern_body ?sh r' k t)"
        using False intern_invD(4,5) [OF inv, of r'] by (cases "r' = r") (auto simp: other)
    next
      fix r'
      assume "r' \<in> P"
      then show "\<exists>k t. intern_body ?sh r' k t"
        using rP intern_invD(6) [OF inv, of r'] by (cases "r' = r") (auto simp: other)
    qed (use sz intern_invD(7) [OF inv] in simp_all)
    moreover have "intern_release r sh = Some ?sh"
      using area e er zero False by (simp add: intern_release_def dsa_free_def Let_def)
    ultimately show ?thesis
      using area False by (auto simp: intern_frame_def queue_part_def)
  qed
qed

text \<open>
  The only reasons for an acquire to come back empty-handed: the key is new and the area
  cannot serve the object of this text, or the hash table is full; or another text is stored
  under the same key.
\<close>

definition dsa_exhausted :: "pg_env \<Rightarrow> dsa_heap \<Rightarrow> nat \<Rightarrow> bool" where
  "dsa_exhausted env h n \<longleftrightarrow> dsa_allocate env h n = InvalidDsaPointer"

definition key_collision :: "PschSharedState \<Rightarrow> PschQueryInternKey \<Rightarrow> char list \<Rightarrow> bool" where
  "key_collision sh k t \<longleftrightarrow> (\<exists>r t'. intern_body sh r k t' \<and> t' \<noteq> t)"

definition intern_refused :: "pg_env \<Rightarrow> PschSharedState \<Rightarrow> PschQueryInternKey \<Rightarrow> char list \<Rightarrow> bool" where
  "intern_refused env sh k t \<longleftrightarrow>
     intern_tab sh k = None \<and>
       (dsa_exhausted env (dsa_area sh) (offsetof_query + length t + 1) \<or> htab_full env (intern_tab sh)) \<or>
     key_collision sh k t"

lemma intern_acquire_nil:
  assumes inv: "intern_inv sh R P" and k: "key_query_len k = qlen" and len: "unat qlen \<le> length q"
    and a: "intern_acquire env k q qlen sh = Some (sh', InvalidDsaPointer)"
  shows "intern_refused env sh k (take (unat qlen) q)"
proof (cases "intern_tab sh k")
  case (Some e)
  then obtain t where b: "intern_body sh (entry_object e) k t"
    using intern_invD(1) [OF inv Some] by (auto simp: intern_entry_ok_def)
  show ?thesis
  proof (cases "t = take (unat qlen) q")
    case True
    with a Some ObjectMatches_body [OF b k len] intern_body_nonzero [OF inv b] show ?thesis
      by (simp add: intern_acquire_def intern_find_def)
  next
    case False
    with b show ?thesis by (auto simp: intern_refused_def key_collision_def)
  qed
next
  case None
  with a len show ?thesis
    by (auto simp: intern_acquire_def intern_find_def AllocInternObject_eq intern_enter_def
        Let_def intern_refused_def dsa_exhausted_def split: if_splits)
qed

text \<open>The table never holds more entries than there are references.\<close>

lemma intern_tab_card:
  assumes inv: "intern_inv sh R P"
  shows "finite (dom (intern_tab sh))" and "card (dom (intern_tab sh)) \<le> size R"
proof -
  let ?f = "\<lambda>k. entry_object (the (intern_tab sh k))"
  have inj: "inj_on ?f (dom (intern_tab sh))"
    using intern_entry_unique [OF inv] by (auto simp: inj_on_def)
  have "?f k \<in># R" if "k \<in> dom (intern_tab sh)" for k
  proof -
    from that obtain e where e: "intern_tab sh k = Some e" by auto
    then have ok: "intern_entry_ok sh R k e" by (rule intern_invD(1) [OF inv])
    then have "0 < unat (entry_refcount e)"
      using unat_eq_zero [of "entry_refcount e"] by (auto simp: intern_entry_ok_def)
    with ok e show ?thesis by (simp add: intern_entry_ok_def)
  qed
  then have sub: "?f ` dom (intern_tab sh) \<subseteq> set_mset R" by auto
  then show fin: "finite (dom (intern_tab sh))"
    using inj finite_imageD [OF finite_subset [OF sub]] by auto
  have "card (dom (intern_tab sh)) = card (?f ` dom (intern_tab sh))"
    by (simp add: card_image [OF inj])
  also have "\<dots> \<le> card (set_mset R)" using sub by (intro card_mono) auto
  also have "\<dots> \<le> size R"
    by (rule card_set_mset_size)
  finally show "card (dom (intern_tab sh)) \<le> size R" .
qed

subsection \<open>The contract of the interner\<close>

text \<open>
  A client that takes references and gives them back sees a store in which every reference
  carries its own copy of its text. \<open>nil\<close> is the reference that stands for no text.
\<close>

locale refcounted_interner =
  fixes inv :: "'s \<Rightarrow> 'r multiset \<Rightarrow> bool"
    and acquire :: "'t \<Rightarrow> 's \<Rightarrow> ('s \<times> 'r) option"
    and release :: "'r \<Rightarrow> 's \<Rightarrow> 's option"
    and text_of :: "'s \<Rightarrow> 'r \<Rightarrow> 't option"
    and nil :: 'r
    and valid :: "'t \<Rightarrow> bool"
    and limit :: nat
  assumes acquire_ok:
    "inv s R \<Longrightarrow> size R < limit \<Longrightarrow> valid t \<Longrightarrow>
       \<exists>s' r. acquire t s = Some (s', r) \<and> (\<forall>x. x \<in># R \<longrightarrow> text_of s' x = text_of s x) \<and>
         (if r = nil then inv s' R else inv s' (add_mset r R) \<and> text_of s' r = Some t)"
    and release_ok:
    "inv s (add_mset r R) \<Longrightarrow>
       \<exists>s'. release r s = Some s' \<and> inv s' R \<and> (\<forall>x. x \<in># R \<longrightarrow> text_of s' x = text_of s x)"
begin

fun acquire_all :: "'t list \<Rightarrow> 's \<Rightarrow> ('s \<times> 'r list) option" where
  "acquire_all [] s = Some (s, [])"
| "acquire_all (t # ts) s =
     (case acquire t s of
        None \<Rightarrow> None
      | Some (s, r) \<Rightarrow> map_option (\<lambda>(s, rs). (s, r # rs)) (acquire_all ts s))"

fun release_all :: "'r list \<Rightarrow> 's \<Rightarrow> ('s \<times> 't option list) option" where
  "release_all [] s = Some (s, [])"
| "release_all (r # rs) s =
     (if r = nil then map_option (\<lambda>(s, ts). (s, None # ts)) (release_all rs s)
      else
        (case release r s of
           None \<Rightarrow> None
         | Some s' \<Rightarrow> map_option (\<lambda>(s'', ts). (s'', text_of s r # ts)) (release_all rs s')))"

abbreviation refs_of :: "'r list \<Rightarrow> 'r multiset" where
  "refs_of rs \<equiv> mset (filter (\<lambda>r. r \<noteq> nil) rs)"

definition carries :: "'s \<Rightarrow> 't list \<Rightarrow> 'r list \<Rightarrow> bool" where
  "carries s ts rs \<longleftrightarrow> list_all2 (\<lambda>t r. r \<noteq> nil \<longrightarrow> text_of s r = Some t) ts rs"

lemma carries_frame:
  assumes "carries s ts rs" "\<And>x. x \<in># refs_of rs \<Longrightarrow> text_of s' x = text_of s x"
  shows "carries s' ts rs"
  using assms unfolding carries_def
  by (auto simp: list_all2_conv_all_nth)

lemma acquire_all_spec:
  "inv s R \<Longrightarrow> size R + length ts \<le> limit \<Longrightarrow> list_all valid ts \<Longrightarrow>
     \<exists>s' rs. acquire_all ts s = Some (s', rs) \<and> inv s' (refs_of rs + R) \<and> carries s' ts rs \<and>
       (\<forall>x. x \<in># R \<longrightarrow> text_of s' x = text_of s x)"
proof (induction ts arbitrary: s R)
  case Nil
  then show ?case by (simp add: carries_def)
next
  case (Cons t ts)
  then obtain s1 r where a: "acquire t s = Some (s1, r)"
      "\<And>x. x \<in># R \<Longrightarrow> text_of s1 x = text_of s x"
      "if r = nil then inv s1 R else inv s1 (add_mset r R) \<and> text_of s1 r = Some t"
    using acquire_ok [of s R t] by auto
  let ?R = "if r = nil then R else add_mset r R"
  have "inv s1 ?R" using a(3) by (simp split: if_splits)
  moreover have "size ?R + length ts \<le> limit" using Cons.prems(2) by simp
  moreover have "list_all valid ts" using Cons.prems(3) by simp
  ultimately obtain s2 rs where r: "acquire_all ts s1 = Some (s2, rs)" "inv s2 (refs_of rs + ?R)"
      "carries s2 ts rs" "\<And>x. x \<in># ?R \<Longrightarrow> text_of s2 x = text_of s1 x"
    using Cons.IH [of s1 ?R] by blast
  have "r \<noteq> nil \<longrightarrow> text_of s2 r = Some t" using a(3) r(4) by auto
  then have "carries s2 (t # ts) (r # rs)" using r(3) by (simp add: carries_def)
  moreover have "inv s2 (refs_of (r # rs) + R)" using r(2) by (cases "r = nil") simp_all
  moreover have "text_of s2 x = text_of s x" if "x \<in># R" for x
    using a(2) [OF that] r(4) [of x] that by (simp split: if_splits)
  ultimately show ?case using a(1) r(1) by (auto split: if_splits)
qed

lemma release_all_spec:
  "inv s (refs_of rs + R) \<Longrightarrow> carries s ts rs \<Longrightarrow>
     \<exists>s' os. release_all rs s = Some (s', os) \<and> inv s' R \<and>
       os = map2 (\<lambda>t r. if r = nil then None else Some t) ts rs"
proof (induction rs arbitrary: s ts)
  case Nil
  then show ?case by (simp add: carries_def)
next
  case (Cons r rs)
  from Cons.prems(2) obtain t us where ts: "ts = t # us"
      and t: "r \<noteq> nil \<longrightarrow> text_of s r = Some t" and us: "carries s us rs"
    by (auto simp: carries_def list_all2_Cons2)
  show ?case
  proof (cases "r = nil")
    case True
    with Cons.IH [of s us] Cons.prems(1) us ts show ?thesis by auto
  next
    case False
    then have "inv s (add_mset r (refs_of rs + R))" using Cons.prems(1) by simp
    then obtain s1 where s1: "release r s = Some s1" "inv s1 (refs_of rs + R)"
        "\<And>x. x \<in># refs_of rs + R \<Longrightarrow> text_of s1 x = text_of s x"
      using release_ok by blast
    have "carries s1 us rs" using us s1(3) by (intro carries_frame [OF us]) simp
    with Cons.IH [of s1 us] s1(2) obtain s2 where
        "release_all rs s1 = Some (s2, map2 (\<lambda>t r. if r = nil then None else Some t) us rs)"
        "inv s2 R" by blast
    with False s1(1) t ts show ?thesis by simp
  qed
qed

lemma acquire_release_all:
  assumes "inv s R" "size R + length ts \<le> limit" "list_all valid ts"
  shows "\<exists>s' rs s''. acquire_all ts s = Some (s', rs) \<and>
           release_all rs s' = Some (s'', map2 (\<lambda>t r. if r = nil then None else Some t) ts rs) \<and>
           inv s'' R"
  using acquire_all_spec [OF assms] release_all_spec by blast

end

text \<open>The provider: the operations of \<^verbatim>\<open>query_intern.c\<close> for a process that has the area open.\<close>

type_synonym intern_state = "pg_env \<times> PschSharedState"

definition store_inv :: "intern_state \<Rightarrow> dsa_pointer multiset \<Rightarrow> bool" where
  "store_inv s R = (dsa_allocate_fresh (fst s) \<and> intern_inv (snd s) R {})"

definition store_acquire ::
    "PschQueryInternKey \<times> char list \<Rightarrow> intern_state \<Rightarrow> (intern_state \<times> dsa_pointer) option" where
  "store_acquire kt s =
     map_option (\<lambda>(sh, r). ((fst s, sh), r))
       (intern_acquire (fst s) (fst kt) (snd kt) (key_query_len (fst kt)) (snd s))"

definition store_release :: "dsa_pointer \<Rightarrow> intern_state \<Rightarrow> intern_state option" where
  "store_release r s = map_option (Pair (fst s)) (intern_release r (snd s))"

definition store_text :: "intern_state \<Rightarrow> dsa_pointer \<Rightarrow> (PschQueryInternKey \<times> char list) option" where
  "store_text s r =
     (case dsa_area (snd s) r of
        Some (InternBody obj) \<Rightarrow> Some (obj_key obj, butlast (obj_query obj))
      | _ \<Rightarrow> None)"

lemma store_text_body: "intern_body (snd s) r k t \<Longrightarrow> store_text s r = Some (k, t)"
  by (simp add: store_text_def intern_body_def)

lemma store_text_frame:
  "intern_frame R sh sh' \<Longrightarrow> x \<in># R \<Longrightarrow> store_text (env, sh') x = store_text (env', sh) x"
  by (simp add: store_text_def intern_frame_def)

interpretation store: refcounted_interner store_inv store_acquire store_release store_text
  InvalidDsaPointer "\<lambda>kt. length (snd kt) = unat (key_query_len (fst kt))" "2 ^ 32 - 1"
proof
  fix s :: intern_state and R :: "dsa_pointer multiset" and kt :: "PschQueryInternKey \<times> char list"
  assume inv: "store_inv s R" and sz: "size R < 2 ^ 32 - 1"
    and v: "length (snd kt) = unat (key_query_len (fst kt))"
  obtain env sh k t where [simp]: "s = (env, sh)" "kt = (k, t)" by (cases s; cases kt)
  have "take (unat (key_query_len k)) t = t" using v by simp
  then obtain sh' r where a: "intern_acquire env k t (key_query_len k) sh = Some (sh', r)"
      "acquired k t R {} sh sh' r"
    using intern_acquire_spec [of sh R "{}" env k "key_query_len k" t] inv sz v
    by (auto simp: store_inv_def)
  then have "(if r = InvalidDsaPointer then store_inv (env, sh') R
      else store_inv (env, sh') (add_mset r R) \<and> store_text (env, sh') r = Some kt)"
    using inv by (auto simp: store_inv_def acquired_def intro: store_text_body)
  moreover have "\<forall>x. x \<in># R \<longrightarrow> store_text (env, sh') x = store_text s x"
    using a(2) by (auto simp: acquired_def intro: store_text_frame)
  ultimately show "\<exists>s' r. store_acquire kt s = Some (s', r) \<and>
      (\<forall>x. x \<in># R \<longrightarrow> store_text s' x = store_text s x) \<and>
      (if r = InvalidDsaPointer then store_inv s' R
       else store_inv s' (add_mset r R) \<and> store_text s' r = Some kt)"
    using a(1) by (simp add: store_acquire_def)
next
  fix s :: intern_state and R :: "dsa_pointer multiset" and r
  assume "store_inv s (add_mset r R)"
  then show "\<exists>s'. store_release r s = Some s' \<and> store_inv s' R \<and>
      (\<forall>x. x \<in># R \<longrightarrow> store_text s' x = store_text s x)"
    using intern_release_spec [of "snd s" r R "{}"]
    by (cases s) (auto simp: store_release_def store_inv_def intro: store_text_frame)
qed

subsection \<open>The public entry points\<close>

text \<open>A process that has mapped the shared memory and the hash table.\<close>

definition proc_ready :: "PschSharedState \<Rightarrow> PschProc \<Rightarrow> bool" where
  "proc_ready sh p \<longleftrightarrow> psch_shared_state p \<and> raw_dsa_area sh \<and> psch_query_intern_htab p"

lemma intern_body_refcnt [simp]: "intern_body (sh\<lparr>dsa_refcnt := n\<rparr>) = intern_body sh"
  by (intro ext) (simp add: intern_body_def)

lemma intern_inv_refcnt [simp]: "intern_inv (sh\<lparr>dsa_refcnt := n\<rparr>) R P = intern_inv sh R P"
  by (simp add: intern_inv_def intern_entry_ok_def)

lemma intern_frame_refcnt [simp]: "intern_frame R (sh\<lparr>dsa_refcnt := n\<rparr>) sh' = intern_frame R sh sh'"
  by (simp add: intern_frame_def)

lemma acquired_refcnt [simp]: "acquired k t R P (sh\<lparr>dsa_refcnt := n\<rparr>) sh' r = acquired k t R P sh sh' r"
  by (simp add: acquired_def)

lemma proc_ready_queue_part:
  assumes "queue_part sh' = queue_part sh" "same_proc p p'"
  shows "proc_ready sh' p' = proc_ready sh p"
proof -
  have "raw_dsa_area sh' = raw_dsa_area sh"
    using arg_cong [OF assms(1), of raw_dsa_area] by (simp add: queue_part_def)
  with same_procD [OF assms(2)] show ?thesis by (simp add: proc_ready_def)
qed

lemma PschQueryInternAcquire_spec:
  assumes inv: "intern_inv sh R P" and sz: "Suc (size R) < 2 ^ 32" and fresh: "dsa_allocate_fresh env"
    and len: "unat qlen \<le> length q" and p: "proc_ready sh p"
  obtains (ret) sh' p' r k where
      "PschQueryInternAcquire env db qid q qlen (sh, p) = Some ((sh', p'), Ret r)"
      "same_proc p p'" "acquired k (take (unat qlen) q) R P sh sh' r" "key_query_len k = qlen"
      "MakeKey env db qid q qlen = Some k" "qlen = 0 \<Longrightarrow> r = InvalidDsaPointer"
      "qlen \<noteq> 0 \<Longrightarrow> r = InvalidDsaPointer \<Longrightarrow> intern_refused env sh k (take (unat qlen) q)"
  | (throws) "PschQueryInternAcquire env db qid q qlen (sh, p) = Some ((sh, p), Throw)"
      "\<not> psch_dsa p" "\<not> dsa_attach_ok env"
proof -
  let ?k = "\<lparr>key_dbid = db, key_queryid = qid,
             key_query_hash = hash_any_extended env (take (unat qlen) q), key_query_len = qlen\<rparr>"
  show ?thesis
  proof (cases "qlen = 0")
    case True
    then have "PschQueryInternAcquire env db qid q qlen (sh, p) = Some ((sh, p), Ret InvalidDsaPointer)"
      by (simp add: PschQueryInternAcquire_def pg_ret_def)
    then show ?thesis by (rule ret [where k = ?k]) (simp_all add: inv acquired_def True MakeKey_def)
  next
    case False
    have sp: "psch_shared_state p" "raw_dsa_area sh" and ht: "psch_query_intern_htab p"
      using p by (simp_all add: proc_ready_def)
    have key: "MakeKey env db qid q qlen = Some ?k" using len by (simp add: MakeKey_def)
    show ?thesis
      using sp
    proof (cases rule: PschDsaGetArea_ready [where env = env])
      case (open_handle n p')
      obtain sh' r where a: "intern_acquire env ?k q qlen (sh\<lparr>dsa_refcnt := n\<rparr>) = Some (sh', r)"
          "acquired ?k (take (unat qlen) q) R P (sh\<lparr>dsa_refcnt := n\<rparr>) sh' r"
        using intern_acquire_spec [of "sh\<lparr>dsa_refcnt := n\<rparr>" R P env ?k qlen q] inv sz fresh len
        by auto
      have ref: "intern_refused env sh ?k (take (unat qlen) q)" if "r = InvalidDsaPointer"
        using intern_acquire_nil [of "sh\<lparr>dsa_refcnt := n\<rparr>" R P ?k qlen q env sh'] a(1) inv len that
        by (simp add: intern_refused_def key_collision_def)
      from a False key ht open_handle
      have "PschQueryInternAcquire env db qid q qlen (sh, p) = Some ((sh', p'), Ret r)"
        by (simp add: PschQueryInternAcquire_def pg_ret_def)
      then show ?thesis
        by (rule ret [where k = ?k]) (use a ref open_handle False key in simp_all)
    next
      case throws
      with False ht that(2) show ?thesis by (simp add: PschQueryInternAcquire_def)
    qed
  qed
qed

lemma ReleaseRef_open:
  assumes "intern_inv sh (add_mset r R) P" "psch_dsa p" "psch_query_intern_htab p"
  shows "\<exists>sh'. ReleaseRef env r (sh, p) = Some ((sh', p), Ret ()) \<and> intern_inv sh' R P \<and>
           intern_frame R sh sh'"
proof -
  have "r \<noteq> InvalidDsaPointer"
    using intern_invD(5) [OF assms(1), of r] intern_body_nonzero [OF assms(1)] by auto
  with assms intern_release_spec [OF assms(1)] show ?thesis
    by (auto simp: ReleaseRef_def pg_ret_def)
qed

text \<open>
  Copying a reference out: at most \<open>dst_size - 1\<close> bytes of its text, NUL-terminated, and
  the reference is gone.
\<close>

lemma PschQueryInternResolveAndRelease_spec:
  assumes inv: "intern_inv sh (add_mset r R) P" and b: "intern_body sh r k t"
    and p: "proc_ready sh p" and sz: "0 < dst_size" and buf: "unat dst_size \<le> length buf"
  obtains (ret) sh' p' buf' n where
      "PschQueryInternResolveAndRelease env r (Some buf) dst_size (Some m) (sh, p)
         = Some ((sh', p'), Ret (Some buf', Some n))"
      "same_proc p p'" "psch_dsa p'" "intern_inv sh' R P" "intern_frame R sh sh'"
      "unat n = min (length t) (unat dst_size - 1)" "take (unat n) buf' = take (unat n) t"
      "length buf' = length buf" "buf' ! unat n = NUL"
  | (throws) "PschQueryInternResolveAndRelease env r (Some buf) dst_size (Some m) (sh, p)
         = Some ((sh, p), Throw)" "\<not> psch_dsa p" "\<not> dsa_attach_ok env"
proof -
  have sp: "psch_shared_state p" "raw_dsa_area sh" and ht: "psch_query_intern_htab p"
    using p by (simp_all add: proc_ready_def)
  have nz: "r \<noteq> InvalidDsaPointer" by (rule intern_body_nonzero [OF inv b])
  have pos: "0 < unat dst_size" using sz by (simp add: word_less_nat_alt)
  then have dz: "dst_size \<noteq> 0" "0 < length buf" using buf sz by auto
  have area: "dsa_area sh r = Some (InternBody (intern_obj k t))" "length t = unat (key_query_len k)"
    using b by (simp_all add: intern_body_def)
  let ?buf = "buf[0 := NUL]"
  let ?n = "if dst_size \<le> key_query_len k then dst_size - 1 else key_query_len k"
  have n: "unat ?n = min (length t) (unat dst_size - 1)"
    using area(2) dz unat_sub1_word [OF dz(1)] by (auto simp: word_le_nat_alt)
  have nlen: "unat ?n < length buf" "unat ?n \<le> length t" using n pos buf by auto
  from sp show ?thesis
  proof (cases rule: PschDsaGetArea_ready [where env = env])
    case (open_handle i p')
    let ?sh = "sh\<lparr>dsa_refcnt := i\<rparr>"
    let ?buf' = "(take (unat ?n) (t @ [NUL]) @ drop (unat ?n) ?buf)[unat ?n := NUL]"
    have res: "ResolveInto env r (Some ?buf) dst_size (Some 0) (sh, p)
        = Some ((?sh, p'), Ret (Some ?buf', Some ?n))"
      using open_handle nz dz area nlen
      by (simp add: ResolveInto_def memcpy_def set_byte_def pg_ret_def Let_def)
    obtain sh' where rel: "ReleaseRef env r (?sh, p') = Some ((sh', p'), Ret ())"
        "intern_inv sh' R P" "intern_frame R ?sh sh'"
      using ReleaseRef_open [of ?sh r R P p' env] inv open_handle ht same_procD [OF open_handle(2)]
      by auto
    have "PschQueryInternResolveAndRelease env r (Some buf) dst_size (Some m) (sh, p)
        = Some ((sh', p'), Ret (Some ?buf', Some ?n))"
      using res rel sz dz by (simp add: PschQueryInternResolveAndRelease_def set_byte_def pg_ret_def Let_def)
    then show ?thesis
      by (rule ret) (use open_handle rel n nlen in \<open>auto simp: take_update_cancel\<close>)
  next
    case throws
    then show ?thesis
      using that(2) nz dz sz
      by (simp add: PschQueryInternResolveAndRelease_def ResolveInto_def set_byte_def Let_def)
  qed
qed

end
