(* ===== verification/Psch_Shmem.thy ===== *)
theory Psch_Shmem
  imports Psch_Guc Psch_Query_Intern
begin

section \<open>The shared queue (\<^verbatim>\<open>shmem.c\<close>)\<close>

text \<open>
  The multi-producer, single-consumer ring of \<^verbatim>\<open>shmem.c\<close>. The operations here are those
  that a process runs to completion; \<^verbatim>\<open>PschEnqueueEvent\<close> is in the theory of the local
  batch it falls back to, the interleaving of processes in the theory of the concurrent
  queue. \<open>queue_inv\<close> is the invariant of the segment, \<open>abs_queue\<close> the list of events it
  stands for.
\<close>

subsection \<open>Locking and the error-capture guard\<close>

text \<open>
  \<open>lock sh\<close>: some process holds the queue lock. \<open>lwlock_wait env\<close> is what the other
  processes do to the segment while this one waits for the lock. A process that asks for
  the lock it already holds never returns, and neither does one whose wait never ends:
  both are \<^const>\<open>None\<close>.
\<close>

definition LWLockAcquire :: "pg_env \<Rightarrow> world \<Rightarrow> world option" where
  "LWLockAcquire env w =
     (case w of (sh, p) \<Rightarrow>
        let sh = lwlock_wait env sh
        in if holds_lock p \<or> lock sh then None
           else Some (sh\<lparr>lock := True\<rparr>, p\<lparr>holds_lock := True\<rparr>))"

definition LWLockConditionalAcquire :: "world \<Rightarrow> world \<times> bool" where
  "LWLockConditionalAcquire w =
     (case w of (sh, p) \<Rightarrow>
        if lock sh then (w, False) else ((sh\<lparr>lock := True\<rparr>, p\<lparr>holds_lock := True\<rparr>), True))"

definition LWLockRelease :: "world \<Rightarrow> world" where
  "LWLockRelease w = (case w of (sh, p) \<Rightarrow> (sh\<lparr>lock := False\<rparr>, p\<lparr>holds_lock := False\<rparr>))"

definition PschSuppressErrorCapture :: "bool \<Rightarrow> world \<Rightarrow> world \<times> bool" where
  "PschSuppressErrorCapture suppress w =
     (case w of (sh, p) \<Rightarrow>
        ((sh, p\<lparr>disable_error_capture := suppress\<rparr>), disable_error_capture p))"

definition server_log_write :: "log_msg \<Rightarrow> bool \<Rightarrow> world \<Rightarrow> world" where
  "server_log_write m guard w = (case w of (sh, p) \<Rightarrow> (sh\<lparr>server_log := server_log sh @ [(m, guard)]\<rparr>, p))"

text \<open>
  A message of a backend passes through \<^verbatim>\<open>emit_log_hook\<close> before it is written.
  \<^verbatim>\<open>PschEmitLogHook\<close> returns at once while \<^verbatim>\<open>disable_error_capture\<close> is set; otherwise it
  builds an event and calls \<^verbatim>\<open>PschEnqueueEvent\<close> again, inside the reporting call.
  \<open>log_capture env\<close> is what that capture does to the world; nothing is assumed of it, and
  it need not return (\<^const>\<open>None\<close>): the theory of the local batch has the instance that is the
  re-entrant call, with the deadlock it leads to.
\<close>

definition ereport_log :: "pg_env \<Rightarrow> log_msg \<Rightarrow> world \<Rightarrow> world option" where
  "ereport_log env m w =
     (let guard = disable_error_capture (snd w)
      in map_option (server_log_write m guard) (if guard then Some w else log_capture env m w))"

subsection \<open>Producers\<close>

definition HandleOverflow :: "pg_env \<Rightarrow> world \<Rightarrow> world option" where
  "HandleOverflow env w =
     (case w of (sh, p) \<Rightarrow>
        let sh = sh\<lparr>dropped := dropped sh + 1\<rparr>
        in if \<not> overflow_logged sh
           then ereport_log env OverflowWarning (sh\<lparr>overflow_logged := True\<rparr>, p)
           else Some (sh, p))"

primrec overflow_loop :: "pg_env \<Rightarrow> nat \<Rightarrow> world \<Rightarrow> world option" where
  "overflow_loop env 0 w = Some w"
| "overflow_loop env (Suc n) w = Option.bind (HandleOverflow env w) (overflow_loop env n)"

definition upd_slot :: "nat \<Rightarrow> (PschRingEntry \<Rightarrow> PschRingEntry) \<Rightarrow> PschSharedState \<Rightarrow> PschSharedState"
  where
  "upd_slot i f sh = sh\<lparr>ring_buffer := (ring_buffer sh)[i := f (ring_buffer sh ! i)]\<rparr>"

text \<open>The part of \<^verbatim>\<open>TryEnqueueLocked\<close> that stores the query text.\<close>

definition store_query :: "pg_env \<Rightarrow> PschEvent \<Rightarrow> nat \<Rightarrow> world \<Rightarrow> (world, unit) pgres" where
  "store_query env event i w =
     (if 0 < query_len event then
        let clamped_len = min (query_len event) (of_nat (PSCH_MAX_QUERY_LEN - 1))
        in pg_bind (PschQueryInternAcquire env (dbid event) (queryid event) (query event) clamped_len w)
             (\<lambda>(sh, p) dp.
                let sh = upd_slot i (\<lambda>s. s\<lparr>query_dsa := dp\<rparr>) sh
                in if dp = InvalidDsaPointer
                   then pg_ret (upd_slot i (\<lambda>s. s\<lparr>query_len := 0\<rparr>) sh, p) ()
                   else pg_ret (upd_slot i (\<lambda>s. s\<lparr>query_len := clamped_len\<rparr>) sh, p) ())
      else pg_ret (upd_slot i (\<lambda>s. s\<lparr>query_dsa := InvalidDsaPointer\<rparr>) (fst w), snd w) ())"

definition store_err :: "pg_env \<Rightarrow> PschEvent \<Rightarrow> nat \<Rightarrow> world \<Rightarrow> (world, unit) pgres" where
  "store_err env event i w =
     pg_bind (PschDsaAllocString env (err_message event) (err_message_len event)
                (of_nat PSCH_MAX_ERR_MSG_LEN) w)
       (\<lambda>(sh, p) dp.
          let sh = upd_slot i (\<lambda>s. s\<lparr>err_message_dsa := dp\<rparr>) sh
          in if 0 < err_message_len event \<and> dp = InvalidDsaPointer
             then pg_ret (upd_slot i (\<lambda>s. s\<lparr>err_message_len := 0\<rparr>) sh, p) ()
             else pg_ret (sh, p) ())"

definition TryEnqueueLocked :: "guc \<Rightarrow> pg_env \<Rightarrow> PschEvent \<Rightarrow> u32 \<Rightarrow> world \<Rightarrow> (world, bool) pgres" where
  "TryEnqueueLocked g env event cap w =
     (let h = head (fst w); t = tail (fst w)
      in if ucast cap \<le> h - t \<or> psch_debug_force_locked_overflow g
         then map_option (\<lambda>w. (w, Ret False)) (HandleOverflow env w)
         else
           let i = ring_index cap h
           in if i < length (ring_buffer (fst w)) then
                pg_bind (store_err env event i (upd_slot i (copy_prefix_to_slot event) (fst w), snd w))
                  (\<lambda>w _. pg_bind (store_query env event i w)
                    (\<lambda>(sh, p) _.
                       let sh = sh\<lparr>head := h + 1\<rparr>;
                           sh = sh\<lparr>enqueued := enqueued sh + 1\<rparr>
                       in pg_ret (sh, p) True))
              else None)"

fun enqueue_loop ::
    "guc \<Rightarrow> pg_env \<Rightarrow> u32 \<Rightarrow> PschEvent list \<Rightarrow> nat \<Rightarrow> world \<Rightarrow> (world, nat) pgres" where
  "enqueue_loop g env cap [] n w = pg_ret w n"
| "enqueue_loop g env cap (e # es) n w =
     pg_bind (TryEnqueueLocked g env e cap w)
       (\<lambda>w ok. enqueue_loop g env cap es (if ok then n + 1 else n) w)"

text \<open>The \<^verbatim>\<open>PG_FINALLY\<close> block of the two enqueue functions.\<close>

definition unlock_and_restore :: "bool \<Rightarrow> world \<Rightarrow> world" where
  "unlock_and_restore saved_capture w =
     fst (PschSuppressErrorCapture saved_capture (LWLockRelease w))"

definition PschEnqueueBatch ::
    "guc \<Rightarrow> pg_env \<Rightarrow> PschEvent list \<Rightarrow> nat \<Rightarrow> world \<Rightarrow> (world, nat) pgres" where
  "PschEnqueueBatch g env events cnt w =
     (if \<not> psch_shared_state (snd w) \<or> \<not> psch_enabled g \<or> cnt = 0 then pg_ret w 0
      else
        let (w, saved_capture) = PschSuppressErrorCapture True w;
            cap = capacity (fst w);
            h = head (fst w);
            t = tail (fst w)
        in if ucast cap \<le> h - t
           then map_option (\<lambda>w. (fst (PschSuppressErrorCapture saved_capture w), Ret 0))
                  (overflow_loop env cnt w)
           else
             (case LWLockAcquire env w of
                None \<Rightarrow> None
              | Some w \<Rightarrow>
                  if cnt \<le> length events
                  then pg_finally (enqueue_loop g env cap (take cnt events) 0 w)
                         (unlock_and_restore saved_capture)
                  else None))"

subsection \<open>Consumer\<close>

definition PschDequeueEvent :: "pg_env \<Rightarrow> PschEvent \<Rightarrow> world \<Rightarrow> (world, bool \<times> PschEvent) pgres" where
  "PschDequeueEvent env event w =
     (if \<not> psch_shared_state (snd w) then pg_ret w (False, event)
      else
        let h = head (fst w); t = tail (fst w)
        in if h = t then pg_ret w (False, event)
           else
             let i = ring_index (capacity (fst w)) t
             in if i < length (ring_buffer (fst w)) then
                  let slot = ring_buffer (fst w) ! i;
                      event = copy_prefix_to_event slot event
                  in pg_bind (PschDsaResolveString env (err_message_dsa slot) (err_message_len slot)
                                (err_message event) (of_nat PSCH_MAX_ERR_MSG_LEN) w)
                       (\<lambda>w (buf, len).
                          let event = event\<lparr>err_message := buf, err_message_len := len\<rparr>
                          in pg_bind (PschQueryInternResolveAndRelease env (query_dsa slot)
                                        (Some (query event)) (of_nat PSCH_MAX_QUERY_LEN)
                                        (Some (query_len event)) w)
                               (\<lambda>(sh, p) (buf, len).
                                  let event = event\<lparr>query := the buf, query_len := the len\<rparr>
                                  in pg_ret (sh\<lparr>tail := t + 1\<rparr>, p) (True, event)))
                else None)"

subsection \<open>Statistics\<close>

record psch_stats =
  st_enqueued :: u64
  st_dropped :: u64
  st_exported :: u64
  st_queue_size :: u32
  st_queue_capacity :: u32
  st_send_failures :: u64
  st_last_success_ts :: TimestampTz
  st_last_error_buf :: "char list"
  st_last_error_ts :: TimestampTz
  st_dsa_oom_count :: u64

definition PschGetStats :: "pg_env \<Rightarrow> char list \<Rightarrow> world \<Rightarrow> (world \<times> psch_stats) option" where
  "PschGetStats env last_error_buf w =
     (if \<not> psch_shared_state (snd w) then
        (case (if 0 < length last_error_buf then set_byte last_error_buf 0 NUL
               else Some last_error_buf) of
           None \<Rightarrow> None
         | Some buf \<Rightarrow>
             Some (w, \<lparr>st_enqueued = 0, st_dropped = 0, st_exported = 0, st_queue_size = 0,
                       st_queue_capacity = 0, st_send_failures = 0, st_last_success_ts = 0,
                       st_last_error_buf = buf, st_last_error_ts = 0, st_dsa_oom_count = 0\<rparr>))
      else
        let sh0 = fst w
        in (case LWLockAcquire env w of
              None \<Rightarrow> None
            | Some w \<Rightarrow>
                let sh = fst w
                in Some (LWLockRelease w,
                     \<lparr>st_enqueued = enqueued sh0, st_dropped = dropped sh0,
                      st_exported = exported sh0, st_queue_size = ucast (head sh0 - tail sh0),
                      st_queue_capacity = capacity sh0, st_send_failures = send_failures sh0,
                      st_last_success_ts = last_success_ts sh,
                      st_last_error_buf =
                        fst (strlcpy last_error_buf (last_error_text sh) (length last_error_buf)),
                      st_last_error_ts = last_error_ts sh,
                      st_dsa_oom_count = dsa_oom_count sh0\<rparr>)))"

definition PschResetStats :: "pg_env \<Rightarrow> world \<Rightarrow> world option" where
  "PschResetStats env w =
     (if \<not> psch_shared_state (snd w) then Some w
      else
        (case LWLockAcquire env w of
           None \<Rightarrow> None
         | Some (sh, p) \<Rightarrow>
             Some (LWLockRelease
               (sh\<lparr>enqueued := 0, dropped := 0, exported := 0, send_failures := 0,
                   overflow_logged := False, dsa_oom_count := 0, last_success_ts := 0,
                   last_error_ts := 0,
                   last_error_text := replicate (length (last_error_text sh)) NUL\<rparr>, p))))"

definition PschRecordExportSuccess :: "pg_env \<Rightarrow> world \<Rightarrow> world option" where
  "PschRecordExportSuccess env w =
     (if \<not> psch_shared_state (snd w) then Some w
      else
        (case LWLockAcquire env w of
           None \<Rightarrow> None
         | Some (sh, p) \<Rightarrow>
             Some (LWLockRelease (sh\<lparr>last_success_ts := GetCurrentTimestamp env\<rparr>, p))))"

definition PschRecordExportFailure :: "pg_env \<Rightarrow> char list option \<Rightarrow> world \<Rightarrow> world option" where
  "PschRecordExportFailure env error_msg w =
     (if \<not> psch_shared_state (snd w) then Some w
      else
        (case LWLockAcquire env
                ((fst w)\<lparr>send_failures := send_failures (fst w) + 1\<rparr>, snd w) of
           None \<Rightarrow> None
         | Some (sh, p) \<Rightarrow>
             let sh = sh\<lparr>last_error_ts := GetCurrentTimestamp env\<rparr>;
                 sh = (case error_msg of
                         None \<Rightarrow> sh
                       | Some m \<Rightarrow>
                           sh\<lparr>last_error_text :=
                                fst (strlcpy (last_error_text sh) m (length (last_error_text sh)))\<rparr>)
             in Some (LWLockRelease (sh, p))))"

definition PschGetBgworkerPid :: "world \<Rightarrow> u32" where
  "PschGetBgworkerPid w = (if \<not> psch_shared_state (snd w) then 0 else bgworker_pid (fst w))"

definition PschSetBgworkerPid :: "u32 \<Rightarrow> world \<Rightarrow> world" where
  "PschSetBgworkerPid v w =
     (if \<not> psch_shared_state (snd w) then w else ((fst w)\<lparr>bgworker_pid := v\<rparr>, snd w))"

subsection \<open>Start-up and shut-down\<close>

text \<open>
  Sizes in bytes. \<^verbatim>\<open>add_size\<close> and \<^verbatim>\<open>mul_size\<close> raise an error when the result does not fit
  in a \<^verbatim>\<open>Size\<close>. The three padded groups of \<^verbatim>\<open>PschSharedState\<close> take a cache line (128) each,
  the exporter group 8 + 8 + 8 + 256 + 4 bytes, rounded up to the alignment of the struct.
\<close>

definition add_size :: "nat \<Rightarrow> nat \<Rightarrow> nat option" where
  "add_size a b = (if a + b < 2 ^ 64 then Some (a + b) else None)"

definition mul_size :: "nat \<Rightarrow> nat \<Rightarrow> nat option" where
  "mul_size a b = (if a * b < 2 ^ 64 then Some (a * b) else None)"

abbreviation MAXALIGN :: "nat \<Rightarrow> nat" where "MAXALIGN n \<equiv> align_up 8 n"

definition sizeof_PschSharedState :: nat where
  "sizeof_PschSharedState = MAXALIGN (3 * 128 + 8 + 8 + 8 + 256 + 4)"

definition sizeof_PschRingEntry :: nat where
  "sizeof_PschRingEntry = c_sizeof PschRingEntry_fields"

definition PschSharedBlockSize :: "guc \<Rightarrow> nat option" where
  "PschSharedBlockSize g =
     (case mul_size (nat (psch_queue_capacity g)) sizeof_PschRingEntry of
        None \<Rightarrow> None
      | Some ring \<Rightarrow>
          (case add_size sizeof_PschSharedState ring of
             None \<Rightarrow> None
           | Some ring_end \<Rightarrow>
               (case add_size (MAXALIGN ring_end) (nat (PschDsaShmemSize (psch_string_area_size g))) of
                  None \<Rightarrow> None
                | Some n \<Rightarrow> Some (MAXALIGN n))))"

text \<open>\<^verbatim>\<open>hash_estimate_size\<close> is dynahash's estimate, an argument here.\<close>

definition PschShmemSize :: "(int \<Rightarrow> nat) \<Rightarrow> guc \<Rightarrow> nat option" where
  "PschShmemSize hash_estimate_size g =
     (case PschSharedBlockSize g of
        None \<Rightarrow> None
      | Some n \<Rightarrow>
          add_size n (hash_estimate_size (PschQueryInternMaxEntries (psch_queue_capacity g))))"

text \<open>The offset of the DSA area that \<^verbatim>\<open>InitializeSharedState\<close> computes.\<close>

definition dsa_place_offset :: "guc \<Rightarrow> nat" where
  "dsa_place_offset g =
     MAXALIGN (sizeof_PschSharedState + nat (psch_queue_capacity g) * sizeof_PschRingEntry)"

definition zero_fixed :: psch_fixed where
  "zero_fixed =
     \<lparr>ts_start = 0, duration_us = 0, dbid = 0, userid = 0, datname = replicate NAMEDATALEN NUL,
      datname_len = 0, username = replicate NAMEDATALEN NUL, username_len = 0, pid = 0,
      queryid = 0, top_level = False, cmd_type = PSCH_CMD_UNKNOWN, rows = 0, shared_blks_hit = 0,
      shared_blks_read = 0, shared_blks_dirtied = 0, shared_blks_written = 0, local_blks_hit = 0,
      local_blks_read = 0, local_blks_dirtied = 0, local_blks_written = 0, temp_blks_read = 0,
      temp_blks_written = 0, shared_blk_read_time_us = 0, shared_blk_write_time_us = 0,
      local_blk_read_time_us = 0, local_blk_write_time_us = 0, temp_blk_read_time_us = 0,
      temp_blk_write_time_us = 0, wal_records = 0, wal_fpi = 0, wal_bytes = 0,
      cpu_user_time_us = 0, cpu_sys_time_us = 0, jit_functions = 0, jit_generation_time_us = 0,
      jit_deform_time_us = 0, jit_inlining_time_us = 0, jit_optimization_time_us = 0,
      jit_emission_time_us = 0, parallel_workers_planned = 0, parallel_workers_launched = 0,
      err_sqlstate = replicate 6 NUL, err_elevel = 0, padding3 = 0,
      err_message_len = 0,
      application_name = replicate NAMEDATALEN NUL, application_name_len = 0,
      client_addr = replicate INET6_ADDRSTRLEN NUL, client_addr_len = 0, query_len = 0\<rparr>"

definition zero_slot :: PschRingEntry where
  "zero_slot = psch_fixed.extend zero_fixed (PschRingEntry.fields InvalidDsaPointer InvalidDsaPointer)"

text \<open>An event that \<^verbatim>\<open>memset\<close> has cleared.\<close>

definition zero_event :: PschEvent where
  "zero_event = psch_fixed.extend zero_fixed
     (PschEvent.fields (replicate PSCH_MAX_ERR_MSG_LEN NUL) (replicate PSCH_MAX_QUERY_LEN NUL))"

text \<open>
  The messages at startup and shutdown are the postmaster's, where \<^verbatim>\<open>IsUnderPostmaster\<close> is
  false and the hook captures nothing.
\<close>

definition InitializeSharedState :: "guc \<Rightarrow> world \<Rightarrow> world" where
  "InitializeSharedState g w =
     (case w of (sh, p) \<Rightarrow>
        let sh = sh\<lparr>lock := False, capacity := word_of_int (psch_queue_capacity g), head := 0,
                    enqueued := 0, dropped := 0, overflow_logged := False, tail := 0,
                    exported := 0, send_failures := 0, last_success_ts := 0, last_error_ts := 0,
                    last_error_text := replicate 256 NUL, bgworker_pid := 0,
                    dsa_oom_count := 0,
                    ring_buffer := replicate (nat (psch_queue_capacity g)) zero_slot\<rparr>;
            sh = PschDsaInit sh
        in server_log_write (InitLog (psch_queue_capacity g)) (disable_error_capture p) (sh, p))"

text \<open>
  \<^verbatim>\<open>ShmemInitStruct\<close> returns NULL or the segment, and in \<open>found\<close> whether it already
  existed; \<^verbatim>\<open>ShmemInitHash\<close> likewise creates the empty table on the first call only.
\<close>

definition PschShmemStartupHook ::
    "guc \<Rightarrow> (world \<Rightarrow> world) \<Rightarrow> bool \<Rightarrow> bool \<Rightarrow> world \<Rightarrow> (world, unit) pgres" where
  "PschShmemStartupHook g prev_shmem_startup_hook init_struct_ok found w =
     (let w = prev_shmem_startup_hook w;
          (sh, p) = w;
          p = p\<lparr>psch_shared_state := init_struct_ok\<rparr>
      in if \<not> init_struct_ok then Some ((sh, p), Throw)
         else
           let (sh, p) = (if \<not> found then InitializeSharedState g (sh, p) else (sh, p));
               sh = (if \<not> found then sh\<lparr>intern_tab := Map.empty\<rparr> else sh);
               p = p\<lparr>psch_query_intern_htab := True\<rparr>
           in pg_ret (sh, on_shmem_exit PschShmemShutdownCb p) ())"

definition PschShmemShutdown :: "world \<Rightarrow> world" where
  "PschShmemShutdown w =
     (if psch_shared_state (snd w)
      then server_log_write (ShutdownLog (enqueued (fst w)) (dropped (fst w)) (exported (fst w)))
             (disable_error_capture (snd w)) w
      else w)"

end
