(* ===== verification/Psch_Queue_Inv.thy ===== *)
theory Psch_Queue_Inv
  imports Psch_Shmem
begin

section \<open>Invariant and abstraction of the shared queue\<close>

text \<open>
  \<open>live sh\<close> are the slots between \<^verbatim>\<open>tail\<close> and \<^verbatim>\<open>head\<close>. \<open>heap_inv sh L\<close> says that the
  slots \<open>L\<close> own the dynamic shared area: every pointer of a slot points at a body of the
  right kind and length, no string body is shared, the interner counts exactly the query
  pointers of \<open>L\<close>, and nothing else is allocated. It is stated for a list of slots, so that
  it also holds while a slot is being filled or emptied.
\<close>

subsection \<open>Ownership of the area\<close>

definition query_refs :: "PschRingEntry list \<Rightarrow> dsa_pointer multiset" where
  "query_refs L = mset (filter (\<lambda>r. r \<noteq> InvalidDsaPointer) (map query_dsa L))"

definition err_refs :: "PschRingEntry list \<Rightarrow> dsa_pointer list" where
  "err_refs L = filter (\<lambda>r. r \<noteq> InvalidDsaPointer) (map err_message_dsa L)"

definition str_body :: "PschSharedState \<Rightarrow> dsa_pointer \<Rightarrow> char list \<Rightarrow> bool" where
  "str_body sh r s \<longleftrightarrow> dsa_area sh r = Some (StrBody (s @ [NUL]))"

definition err_ok :: "PschSharedState \<Rightarrow> PschRingEntry \<Rightarrow> bool" where
  "err_ok sh e \<longleftrightarrow>
     (if err_message_dsa e = InvalidDsaPointer then err_message_len e = 0
      else \<exists>s. str_body sh (err_message_dsa e) s \<and>
             length s = min (unat (err_message_len e)) (PSCH_MAX_ERR_MSG_LEN - 1))"

definition query_ok :: "PschSharedState \<Rightarrow> PschRingEntry \<Rightarrow> bool" where
  "query_ok sh e \<longleftrightarrow>
     (if query_dsa e = InvalidDsaPointer then query_len e = 0
      else \<exists>k t. intern_body sh (query_dsa e) k t \<and> key_query_len k = query_len e \<and>
             length t \<le> PSCH_MAX_QUERY_LEN - 1)"

definition heap_inv :: "PschSharedState \<Rightarrow> PschRingEntry list \<Rightarrow> bool" where
  "heap_inv sh L \<longleftrightarrow>
     intern_inv sh (query_refs L) {} \<and> distinct (err_refs L) \<and>
     (\<forall>r s. dsa_area sh r = Some (StrBody s) \<longrightarrow> r \<in> set (err_refs L)) \<and>
     (\<forall>e. e \<in> set L \<longrightarrow> err_ok sh e \<and> query_ok sh e)"

definition slot_err :: "PschSharedState \<Rightarrow> PschRingEntry \<Rightarrow> char list" where
  "slot_err sh e =
     (if err_message_dsa e = InvalidDsaPointer then []
      else case dsa_area sh (err_message_dsa e) of Some (StrBody b) \<Rightarrow> butlast b | _ \<Rightarrow> [])"

definition slot_query :: "PschSharedState \<Rightarrow> PschRingEntry \<Rightarrow> char list" where
  "slot_query sh e =
     (if query_dsa e = InvalidDsaPointer then []
      else case dsa_area sh (query_dsa e) of Some (InternBody b) \<Rightarrow> butlast (obj_query b) | _ \<Rightarrow> [])"

text \<open>A queued event, as a client sees it: everything but the texts, and the two texts.\<close>

type_synonym abs_event = "psch_fixed \<times> char list \<times> char list"

definition abs_slot :: "PschSharedState \<Rightarrow> PschRingEntry \<Rightarrow> abs_event" where
  "abs_slot sh e = (numeric_part e, slot_err sh e, slot_query sh e)"

lemma query_refs_simps [simp]:
  "query_refs [] = {#}"
  "query_refs (e # L) = (if query_dsa e = InvalidDsaPointer then query_refs L
                         else add_mset (query_dsa e) (query_refs L))"
  "query_refs (L @ L') = query_refs L + query_refs L'"
  by (simp_all add: query_refs_def)

lemma err_refs_simps [simp]:
  "err_refs [] = []"
  "err_refs (e # L) = (if err_message_dsa e = InvalidDsaPointer then err_refs L
                       else err_message_dsa e # err_refs L)"
  "err_refs (L @ L') = err_refs L @ err_refs L'"
  by (simp_all add: err_refs_def)

lemma size_query_refs: "size (query_refs L) \<le> length L"
  by (induction L) auto

lemma query_refs_mem: "e \<in> set L \<Longrightarrow> query_dsa e \<noteq> InvalidDsaPointer \<Longrightarrow> query_dsa e \<in># query_refs L"
  by (induction L) auto

lemma err_refs_mem: "e \<in> set L \<Longrightarrow> err_message_dsa e \<noteq> InvalidDsaPointer \<Longrightarrow> err_message_dsa e \<in> set (err_refs L)"
  by (induction L) auto

lemma heap_inv_rotate: "heap_inv sh (L @ [e]) \<longleftrightarrow> heap_inv sh (e # L)"
  by (auto simp: heap_inv_def)

lemma str_body_cong: "dsa_area sh' = dsa_area sh \<Longrightarrow> str_body sh' = str_body sh"
  by (intro ext) (simp add: str_body_def)

lemma intern_body_cong: "dsa_area sh' = dsa_area sh \<Longrightarrow> intern_body sh' = intern_body sh"
  by (intro ext) (simp add: intern_body_def)

lemma heap_inv_cong:
  assumes "dsa_area sh' = dsa_area sh" "intern_tab sh' = intern_tab sh"
  shows "heap_inv sh' L = heap_inv sh L"
  by (simp add: heap_inv_def intern_inv_def intern_entry_ok_def err_ok_def query_ok_def assms
      str_body_cong [OF assms(1)] intern_body_cong [OF assms(1)])

lemma abs_slot_cong: "dsa_area sh' = dsa_area sh \<Longrightarrow> abs_slot sh' = abs_slot sh"
  by (intro ext) (simp add: abs_slot_def slot_err_def slot_query_def)

lemma slot_ok_update [simp]:
  "err_ok sh (e\<lparr>query_dsa := d\<rparr>) = err_ok sh e"
  "err_ok sh (e\<lparr>query_len := n\<rparr>) = err_ok sh e"
  "query_ok sh (e\<lparr>err_message_dsa := d\<rparr>) = query_ok sh e"
  "query_ok sh (e\<lparr>err_message_len := n\<rparr>) = query_ok sh e"
  by (simp_all add: err_ok_def query_ok_def)

text \<open>What keeps a slot's pointers meaningful when the area changes.\<close>

definition keeps_slot :: "PschSharedState \<Rightarrow> PschSharedState \<Rightarrow> PschRingEntry \<Rightarrow> bool" where
  "keeps_slot sh sh' e \<longleftrightarrow>
     (err_message_dsa e \<noteq> InvalidDsaPointer \<longrightarrow>
        dsa_area sh' (err_message_dsa e) = dsa_area sh (err_message_dsa e)) \<and>
     (query_dsa e \<noteq> InvalidDsaPointer \<longrightarrow> dsa_area sh' (query_dsa e) = dsa_area sh (query_dsa e))"

lemma keeps_slotD:
  assumes "keeps_slot sh sh' e"
  shows "abs_slot sh' e = abs_slot sh e" "err_ok sh' e = err_ok sh e" "query_ok sh' e = query_ok sh e"
  using assms
  by (auto simp: keeps_slot_def abs_slot_def slot_err_def slot_query_def err_ok_def query_ok_def
      str_body_def intern_body_def)

lemma err_okD:
  assumes "err_ok sh e" "err_message_dsa e \<noteq> InvalidDsaPointer"
  shows "str_body sh (err_message_dsa e) (slot_err sh e)"
    "length (slot_err sh e) = min (unat (err_message_len e)) (PSCH_MAX_ERR_MSG_LEN - 1)"
  using assms by (auto simp: err_ok_def slot_err_def str_body_def)

lemma query_okD:
  assumes "query_ok sh e" "query_dsa e \<noteq> InvalidDsaPointer"
  obtains k where "intern_body sh (query_dsa e) k (slot_query sh e)" "key_query_len k = query_len e"
    "length (slot_query sh e) \<le> PSCH_MAX_QUERY_LEN - 1"
  using assms by (auto simp: query_ok_def slot_query_def intern_body_def)

text \<open>The owner of a string body is not an interned body, so a string may come and go.\<close>

lemma intern_inv_area_update:
  assumes inv: "intern_inv sh R {}" and nz: "r \<noteq> InvalidDsaPointer"
    and old: "\<And>obj. dsa_area sh r \<noteq> Some (InternBody obj)"
    and new: "\<And>obj. b \<noteq> Some (InternBody obj)"
    and sh': "dsa_area sh' = (dsa_area sh)(r := b)" "intern_tab sh' = intern_tab sh"
  shows "intern_inv sh' R {}"
proof -
  have body: "intern_body sh' r' k t = intern_body sh r' k t" for r' k t
    using old new sh' by (auto simp: intern_body_def)
  show ?thesis
  proof (rule intern_invI)
    fix k e
    assume "intern_tab sh' k = Some e"
    then show "intern_entry_ok sh' R k e \<and> entry_object e \<notin> {}"
      using intern_invD(1) [OF inv, of k e] sh' by (simp add: intern_entry_ok_def body)
  next
    fix r' obj
    assume "dsa_area sh' r' = Some (InternBody obj)"
    then show "\<exists>e. intern_tab sh' (obj_key obj) = Some e \<and> entry_object e = r'"
      using intern_invD(3) [OF inv, of r' obj] new sh' by (auto split: if_splits)
  next
    fix r'
    assume "r' \<in># R"
    then show "r' \<notin> {} \<and> (\<exists>k t. intern_body sh' r' k t)"
      using intern_invD(5) [OF inv] by (simp add: body)
  qed (use intern_invD(7,8) [OF inv] nz sh' in simp_all)
qed

subsection \<open>Filling and emptying a slot\<close>

lemma heap_invD:
  assumes "heap_inv sh L"
  shows "intern_inv sh (query_refs L) {}" "distinct (err_refs L)"
    and "dsa_area sh r = Some (StrBody s) \<Longrightarrow> r \<in> set (err_refs L)"
    and "e \<in> set L \<Longrightarrow> err_ok sh e" "e \<in> set L \<Longrightarrow> query_ok sh e"
  using assms by (auto simp: heap_inv_def)

lemma heap_inv_blank:
  assumes "heap_inv sh L" "err_message_dsa e = InvalidDsaPointer" "err_message_len e = 0"
    "query_dsa e = InvalidDsaPointer" "query_len e = 0"
  shows "heap_inv sh (e # L)"
  using assms by (auto simp: heap_inv_def err_ok_def query_ok_def)

lemma slot_err_mem:
  assumes "heap_inv sh L" "e \<in> set L" "err_message_dsa e \<noteq> InvalidDsaPointer"
  shows "\<exists>s. dsa_area sh (err_message_dsa e) = Some (StrBody s)"
  using err_okD [OF heap_invD(4) [OF assms(1,2)] assms(3)] by (auto simp: str_body_def)

lemma slot_query_mem:
  assumes "heap_inv sh L" "e \<in> set L" "query_dsa e \<noteq> InvalidDsaPointer"
  shows "\<exists>obj. dsa_area sh (query_dsa e) = Some (InternBody obj)"
  using query_okD [OF heap_invD(5) [OF assms(1,2)] assms(3)] by (metis intern_body_def)

lemma keeps_slot_fresh:
  assumes inv: "heap_inv sh L" and e: "e \<in> set L" and new: "dsa_area sh dp = None"
    and sh': "dsa_area sh' = (dsa_area sh)(dp := b)"
  shows "keeps_slot sh sh' e"
proof -
  have "err_message_dsa e \<noteq> dp" if "err_message_dsa e \<noteq> InvalidDsaPointer"
    using slot_err_mem [OF inv e that] new by auto
  moreover have "query_dsa e \<noteq> dp" if "query_dsa e \<noteq> InvalidDsaPointer"
    using slot_query_mem [OF inv e that] new by auto
  ultimately show ?thesis using sh' by (auto simp: keeps_slot_def)
qed

lemma heap_inv_alloc_err:
  assumes inv: "heap_inv sh (e # L)" and e: "err_message_dsa e = InvalidDsaPointer"
    and dp: "dp \<noteq> InvalidDsaPointer" "dsa_area sh dp = None"
    and sh': "dsa_area sh' = (dsa_area sh)(dp \<mapsto> StrBody (s @ [NUL]))" "intern_tab sh' = intern_tab sh"
    and s: "length s = min (unat n) (PSCH_MAX_ERR_MSG_LEN - 1)"
    and e': "e' = e\<lparr>err_message_dsa := dp, err_message_len := n\<rparr>"
  shows "heap_inv sh' (e' # L)"
proof -
  have keep: "keeps_slot sh sh' x" if "x \<in> set (e # L)" for x
    by (rule keeps_slot_fresh [OF inv that dp(2) sh'(1)])
  have "dp \<notin> set (err_refs L)"
    using heap_invD(4) [OF inv] slot_err_mem [OF inv] dp(2) by (force simp: err_refs_def)
  moreover have "intern_inv sh' (query_refs (e' # L)) {}"
    using intern_inv_area_update [OF heap_invD(1) [OF inv] dp(1) _ _ sh'] dp(2) e'
    by (simp split: if_splits)
  moreover have "err_ok sh' e'"
    using e' dp(1) s sh' by (simp add: err_ok_def str_body_def)
  moreover have "query_ok sh' e'"
    using keeps_slotD(3) [OF keep [of e]] heap_invD(5) [OF inv, of e] e' by simp
  moreover have "err_ok sh' x \<and> query_ok sh' x" if "x \<in> set L" for x
    using keeps_slotD(2,3) [OF keep [of x]] heap_invD(4,5) [OF inv, of x] that by simp
  ultimately show ?thesis
    using heap_invD(2,3) [OF inv] e e' dp sh'(1)
    by (auto simp: heap_inv_def split: if_splits)
qed

lemma heap_inv_free_err:
  assumes inv: "heap_inv sh (e # L)" and dp: "err_message_dsa e = dp" "dp \<noteq> InvalidDsaPointer"
    and sh': "dsa_area sh' = (dsa_area sh)(dp := None)" "intern_tab sh' = intern_tab sh"
    and e': "e' = e\<lparr>err_message_dsa := InvalidDsaPointer, err_message_len := 0\<rparr>"
  shows "heap_inv sh' (e' # L)" and "x \<in> set L \<Longrightarrow> keeps_slot sh sh' x"
    and "slot_query sh' e' = slot_query sh e"
proof -
  obtain s where s: "dsa_area sh dp = Some (StrBody s)"
    using slot_err_mem [OF inv, of e] dp by auto
  have q: "query_dsa y \<noteq> dp" if "y \<in> set (e # L)" "query_dsa y \<noteq> InvalidDsaPointer" for y
    using slot_query_mem [OF inv that] s by auto
  have notin: "dp \<notin> set (err_refs L)" using heap_invD(2) [OF inv] dp by simp
  show keep: "keeps_slot sh sh' x" if "x \<in> set L" for x
    using q [of x] that err_refs_mem [OF that] notin sh' by (auto simp: keeps_slot_def)
  have keep_e: "keeps_slot sh sh' e'"
    using q [of e] sh' e' by (auto simp: keeps_slot_def)
  from keeps_slotD(1) [OF this] show "slot_query sh' e' = slot_query sh e"
    using e' by (simp add: abs_slot_def slot_query_def)
  have "intern_inv sh' (query_refs (e' # L)) {}"
    using intern_inv_area_update [OF heap_invD(1) [OF inv] dp(2) _ _ sh'] s e'
    by (simp split: if_splits)
  moreover have "query_ok sh' e'"
    using keeps_slotD(3) [OF keep_e] heap_invD(5) [OF inv, of e] e' by simp
  moreover have "err_ok sh' x \<and> query_ok sh' x" if "x \<in> set L" for x
    using keeps_slotD(2,3) [OF keep [OF that]] heap_invD(4,5) [OF inv, of x] that by simp
  moreover have "err_ok sh' e'"
    using e' by (simp add: err_ok_def)
  ultimately show "heap_inv sh' (e' # L)"
    using heap_invD(2,3) [OF inv] e' dp sh'(1)
    by (auto simp: heap_inv_def split: if_splits)
qed

lemma intern_frame_keeps_slot:
  assumes "heap_inv sh L" "intern_frame R sh sh'" "x \<in> set L"
    "query_dsa x \<noteq> InvalidDsaPointer \<longrightarrow> query_dsa x \<in># R"
  shows "keeps_slot sh sh' x"
  using assms(2,4) slot_err_mem [OF assms(1,3)] by (auto simp: keeps_slot_def intern_frame_def)

lemma heap_inv_acquired:
  assumes inv: "heap_inv sh (e # L)" and e: "query_dsa e = InvalidDsaPointer"
    and acq: "acquired k t (query_refs L) {} sh sh' r" and len: "length t \<le> PSCH_MAX_QUERY_LEN - 1"
    and e': "e' = e\<lparr>query_dsa := r, query_len := (if r = InvalidDsaPointer then 0 else key_query_len k)\<rparr>"
  shows "heap_inv sh' (e' # L)" and "x \<in> set (e # L) \<Longrightarrow> keeps_slot sh sh' x"
proof -
  have fr: "intern_frame (query_refs L) sh sh'"
    and inv': "intern_inv sh' (query_refs (e' # L)) {}"
    using acq e' by (simp_all add: acquired_def split: if_splits)
  show keep: "keeps_slot sh sh' x" if "x \<in> set (e # L)" for x
    using intern_frame_keeps_slot [OF inv fr that] that e query_refs_mem [of x L] by auto
  have "err_ok sh' e'"
    using keeps_slotD(2) [OF keep [of e]] heap_invD(4) [OF inv, of e] e' by simp
  moreover have "query_ok sh' e'"
    using acq e' len unfolding acquired_def query_ok_def by (auto 0 3)
  moreover have "err_ok sh' x \<and> query_ok sh' x" if "x \<in> set L" for x
    using keeps_slotD(2,3) [OF keep [of x]] heap_invD(4,5) [OF inv, of x] that by simp
  moreover have "y \<in> set (err_refs (e # L))" if "dsa_area sh' y = Some (StrBody s)" for y s
    using fr that by (intro heap_invD(3) [OF inv, of y s]) (simp add: intern_frame_def)
  ultimately show "heap_inv sh' (e' # L)"
    using inv' heap_invD(2) [OF inv] e' by (auto simp: heap_inv_def split: if_splits)
qed

lemma heap_inv_released:
  assumes inv: "heap_inv sh (e # L)" and e: "err_message_dsa e = InvalidDsaPointer"
    and inv': "intern_inv sh' (query_refs L) {}" and fr: "intern_frame (query_refs L) sh sh'"
  shows "heap_inv sh' L" and "x \<in> set L \<Longrightarrow> keeps_slot sh sh' x"
proof -
  show keep: "keeps_slot sh sh' x" if "x \<in> set L" for x
    using intern_frame_keeps_slot [OF inv fr, of x] that query_refs_mem [of x L] by auto
  have "err_ok sh' x \<and> query_ok sh' x" if "x \<in> set L" for x
    using keeps_slotD(2,3) [OF keep [OF that]] heap_invD(4,5) [OF inv, of x] that by simp
  moreover have "y \<in> set (err_refs (e # L))" if "dsa_area sh' y = Some (StrBody s)" for y s
    using fr that by (intro heap_invD(3) [OF inv, of y s]) (simp add: intern_frame_def)
  ultimately show "heap_inv sh' L"
    using inv' heap_invD(2) [OF inv] e by (auto simp: heap_inv_def)
qed

subsection \<open>Storing and fetching an error message\<close>

lemma PschDsaAllocString_spec:
  assumes fresh: "dsa_allocate_fresh env" and p: "psch_shared_state p" "raw_dsa_area sh"
    and mx: "0 < max_len" and src: "min (unat len) (unat max_len - 1) \<le> length src"
  obtains (stored) n p' dp where
      "PschDsaAllocString env src len max_len (sh, p) =
         Some ((sh\<lparr>dsa_refcnt := n, dsa_area := (dsa_area sh)
                 (dp \<mapsto> StrBody (take (min (unat len) (unat max_len - 1)) src @ [NUL]))\<rparr>, p'), Ret dp)"
      "same_proc p p'" "dp \<noteq> InvalidDsaPointer" "dsa_area sh dp = None" "len \<noteq> 0" "psch_dsa p'"
      "dp = dsa_allocate env (dsa_area sh) (min (unat len) (unat max_len - 1) + 1)"
  | (empty) n p' m where
      "PschDsaAllocString env src len max_len (sh, p) =
         Some ((sh\<lparr>dsa_refcnt := n, dsa_oom_count := m\<rparr>, p'), Ret InvalidDsaPointer)"
      "same_proc p p'" "psch_dsa p \<Longrightarrow> psch_dsa p'"
      "len \<noteq> 0 \<Longrightarrow> dsa_exhausted env (dsa_area sh) (min (unat len) (unat max_len - 1) + 1)"
  | (throws) "PschDsaAllocString env src len max_len (sh, p) = Some ((sh, p), Throw)"
      "\<not> psch_dsa p" "\<not> dsa_attach_ok env"
proof (cases "len = 0")
  case True
  have "PschDsaAllocString env src len max_len (sh, p) =
      Some ((sh\<lparr>dsa_refcnt := dsa_refcnt sh, dsa_oom_count := dsa_oom_count sh\<rparr>, p), Ret InvalidDsaPointer)"
    using True by (simp add: PschDsaAllocString_eq pg_ret_def)
  then show ?thesis by (rule empty) (simp_all add: True)
next
  case False
  have c: "unat (min len (max_len - 1)) = min (unat len) (unat max_len - 1)"
    using mx unat_sub1_word [of max_len] by (simp add: unat_min_word)
  from p show ?thesis
  proof (cases rule: PschDsaGetArea_ready [where env = env])
    case (open_handle n p')
    let ?dp = "dsa_allocate env (dsa_area sh) (unat (min len (max_len - 1)) + 1)"
    show ?thesis
    proof (cases "?dp = InvalidDsaPointer")
      case True
      have "PschDsaAllocString env src len max_len (sh, p) =
          Some ((sh\<lparr>dsa_refcnt := n, dsa_oom_count := dsa_oom_count sh + 1\<rparr>, p'), Ret InvalidDsaPointer)"
        using False True open_handle by (simp add: PschDsaAllocString_eq pg_ret_def Let_def)
      then show ?thesis
        by (rule empty) (use True open_handle c in \<open>auto simp: dsa_exhausted_def\<close>)
    next
      case dp: False
      have "PschDsaAllocString env src len max_len (sh, p) =
         Some ((sh\<lparr>dsa_refcnt := n, dsa_area := (dsa_area sh)
                 (?dp \<mapsto> StrBody (take (min (unat len) (unat max_len - 1)) src @ [NUL]))\<rparr>, p'), Ret ?dp)"
        using False dp open_handle src c by (simp add: PschDsaAllocString_eq pg_ret_def Let_def)
      then show ?thesis
        by (rule stored) (use False dp open_handle fresh c in \<open>auto simp: dsa_allocate_fresh_def\<close>)
    qed
  next
    case throws
    then show ?thesis using False that(3) by (simp add: PschDsaAllocString_eq)
  qed
qed

lemma PschDsaResolveString_spec:
  assumes p: "psch_shared_state p" "raw_dsa_area sh" and dp: "dp \<noteq> InvalidDsaPointer"
    and b: "str_body sh dp s" "length s = min (unat src_len) (unat max_len - 1)"
    and buf: "unat max_len \<le> length buf" "0 < max_len"
  obtains (ret) n p' buf' len where
      "PschDsaResolveString env dp src_len buf max_len (sh, p) =
         Some ((sh\<lparr>dsa_refcnt := n, dsa_area := (dsa_area sh)(dp := None)\<rparr>, p'), Ret (buf', len))"
      "same_proc p p'" "psch_dsa p'" "unat len = length s" "take (length s) buf' = s"
      "length buf' = length buf" "buf' ! length s = NUL"
  | (throws) "PschDsaResolveString env dp src_len buf max_len (sh, p) = Some ((sh, p), Throw)"
      "\<not> psch_dsa p" "\<not> dsa_attach_ok env"
proof -
  let ?len = "min src_len (max_len - 1)"
  have len: "unat ?len = length s"
    using buf b(2) unat_sub1_word [of max_len] by (simp add: unat_min_word)
  have pos: "0 < unat max_len" using buf(2) by (simp add: word_less_nat_alt)
  then have lt: "length s < length buf" using b(2) buf by linarith
  from p show ?thesis
  proof (cases rule: PschDsaGetArea_ready [where env = env])
    case (open_handle n p')
    let ?buf = "s @ NUL # drop (Suc (length s)) buf"
    have "PschDsaResolveString env dp src_len buf max_len (sh, p) =
        Some ((sh\<lparr>dsa_refcnt := n, dsa_area := (dsa_area sh)(dp := None)\<rparr>, p'), Ret (?buf, ?len))"
      using open_handle dp b lt len copy_terminated [of "length s" buf "s @ [NUL]"]
      by (simp add: PschDsaResolveString_def str_body_def pg_ret_def Let_def dsa_free_def)
    then show ?thesis
      by (rule ret) (use open_handle len lt in simp_all)
  next
    case throws
    then show ?thesis using dp that(2) by (simp add: PschDsaResolveString_def)
  qed
qed

subsection \<open>The queue\<close>

definition live :: "PschSharedState \<Rightarrow> PschRingEntry list" where
  "live sh = ring_contents (capacity sh) (ring_buffer sh) (tail sh) (head sh)"

definition queue_inv :: "PschSharedState \<Rightarrow> bool" where
  "queue_inv sh \<longleftrightarrow>
     pow2_capacity (capacity sh) \<and> length (ring_buffer sh) = unat (capacity sh) \<and>
     unat (head sh - tail sh) \<le> unat (capacity sh) \<and> heap_inv sh (live sh) \<and>
     raw_dsa_area sh \<and> length (last_error_text sh) = 256"

definition abs_queue :: "PschSharedState \<Rightarrow> abs_event list" where
  "abs_queue sh = map (abs_slot sh) (live sh)"

definition queue_full :: "PschSharedState \<Rightarrow> bool" where
  "queue_full sh \<longleftrightarrow> ucast (capacity sh) \<le> head sh - tail sh"

lemma queue_full_iff:
  "queue_inv sh \<Longrightarrow> queue_full sh \<longleftrightarrow> length (abs_queue sh) = unat (capacity sh)"
  by (auto simp: queue_inv_def queue_full_def abs_queue_def live_def word_le_nat_alt)

lemma length_live [simp]: "length (live sh) = unat (head sh - tail sh)"
  by (simp add: live_def)

lemma pow2_capacity_bound: "pow2_capacity cap \<Longrightarrow> unat cap \<le> 2 ^ 31"
proof (erule pow2_capacityE)
  fix k assume "unat cap = 2 ^ k" "k < 32"
  then have "(2 :: nat) ^ k \<le> 2 ^ 31" by (intro power_increasing) simp_all
  with \<open>unat cap = 2 ^ k\<close> show ?thesis by simp
qed

lemma queue_not_fullD:
  assumes "queue_inv sh" "\<not> queue_full sh"
  shows "unat (head sh - tail sh) < unat (capacity sh)" "Suc (Suc (length (live sh))) < 2 ^ 32"
proof -
  show lt: "unat (head sh - tail sh) < unat (capacity sh)"
    using assms by (simp add: queue_full_def word_le_nat_alt)
  with assms(1) pow2_capacity_bound [of "capacity sh"] show "Suc (Suc (length (live sh))) < 2 ^ 32"
    by (simp add: queue_inv_def)
qed

text \<open>
  What the queue keeps of an event: everything but the texts, and each text cut to its
  maximum length. A text may be dropped, but only for want of memory or because the interner
  refused it; then it is empty, never someone else's.
\<close>

definition kept_err :: "PschEvent \<Rightarrow> char list" where
  "kept_err ev = take (PSCH_MAX_ERR_MSG_LEN - 1) (err_text ev)"

definition kept_query :: "PschEvent \<Rightarrow> char list" where
  "kept_query ev = take (PSCH_MAX_QUERY_LEN - 1) (query_text ev)"

definition event_key :: "pg_env \<Rightarrow> PschEvent \<Rightarrow> PschQueryInternKey" where
  "event_key env ev =
     \<lparr>key_dbid = dbid ev, key_queryid = queryid ev,
      key_query_hash = hash_any_extended env (kept_query ev),
      key_query_len = min (query_len ev) (of_nat (PSCH_MAX_QUERY_LEN - 1))\<rparr>"

definition query_refused :: "pg_env \<Rightarrow> PschSharedState \<Rightarrow> PschEvent \<Rightarrow> bool" where
  "query_refused env sh ev \<longleftrightarrow> intern_refused env sh (event_key env ev) (kept_query ev)"

text \<open>
  The error message is lost if the area cannot serve its bytes and the terminator; the query
  text if the interner refuses it, in the area as the error message has left it.
\<close>

definition err_lost :: "pg_env \<Rightarrow> PschSharedState \<Rightarrow> PschEvent \<Rightarrow> bool" where
  "err_lost env sh ev \<longleftrightarrow> dsa_exhausted env (dsa_area sh) (length (kept_err ev) + 1)"

definition err_area :: "pg_env \<Rightarrow> PschEvent \<Rightarrow> dsa_heap \<Rightarrow> dsa_heap" where
  "err_area env ev h =
     (let dp = dsa_allocate env h (length (kept_err ev) + 1)
      in if kept_err ev = [] \<or> dp = InvalidDsaPointer then h
         else h(dp \<mapsto> StrBody (kept_err ev @ [NUL])))"

definition query_lost :: "pg_env \<Rightarrow> PschSharedState \<Rightarrow> PschEvent \<Rightarrow> bool" where
  "query_lost env sh ev \<longleftrightarrow> query_refused env (sh\<lparr>dsa_area := err_area env ev (dsa_area sh)\<rparr>) ev"

definition stored_as :: "pg_env \<Rightarrow> PschSharedState \<Rightarrow> PschEvent \<Rightarrow> abs_event \<Rightarrow> bool" where
  "stored_as env sh ev a \<longleftrightarrow>
     (case a of (n, e, q) \<Rightarrow>
        n = numeric_part ev \<and>
        (e = kept_err ev \<or> e = [] \<and> err_lost env sh ev) \<and>
        (q = kept_query ev \<or> q = [] \<and> query_lost env sh ev))"

lemma kept_err_take:
  "event_shape ev \<Longrightarrow>
     kept_err ev = take (min (unat (err_message_len ev)) (PSCH_MAX_ERR_MSG_LEN - 1)) (err_message ev)"
  by (simp add: kept_err_def err_text_def min.commute)

lemma length_kept_err:
  "event_shape ev \<Longrightarrow> length (kept_err ev) = min (unat (err_message_len ev)) (PSCH_MAX_ERR_MSG_LEN - 1)"
  by (simp add: kept_err_take event_shape_def)

lemma kept_query_take:
  "kept_query ev = take (min (unat (query_len ev)) (PSCH_MAX_QUERY_LEN - 1)) (query ev)"
  by (simp add: kept_query_def query_text_def min.commute)

text \<open>What the steps of an enqueue leave alone: everything but the ring and the area.\<close>

definition same_outside_ring :: "PschSharedState \<Rightarrow> PschSharedState \<Rightarrow> bool" where
  "same_outside_ring sh sh' \<longleftrightarrow>
     queue_part (sh'\<lparr>ring_buffer := []\<rparr>) = queue_part (sh\<lparr>ring_buffer := []\<rparr>)"

lemma same_outside_ringD:
  assumes "same_outside_ring sh sh'"
  shows "lock sh' = lock sh" "raw_dsa_area sh' = raw_dsa_area sh" "capacity sh' = capacity sh"
    "head sh' = head sh" "tail sh' = tail sh" "enqueued sh' = enqueued sh" "dropped sh' = dropped sh"
    "exported sh' = exported sh" "overflow_logged sh' = overflow_logged sh"
    "last_error_text sh' = last_error_text sh" "server_log sh' = server_log sh"
    "send_failures sh' = send_failures sh" "last_success_ts sh' = last_success_ts sh"
    "last_error_ts sh' = last_error_ts sh" "bgworker_pid sh' = bgworker_pid sh"
  using assms by (cases sh; cases sh'; simp add: same_outside_ring_def queue_part_def)+

lemma queue_part_ring: "queue_part sh' = queue_part sh \<Longrightarrow> ring_buffer sh' = ring_buffer sh"
  by (cases sh; cases sh'; simp add: queue_part_def)

lemma queue_part_outside: "queue_part sh' = queue_part sh \<Longrightarrow> same_outside_ring sh sh'"
  by (cases sh; cases sh'; simp add: same_outside_ring_def queue_part_def)

lemma same_outside_ring_refl [simp]: "same_outside_ring sh sh"
  by (simp add: same_outside_ring_def)

lemma same_outside_ring_trans:
  "same_outside_ring a b \<Longrightarrow> same_outside_ring b c \<Longrightarrow> same_outside_ring a c"
  by (simp add: same_outside_ring_def)

lemma same_outside_ring_upd [simp]:
  "same_outside_ring sh (sh'\<lparr>ring_buffer := rb\<rparr>) = same_outside_ring sh sh'"
  by (simp add: same_outside_ring_def)

lemma store_err_spec:
  assumes fresh: "dsa_allocate_fresh env" and ev: "event_shape ev" and p: "proc_ready sh p"
    and inv: "heap_inv sh (b # L)" and b: "err_message_dsa b = InvalidDsaPointer" "err_message_len b = 0"
    and i: "i < length (ring_buffer sh)" "err_message_len (ring_buffer sh ! i) = err_message_len ev"
  obtains (ret) sh' p' dp n where "store_err env ev i (sh, p) = Some ((sh', p'), Ret ())" "same_proc p p'"
      "same_outside_ring sh sh'" "intern_tab sh' = intern_tab sh"
      "dp \<noteq> InvalidDsaPointer \<or> psch_dsa p \<Longrightarrow> psch_dsa p'"
      "ring_buffer sh' = (ring_buffer sh)
         [i := (ring_buffer sh ! i)\<lparr>err_message_dsa := dp, err_message_len := n\<rparr>]"
      "heap_inv sh' (b\<lparr>err_message_dsa := dp, err_message_len := n\<rparr> # L)"
      "\<And>x. x \<in> set L \<Longrightarrow> keeps_slot sh sh' x" "intern_body sh' = intern_body sh"
      "dsa_area sh' = err_area env ev (dsa_area sh)"
      "slot_err sh' (b\<lparr>err_message_dsa := dp, err_message_len := n\<rparr>) = kept_err ev \<or>
       slot_err sh' (b\<lparr>err_message_dsa := dp, err_message_len := n\<rparr>) = [] \<and> err_lost env sh ev"
  | (throws) "store_err env ev i (sh, p) = Some ((sh, p), Throw)" "\<not> psch_dsa p" "\<not> dsa_attach_ok env"
proof -
  have sp: "psch_shared_state p" "raw_dsa_area sh" using p by (simp_all add: proc_ready_def)
  have src: "min (unat (err_message_len ev)) (unat (of_nat PSCH_MAX_ERR_MSG_LEN :: u16) - 1)
      \<le> length (err_message ev)"
    using ev by (simp add: event_shape_def)
  have len: "min (unat (err_message_len ev)) (unat (of_nat PSCH_MAX_ERR_MSG_LEN :: u16) - 1)
      = length (kept_err ev)"
    using ev by (simp add: length_kept_err)
  have nil: "kept_err ev = [] \<longleftrightarrow> err_message_len ev = 0"
    unfolding length_0_conv [symmetric] length_kept_err [OF ev] by (auto simp: min_def unat_eq_0)
  show ?thesis
  proof (rule PschDsaAllocString_spec [OF fresh sp, of "of_nat PSCH_MAX_ERR_MSG_LEN" "err_message_len ev"
        "err_message ev", OF _ src], simp)
    fix n p' dp
    assume A: "PschDsaAllocString env (err_message ev) (err_message_len ev)
          (of_nat PSCH_MAX_ERR_MSG_LEN) (sh, p) =
        Some ((sh\<lparr>dsa_refcnt := n, dsa_area := (dsa_area sh)(dp \<mapsto> StrBody (take
          (min (unat (err_message_len ev)) (unat (of_nat PSCH_MAX_ERR_MSG_LEN :: u16) - 1))
          (err_message ev) @ [NUL]))\<rparr>, p'), Ret dp)"
      and sp': "same_proc p p'" and dp: "dp \<noteq> InvalidDsaPointer" "dsa_area sh dp = None"
      and open_dsa: "psch_dsa p'" and ne: "err_message_len ev \<noteq> 0"
      and dpa: "dp = dsa_allocate env (dsa_area sh) (min (unat (err_message_len ev))
          (unat (of_nat PSCH_MAX_ERR_MSG_LEN :: u16) - 1) + 1)"
    let ?sh = "sh\<lparr>dsa_refcnt := n, dsa_area := (dsa_area sh)(dp \<mapsto> StrBody (kept_err ev @ [NUL])),
        ring_buffer := (ring_buffer sh)[i := (ring_buffer sh ! i)\<lparr>err_message_dsa := dp,
          err_message_len := err_message_len ev\<rparr>]\<rparr>"
    let ?b = "b\<lparr>err_message_dsa := dp, err_message_len := err_message_len ev\<rparr>"
    have same: "(ring_buffer sh ! i)\<lparr>err_message_dsa := dp\<rparr> =
        (ring_buffer sh ! i)\<lparr>err_message_dsa := dp, err_message_len := err_message_len ev\<rparr>"
      unfolding i(2) [symmetric] by simp
    have "store_err env ev i (sh, p) = Some ((?sh, p'), Ret ())"
      using A dp(1) kept_err_take [OF ev] by (simp add: store_err_def upd_slot_def pg_ret_def same [symmetric])
    moreover have "heap_inv ?sh (?b # L)"
      by (rule heap_inv_alloc_err [OF inv b(1) dp, where s = "kept_err ev" and n = "err_message_len ev"])
        (use ev in \<open>simp_all add: kept_err_take event_shape_def\<close>)
    moreover have "keeps_slot sh ?sh x" if "x \<in> set L" for x
      using keeps_slot_fresh [OF inv, of x dp ?sh] that dp(2) by simp
    moreover have "intern_body ?sh = intern_body sh"
      using dp(2) by (intro ext) (auto simp: intern_body_def)
    moreover have "dsa_area ?sh = err_area env ev (dsa_area sh)"
      using dp(1) ne dpa unfolding len by (simp add: err_area_def nil Let_def)
    moreover have "slot_err ?sh ?b = kept_err ev" using dp by (simp add: slot_err_def)
    ultimately show ?thesis
      by (intro ret [where sh' = ?sh and p' = p' and dp = dp and n = "err_message_len ev"]) (simp_all only: sp' open_dsa same_outside_ring_def simp_thms, simp_all add: queue_part_def)
  next
    fix n p' m
    assume A: "PschDsaAllocString env (err_message ev) (err_message_len ev)
          (of_nat PSCH_MAX_ERR_MSG_LEN) (sh, p) =
        Some ((sh\<lparr>dsa_refcnt := n, dsa_oom_count := m\<rparr>, p'), Ret InvalidDsaPointer)"
      and sp': "same_proc p p'" and pd: "psch_dsa p \<Longrightarrow> psch_dsa p'"
      and ex0: "err_message_len ev \<noteq> 0 \<Longrightarrow> dsa_exhausted env (dsa_area sh)
          (min (unat (err_message_len ev)) (unat (of_nat PSCH_MAX_ERR_MSG_LEN :: u16) - 1) + 1)"
    have ex: "err_message_len ev \<noteq> 0 \<Longrightarrow> err_lost env sh ev"
      using ex0 unfolding len by (simp add: err_lost_def)
    have ar: "err_area env ev (dsa_area sh) = dsa_area sh"
      using ex by (auto simp: err_area_def err_lost_def dsa_exhausted_def nil Let_def)
    let ?sh = "sh\<lparr>dsa_refcnt := n, dsa_oom_count := m,
        ring_buffer := (ring_buffer sh)[i := (ring_buffer sh ! i)
          \<lparr>err_message_dsa := InvalidDsaPointer, err_message_len := 0\<rparr>]\<rparr>"
    let ?b = "b\<lparr>err_message_dsa := InvalidDsaPointer, err_message_len := 0\<rparr>"
    have bb: "?b = b" using b by simp
    have same: "(ring_buffer sh ! i)\<lparr>err_message_dsa := InvalidDsaPointer\<rparr> =
        (ring_buffer sh ! i)\<lparr>err_message_dsa := InvalidDsaPointer, err_message_len := 0\<rparr>"
      if "err_message_len ev = 0"
      using i(2) that by simp
    have "store_err env ev i (sh, p) = Some ((?sh, p'), Ret ())"
    proof (cases "err_message_len ev = 0")
      case True
      with A show ?thesis
        by (simp add: store_err_def upd_slot_def pg_ret_def same [OF True, symmetric])
    next
      case False
      with A i(1) show ?thesis by (simp add: store_err_def upd_slot_def pg_ret_def word_gt_0)
    qed
    moreover have "heap_inv ?sh (?b # L)"
      unfolding bb using inv heap_inv_cong [of ?sh sh] by simp
    moreover have "keeps_slot sh ?sh x" for x by (simp add: keeps_slot_def)
    moreover have "intern_body ?sh = intern_body sh" by (rule intern_body_cong) simp
    moreover have "slot_err ?sh ?b = kept_err ev \<or> slot_err ?sh ?b = [] \<and> err_lost env sh ev"
      using ex by (cases "err_message_len ev = 0") (simp_all add: slot_err_def kept_err_def err_text_def)
    ultimately show ?thesis
      by (intro ret [where sh' = ?sh and p' = p' and dp = InvalidDsaPointer and n = 0]) (simp_all add: sp' pd ar same_outside_ring_def queue_part_def)
  next
    assume "PschDsaAllocString env (err_message ev) (err_message_len ev)
        (of_nat PSCH_MAX_ERR_MSG_LEN) (sh, p) = Some ((sh, p), Throw)" "\<not> psch_dsa p" "\<not> dsa_attach_ok env"
    then show ?thesis by (intro throws) (simp_all add: store_err_def)
  qed
qed

lemma store_query_spec:
  assumes fresh: "dsa_allocate_fresh env" and ev: "event_shape ev" and p: "proc_ready sh p"
    and inv: "heap_inv sh (b # L)" and b: "query_dsa b = InvalidDsaPointer" "query_len b = 0"
    and i: "i < length (ring_buffer sh)" "query_len (ring_buffer sh ! i) = query_len ev"
    and sz: "Suc (length L) < 2 ^ 32"
  obtains (ret) sh' p' dp n where "store_query env ev i (sh, p) = Some ((sh', p'), Ret ())" "same_proc p p'"
      "same_outside_ring sh sh'"
      "ring_buffer sh' = (ring_buffer sh)[i := (ring_buffer sh ! i)\<lparr>query_dsa := dp, query_len := n\<rparr>]"
      "heap_inv sh' (b\<lparr>query_dsa := dp, query_len := n\<rparr> # L)"
      "\<And>x. x \<in> set (b # L) \<Longrightarrow> keeps_slot sh sh' x"
      "slot_query sh' (b\<lparr>query_dsa := dp, query_len := n\<rparr>) = kept_query ev \<or>
       slot_query sh' (b\<lparr>query_dsa := dp, query_len := n\<rparr>) = [] \<and> query_refused env sh ev"
  | (throws) "store_query env ev i (sh, p) = Some ((sh, p), Throw)" "\<not> psch_dsa p" "\<not> dsa_attach_ok env"
proof (cases "query_len ev = 0")
  case True
  let ?sh = "sh\<lparr>ring_buffer := (ring_buffer sh)[i := (ring_buffer sh ! i)
      \<lparr>query_dsa := InvalidDsaPointer, query_len := 0\<rparr>]\<rparr>"
  have "(ring_buffer sh ! i)\<lparr>query_dsa := InvalidDsaPointer, query_len := 0\<rparr>
      = (ring_buffer sh ! i)\<lparr>query_dsa := InvalidDsaPointer\<rparr>"
    using i(2) True by simp
  then have "store_query env ev i (sh, p) = Some ((?sh, p), Ret ())"
    using True by (simp add: store_query_def upd_slot_def pg_ret_def)
  moreover have "b\<lparr>query_dsa := InvalidDsaPointer, query_len := 0\<rparr> = b" using b by simp
  moreover have "heap_inv ?sh (b # L)" using inv heap_inv_cong [of ?sh sh] by simp
  moreover have "slot_query ?sh b = kept_query ev"
    using b True by (simp add: slot_query_def kept_query_def query_text_def)
  ultimately show ?thesis
    by (intro ret [where sh' = ?sh and p' = p and dp = InvalidDsaPointer and n = 0])
      (simp_all add: keeps_slot_def)
next
  case False
  let ?len = "min (query_len ev) (of_nat (PSCH_MAX_QUERY_LEN - 1))"
  have ul: "unat ?len = min (unat (query_len ev)) (PSCH_MAX_QUERY_LEN - 1)"
    by (simp add: unat_min_word)
  have "0 < unat ?len" using False by (simp add: unat_min_word unat_gt_0)
  then have nz: "?len \<noteq> 0" by auto
  have len: "unat ?len \<le> length (query ev)" using ev ul by (simp add: event_shape_def)
  have qtext: "take (unat ?len) (query ev) = kept_query ev" unfolding ul kept_query_take by simp
  have klen: "length (kept_query ev) \<le> PSCH_MAX_QUERY_LEN - 1" by (simp add: kept_query_def)
  have inv1: "intern_inv sh (query_refs L) {}" using heap_invD(1) [OF inv] b by simp
  have "Suc (size (query_refs L)) < 2 ^ 32" using size_query_refs [of L] sz by linarith
  then show ?thesis
  proof (rule PschQueryInternAcquire_spec [OF inv1 _ fresh len p, of "dbid ev" "queryid ev"])
    fix sh1 p' r k
    assume A: "PschQueryInternAcquire env (dbid ev) (queryid ev) (query ev) ?len (sh, p) = Some ((sh1, p'), Ret r)"
      and sp': "same_proc p p'" and acq: "acquired k (take (unat ?len) (query ev)) (query_refs L) {} sh sh1 r"
      and k: "key_query_len k = ?len"
        and key: "MakeKey env (dbid ev) (queryid ev) (query ev) ?len = Some k"
      and ref: "?len \<noteq> 0 \<Longrightarrow> r = InvalidDsaPointer \<Longrightarrow> intern_refused env sh k (take (unat ?len) (query ev))"
    let ?n = "if r = InvalidDsaPointer then 0 else ?len"
    let ?b = "b\<lparr>query_dsa := r, query_len := ?n\<rparr>"
    let ?sh = "sh1\<lparr>ring_buffer := (ring_buffer sh)[i := (ring_buffer sh ! i)\<lparr>query_dsa := r, query_len := ?n\<rparr>]\<rparr>"
    have acq': "acquired k (kept_query ev) (query_refs L) {} sh sh1 r" using acq qtext by simp
    have ek: "k = event_key env ev"
      using key len qtext by (auto simp: MakeKey_def event_key_def)
    have qp: "queue_part sh1 = queue_part sh" using acq by (simp add: acquired_def intern_frame_def)
    have "store_query env ev i (sh, p) = Some ((?sh, p'), Ret ())"
      using A False i(1) queue_part_ring [OF qp]
      by (simp add: store_query_def upd_slot_def pg_ret_def Let_def word_gt_0)
    moreover have "heap_inv ?sh (?b # L)"
      using heap_inv_acquired(1) [OF inv b(1) acq' klen, of ?b] k heap_inv_cong [of ?sh sh1] by simp
    moreover have "keeps_slot sh ?sh x" if "x \<in> set (b # L)" for x
      using heap_inv_acquired(2) [OF inv b(1) acq' klen refl that] by (simp add: keeps_slot_def)
    moreover have "slot_query ?sh ?b = kept_query ev \<or> slot_query ?sh ?b = [] \<and> query_refused env sh ev"
      using acq' ref [OF nz] qtext ek
      by (auto simp: slot_query_def acquired_def intern_body_def query_refused_def)
    ultimately show ?thesis
      by (intro ret [where sh' = ?sh and p' = p' and dp = r and n = ?n])
        (simp_all add: sp' queue_part_outside [OF qp])
  next
    assume "PschQueryInternAcquire env (dbid ev) (queryid ev) (query ev) ?len (sh, p) = Some ((sh, p), Throw)"
      "\<not> psch_dsa p" "\<not> dsa_attach_ok env"
    then show ?thesis using False by (intro throws) (simp_all add: store_query_def word_gt_0)
  qed
qed

lemma heap_inv_unblank:
  assumes "heap_inv sh (e # L)" "err_message_dsa e = InvalidDsaPointer" "query_dsa e = InvalidDsaPointer"
  shows "heap_inv sh L"
  using assms by (auto simp: heap_inv_def)

lemma slot_text_update [simp]:
  "slot_err sh (e\<lparr>query_dsa := d\<rparr>) = slot_err sh e"
  "slot_err sh (e\<lparr>query_len := n\<rparr>) = slot_err sh e"
  "slot_query sh (e\<lparr>err_message_dsa := d\<rparr>) = slot_query sh e"
  "slot_query sh (e\<lparr>err_message_len := n\<rparr>) = slot_query sh e"
  by (simp_all add: slot_err_def slot_query_def)

text \<open>Publishing the slot at \<^verbatim>\<open>head\<close>, once the area is consistent with it.\<close>

lemma queue_inv_publish:
  assumes inv: "queue_inv sh" and nf: "\<not> queue_full sh" and out: "same_outside_ring sh sh'"
    and ring: "ring_buffer sh' = (ring_buffer sh)[ring_index (capacity sh) (head sh) := x]"
    and heap: "heap_inv sh' (x # live sh)" and keep: "\<And>e. e \<in> set (live sh) \<Longrightarrow> keeps_slot sh sh' e"
  shows "queue_inv (sh'\<lparr>head := head sh + 1, enqueued := n\<rparr>)"
    and "abs_queue (sh'\<lparr>head := head sh + 1, enqueued := n\<rparr>) = abs_queue sh @ [abs_slot sh' x]"
proof -
  let ?sh = "sh'\<lparr>head := head sh + 1, enqueued := n\<rparr>"
  note out = same_outside_ringD [OF out]
  have c: "pow2_capacity (capacity sh)" "length (ring_buffer sh) = unat (capacity sh)"
    using inv by (simp_all add: queue_inv_def)
  have lt: "unat (head sh - tail sh) < unat (capacity sh)" using queue_not_fullD [OF inv nf] by simp
  have live: "live ?sh = live sh @ [x]"
    using ring_contents_publish [OF c lt, of x] ring out by (simp add: live_def)
  have "heap_inv ?sh (live ?sh)"
    unfolding live heap_inv_rotate using heap heap_inv_cong [of ?sh sh'] by simp
  then show "queue_inv ?sh"
    using inv lt unat_diff_Suc [OF lt c(1)] ring out by (simp add: queue_inv_def)
  have "abs_slot ?sh = abs_slot sh'" by (rule abs_slot_cong) simp
  then show "abs_queue ?sh = abs_queue sh @ [abs_slot sh' x]"
    using keeps_slotD(1) [OF keep] by (simp add: abs_queue_def live)
qed

text \<open>Writing the slot at \<^verbatim>\<open>head\<close> without publishing it leaves the queue as it is.\<close>

lemma queue_inv_unpublished:
  assumes inv: "queue_inv sh" and nf: "\<not> queue_full sh" and out: "same_outside_ring sh sh'"
    and ring: "ring_buffer sh' = (ring_buffer sh)[ring_index (capacity sh) (head sh) := x]"
    and heap: "heap_inv sh' (live sh)" and keep: "\<And>e. e \<in> set (live sh) \<Longrightarrow> keeps_slot sh sh' e"
  shows "queue_inv sh'" and "abs_queue sh' = abs_queue sh"
proof -
  note out = same_outside_ringD [OF out]
  have c: "pow2_capacity (capacity sh)" "length (ring_buffer sh) = unat (capacity sh)"
    using inv by (simp_all add: queue_inv_def)
  have lt: "unat (head sh - tail sh) < unat (capacity sh)" using queue_not_fullD [OF inv nf] by simp
  have live: "live sh' = live sh"
    using ring_contents_write_head [OF c lt, of x] ring out by (simp add: live_def)
  with heap show "queue_inv sh'" using inv ring out by (simp add: queue_inv_def)
  show "abs_queue sh' = abs_queue sh"
    using keeps_slotD(1) [OF keep] by (simp add: abs_queue_def live)
qed

text \<open>
  \<open>n\<close> overflows in a row under the guard: \<open>n\<close> events are counted as dropped, at most one warning
  is logged, and the log hook is not re-entered.
\<close>

definition overflowed :: "nat \<Rightarrow> PschSharedState \<Rightarrow> bool \<Rightarrow> PschSharedState" where
  "overflowed n sh guard =
     (if n = 0 then sh
      else sh\<lparr>dropped := dropped sh + of_nat n, overflow_logged := True,
              server_log := server_log sh @
                (if overflow_logged sh then [] else [(OverflowWarning, guard)])\<rparr>)"

lemma HandleOverflow_guarded:
  "disable_error_capture p \<Longrightarrow> HandleOverflow env (sh, p) = Some (overflowed 1 sh True, p)"
  by (cases sh) (simp add: HandleOverflow_def ereport_log_def server_log_write_def overflowed_def Let_def)

lemma overflowed_Suc: "overflowed (Suc n) sh guard = overflowed n (overflowed 1 sh guard) guard"
  by (simp add: overflowed_def add.assoc)

lemma overflow_loop_guarded:
  "disable_error_capture p \<Longrightarrow> overflow_loop env n (sh, p) = Some (overflowed n sh True, p)"
proof (induction n arbitrary: sh)
  case 0
  then show ?case by (simp add: overflowed_def)
next
  case (Suc n)
  then show ?case by (simp add: HandleOverflow_guarded overflowed_Suc [of n])
qed

lemma TryEnqueueLocked_full:
  assumes "queue_full sh \<or> psch_debug_force_locked_overflow g" "disable_error_capture p"
  shows "TryEnqueueLocked g env ev (capacity sh) (sh, p) = Some ((overflowed 1 sh True, p), Ret False)"
  using assms by (auto simp: TryEnqueueLocked_def queue_full_def HandleOverflow_guarded)

lemma query_refused_lost:
  assumes "query_refused env sh' ev" "intern_tab sh' = intern_tab sh"
    "dsa_area sh' = err_area env ev (dsa_area sh)"
  shows "query_lost env sh ev"
  using assms intern_body_cong [of sh' "sh\<lparr>dsa_area := err_area env ev (dsa_area sh)\<rparr>"]
  by (simp add: query_refused_def query_lost_def intern_refused_def key_collision_def)

lemma stored_as_cong:
  assumes "dsa_area sh' = dsa_area sh" "intern_tab sh' = intern_tab sh"
  shows "stored_as env sh' ev a = stored_as env sh ev a"
  using intern_body_cong [of "sh'\<lparr>dsa_area := err_area env ev (dsa_area sh)\<rparr>"
      "sh\<lparr>dsa_area := err_area env ev (dsa_area sh)\<rparr>"]
  by (simp add: stored_as_def query_lost_def query_refused_def intern_refused_def key_collision_def
      err_lost_def assms)

lemma TryEnqueueLocked_spec:
  assumes inv: "queue_inv sh" and fresh: "dsa_allocate_fresh env" and ev: "event_shape ev"
    and p: "proc_ready sh p" and nf: "\<not> queue_full sh" "\<not> psch_debug_force_locked_overflow g"
  obtains (ret) sh' p' a where
      "TryEnqueueLocked g env ev (capacity sh) (sh, p) = Some ((sh', p'), Ret True)"
      "same_proc p p'" "queue_inv sh'" "abs_queue sh' = abs_queue sh @ [a]" "stored_as env sh ev a"
      "same_outside_ring (sh\<lparr>head := head sh + 1, enqueued := enqueued sh + 1\<rparr>) sh'"
  | (throws) sh' p' where
      "TryEnqueueLocked g env ev (capacity sh) (sh, p) = Some ((sh', p'), Throw)"
      "same_proc p p'" "queue_inv sh'" "abs_queue sh' = abs_queue sh" "same_outside_ring sh sh'"
      "\<not> psch_dsa p" "\<not> dsa_attach_ok env"
proof -
  let ?i = "ring_index (capacity sh) (head sh)"
  have i: "?i < length (ring_buffer sh)"
    using inv by (auto simp: queue_inv_def intro: ring_index_less)
  let ?s = "copy_prefix_to_slot ev (ring_buffer sh ! ?i)"
  let ?sh0 = "sh\<lparr>ring_buffer := (ring_buffer sh)[?i := ?s]\<rparr>"
  let ?b = "?s\<lparr>err_message_dsa := InvalidDsaPointer, err_message_len := 0,
               query_dsa := InvalidDsaPointer, query_len := 0\<rparr>"
  have heap: "heap_inv sh (live sh)" using inv by (simp add: queue_inv_def)
  have heap0: "heap_inv ?sh0 (?b # live sh)"
    by (rule heap_inv_blank) (use heap heap_inv_cong [of ?sh0 sh] in simp_all)
  have p0: "proc_ready ?sh0 p" using p by (simp add: proc_ready_def)
  have try_def: "TryEnqueueLocked g env ev (capacity sh) (sh, p) =
      pg_bind (store_err env ev ?i (?sh0, p)) (\<lambda>w _. pg_bind (store_query env ev ?i w)
        (\<lambda>(sh1, p) _. pg_ret (sh1\<lparr>head := head sh + 1, enqueued := enqueued sh1 + 1\<rparr>, p) True))"
    using nf i by (simp add: TryEnqueueLocked_def queue_full_def upd_slot_def Let_def)
  have keep0: "keeps_slot sh ?sh0 e" for e by (simp add: keeps_slot_def)
  show ?thesis
  proof (rule store_err_spec [OF fresh ev p0 heap0, of ?i])
    fix sh1 p1 dp n
    assume E: "store_err env ev ?i (?sh0, p) = Some ((sh1, p1), Ret ())" "same_proc p p1"
        "same_outside_ring ?sh0 sh1" "intern_tab sh1 = intern_tab ?sh0"
        "dp \<noteq> InvalidDsaPointer \<or> psch_dsa p \<Longrightarrow> psch_dsa p1"
        "ring_buffer sh1 = (ring_buffer ?sh0)
           [?i := (ring_buffer ?sh0 ! ?i)\<lparr>err_message_dsa := dp, err_message_len := n\<rparr>]"
        "heap_inv sh1 (?b\<lparr>err_message_dsa := dp, err_message_len := n\<rparr> # live sh)"
        "\<And>x. x \<in> set (live sh) \<Longrightarrow> keeps_slot ?sh0 sh1 x" "intern_body sh1 = intern_body ?sh0"
        "dsa_area sh1 = err_area env ev (dsa_area ?sh0)"
        "slot_err sh1 (?b\<lparr>err_message_dsa := dp, err_message_len := n\<rparr>) = kept_err ev \<or>
         slot_err sh1 (?b\<lparr>err_message_dsa := dp, err_message_len := n\<rparr>) = [] \<and> err_lost env ?sh0 ev"
    let ?b1 = "?b\<lparr>err_message_dsa := dp, err_message_len := n\<rparr>"
    let ?s1 = "?s\<lparr>err_message_dsa := dp, err_message_len := n\<rparr>"
    have ring1: "ring_buffer sh1 = (ring_buffer sh)[?i := ?s1]" using E(6) i by simp
    have out1: "same_outside_ring sh sh1"
      using E(3) by (simp add: same_outside_ring_def)
    have p1: "proc_ready sh1 p1"
      using p same_outside_ringD(2) [OF out1] same_procD [OF E(2)] by (simp add: proc_ready_def)
    have keep1: "keeps_slot sh sh1 x" if "x \<in> set (live sh)" for x
      using E(8) [OF that] by (simp add: keeps_slot_def)
    have sz: "Suc (length (live sh)) < 2 ^ 32" using queue_not_fullD(2) [OF inv nf(1)] by simp
    show ?thesis
    proof (rule store_query_spec [OF fresh ev p1 E(7), of ?i])
      fix sh2 p2 r m
      assume Q: "store_query env ev ?i (sh1, p1) = Some ((sh2, p2), Ret ())" "same_proc p1 p2"
          "same_outside_ring sh1 sh2"
          "ring_buffer sh2 = (ring_buffer sh1)[?i := (ring_buffer sh1 ! ?i)\<lparr>query_dsa := r, query_len := m\<rparr>]"
          "heap_inv sh2 (?b1\<lparr>query_dsa := r, query_len := m\<rparr> # live sh)"
          "\<And>x. x \<in> set (?b1 # live sh) \<Longrightarrow> keeps_slot sh1 sh2 x"
          "slot_query sh2 (?b1\<lparr>query_dsa := r, query_len := m\<rparr>) = kept_query ev \<or>
           slot_query sh2 (?b1\<lparr>query_dsa := r, query_len := m\<rparr>) = [] \<and> query_refused env sh1 ev"
      let ?x = "?s1\<lparr>query_dsa := r, query_len := m\<rparr>"
      have x: "?b1\<lparr>query_dsa := r, query_len := m\<rparr> = ?x" by simp
      have ring2: "ring_buffer sh2 = (ring_buffer sh)[?i := ?x]" using Q(4) ring1 i by simp
      have out2: "same_outside_ring sh sh2" by (rule same_outside_ring_trans [OF out1 Q(3)])
      have keep2: "keeps_slot sh sh2 e" if "e \<in> set (live sh)" for e
        using keep1 [OF that] Q(6) [of e] that by (simp add: keeps_slot_def)
      note pub = queue_inv_publish [OF inv nf(1) out2 ring2 Q(5) [unfolded x] keep2,
          of "enqueued sh + 1"]
      have "slot_err sh2 ?b1 = slot_err sh1 ?b1"
        using keeps_slotD(1) [OF Q(6) [of ?b1]] by (simp add: abs_slot_def)
      moreover have "slot_err sh2 ?x = slot_err sh2 ?b1" by (simp add: slot_err_def)
      ultimately have "slot_err sh2 ?x = kept_err ev \<or> slot_err sh2 ?x = [] \<and> err_lost env sh ev"
        using E(11) by (simp add: err_lost_def)
      moreover have "slot_query sh2 ?x = kept_query ev \<or> slot_query sh2 ?x = [] \<and> query_lost env sh ev"
        using Q(7) query_refused_lost [of env sh1 ev sh] E(4,10) unfolding x by auto
      ultimately have st: "stored_as env sh ev (abs_slot sh2 ?x)"
        by (simp add: stored_as_def abs_slot_def)
      have "TryEnqueueLocked g env ev (capacity sh) (sh, p) =
          Some ((sh2\<lparr>head := head sh + 1, enqueued := enqueued sh + 1\<rparr>, p2), Ret True)"
        using E(1) Q(1) same_outside_ringD(6) [OF out2] by (simp add: try_def pg_ret_def)
      moreover have "same_outside_ring (sh\<lparr>head := head sh + 1, enqueued := enqueued sh + 1\<rparr>)
          (sh2\<lparr>head := head sh + 1, enqueued := enqueued sh + 1\<rparr>)"
        using out2 by (cases sh; cases sh2; simp add: same_outside_ring_def queue_part_def)
      ultimately show ?thesis
        using pub st same_proc_trans [OF E(2) Q(2)] by (intro ret) simp_all
    next
      assume T: "store_query env ev ?i (sh1, p1) = Some ((sh1, p1), Throw)" "\<not> psch_dsa p1"
        "\<not> dsa_attach_ok env"
      have dp: "dp = InvalidDsaPointer" using E(5) T(2) by blast
      have "heap_inv sh1 (live sh)" by (rule heap_inv_unblank [OF E(7)]) (simp_all add: dp)
      note un = queue_inv_unpublished [OF inv nf(1) out1 ring1 this keep1]
      have "\<not> psch_dsa p" using E(5) T(2) by blast
      then show ?thesis
        using un T E(1,2) out1 by (intro throws [of sh1 p1]) (simp_all add: try_def)
    qed (use i sz ring1 in simp_all)
  next
    assume T: "store_err env ev ?i (?sh0, p) = Some ((?sh0, p), Throw)" "\<not> psch_dsa p" "\<not> dsa_attach_ok env"
    have "heap_inv ?sh0 (live sh)" using heap heap_inv_cong [of ?sh0 sh] by simp
    note un = queue_inv_unpublished [OF inv nf(1) _ _ this keep0, simplified]
    then show ?thesis
      using T by (intro throws [of ?sh0 p]) (simp_all add: try_def same_outside_ring_def)
  qed (use i in simp_all)
qed

subsection \<open>Dequeue\<close>

text \<open>The event that a consumer holds after a dequeue, and its array bounds.\<close>

definition out_event :: "PschEvent \<Rightarrow> abs_event" where
  "out_event ev = (numeric_part ev, err_text ev, query_text ev)"

definition event_bufs :: "PschEvent \<Rightarrow> bool" where
  "event_bufs ev \<longleftrightarrow>
     length (err_message ev) = PSCH_MAX_ERR_MSG_LEN \<and> length (query ev) = PSCH_MAX_QUERY_LEN"

lemma event_shape_bufs: "event_shape ev \<Longrightarrow> event_bufs ev"
  by (simp add: event_shape_def event_bufs_def)

lemma proc_ready_cong:
  assumes "queue_part sh' = queue_part sh" "same_proc p p'" "proc_ready sh p"
  shows "proc_ready sh' p'"
  using proc_ready_queue_part [OF assms(1,2)] assms(3) by simp

lemma resolve_err_spec:
  assumes inv: "heap_inv sh (e # L)" and p: "proc_ready sh p" and buf: "length buf = PSCH_MAX_ERR_MSG_LEN"
  obtains (ret) sh' p' buf' len where
      "PschDsaResolveString env (err_message_dsa e) (err_message_len e) buf (of_nat PSCH_MAX_ERR_MSG_LEN)
         (sh, p) = Some ((sh', p'), Ret (buf', len))"
      "same_proc p p'" "psch_dsa p' \<or> sh' = sh \<and> p' = p" "queue_part sh' = queue_part sh"
      "heap_inv sh' (e\<lparr>err_message_dsa := InvalidDsaPointer, err_message_len := 0\<rparr> # L)"
      "\<And>x. x \<in> set L \<Longrightarrow> keeps_slot sh sh' x"
      "slot_query sh' e = slot_query sh e"
      "take (unat len) buf' = slot_err sh e" "length buf' = length buf" "buf' ! unat len = NUL"
      "unat len = length (slot_err sh e)"
  | (throws) "PschDsaResolveString env (err_message_dsa e) (err_message_len e) buf
         (of_nat PSCH_MAX_ERR_MSG_LEN) (sh, p) = Some ((sh, p), Throw)" "\<not> psch_dsa p" "\<not> dsa_attach_ok env"
proof (cases "err_message_dsa e = InvalidDsaPointer")
  case True
  then have "err_message_len e = 0" using heap_invD(4) [OF inv, of e] by (simp add: err_ok_def)
  with True have "e\<lparr>err_message_dsa := InvalidDsaPointer, err_message_len := 0\<rparr> = e" by simp
  with True buf inv show ?thesis
    by (intro ret [where sh' = sh and p' = p and buf' = "buf[0 := NUL]" and len = 0])
      (simp_all add: PschDsaResolveString_def pg_ret_def keeps_slot_def slot_err_def)
next
  case False
  have ok: "err_ok sh e" using heap_invD(4) [OF inv] by simp
  have sp: "psch_shared_state p" "raw_dsa_area sh" using p by (simp_all add: proc_ready_def)
  have len: "length (slot_err sh e) = min (unat (err_message_len e)) (unat (of_nat PSCH_MAX_ERR_MSG_LEN :: u16) - 1)"
    using err_okD(2) [OF ok False] by simp
  show ?thesis
  proof (rule PschDsaResolveString_spec [OF sp False err_okD(1) [OF ok False] len, of buf])
    fix n p' buf' l
    assume R: "PschDsaResolveString env (err_message_dsa e) (err_message_len e) buf
          (of_nat PSCH_MAX_ERR_MSG_LEN) (sh, p) =
          Some ((sh\<lparr>dsa_refcnt := n, dsa_area := (dsa_area sh)(err_message_dsa e := None)\<rparr>, p'), Ret (buf', l))"
      "same_proc p p'" "psch_dsa p'" "unat l = length (slot_err sh e)"
      "take (length (slot_err sh e)) buf' = slot_err sh e" "length buf' = length buf"
      "buf' ! length (slot_err sh e) = NUL"
    let ?sh = "sh\<lparr>dsa_refcnt := n, dsa_area := (dsa_area sh)(err_message_dsa e := None)\<rparr>"
    have area: "dsa_area ?sh = (dsa_area sh)(err_message_dsa e := None)" "intern_tab ?sh = intern_tab sh"
      by simp_all
    note free = heap_inv_free_err [OF inv refl False area refl]
    show ?thesis
      by (rule ret [OF R(1,2)]) (use R free in simp_all)
  next
    assume "PschDsaResolveString env (err_message_dsa e) (err_message_len e) buf
        (of_nat PSCH_MAX_ERR_MSG_LEN) (sh, p) = Some ((sh, p), Throw)" "\<not> psch_dsa p" "\<not> dsa_attach_ok env"
    then show ?thesis by (rule throws)
  qed (use buf in simp_all)
qed

lemma resolve_query_spec:
  assumes inv: "heap_inv sh (e # L)" and e: "err_message_dsa e = InvalidDsaPointer"
    and p: "proc_ready sh p" and buf: "length buf = PSCH_MAX_QUERY_LEN"
  obtains (ret) sh' p' buf' len where
      "PschQueryInternResolveAndRelease env (query_dsa e) (Some buf) (of_nat PSCH_MAX_QUERY_LEN) (Some m)
         (sh, p) = Some ((sh', p'), Ret (Some buf', Some len))"
      "same_proc p p'" "queue_part sh' = queue_part sh" "heap_inv sh' L"
      "\<And>x. x \<in> set L \<Longrightarrow> keeps_slot sh sh' x"
      "take (unat len) buf' = slot_query sh e" "length buf' = length buf" "buf' ! unat len = NUL"
      "unat len = length (slot_query sh e)"
  | (throws) "PschQueryInternResolveAndRelease env (query_dsa e) (Some buf) (of_nat PSCH_MAX_QUERY_LEN)
         (Some m) (sh, p) = Some ((sh, p), Throw)" "\<not> psch_dsa p" "\<not> dsa_attach_ok env"
proof (cases "query_dsa e = InvalidDsaPointer")
  case True
  have "heap_inv sh L" by (rule heap_inv_unblank [OF inv e True])
  with True buf show ?thesis
    by (intro ret [where sh' = sh and p' = p and buf' = "buf[0 := NUL]" and len = 0])
      (simp_all add: PschQueryInternResolveAndRelease_def ResolveInto_def ReleaseRef_def pg_ret_def
        keeps_slot_def slot_query_def Let_def)
next
  case False
  have "query_ok sh e" using heap_invD(5) [OF inv] by simp
  then obtain k where b: "intern_body sh (query_dsa e) k (slot_query sh e)"
      and len: "length (slot_query sh e) \<le> PSCH_MAX_QUERY_LEN - 1"
    by (rule query_okD [OF _ False])
  have iv: "intern_inv sh (add_mset (query_dsa e) (query_refs L)) {}"
    using heap_invD(1) [OF inv] False by simp
  show ?thesis
  proof (rule PschQueryInternResolveAndRelease_spec [OF iv b p, of "of_nat PSCH_MAX_QUERY_LEN" buf env m])
    fix sh' p' buf' n
    assume R: "PschQueryInternResolveAndRelease env (query_dsa e) (Some buf) (of_nat PSCH_MAX_QUERY_LEN)
          (Some m) (sh, p) = Some ((sh', p'), Ret (Some buf', Some n))"
      "same_proc p p'" "intern_inv sh' (query_refs L) {}" "intern_frame (query_refs L) sh sh'"
      "unat n = min (length (slot_query sh e)) (unat (of_nat PSCH_MAX_QUERY_LEN :: u16) - 1)"
      "take (unat n) buf' = take (unat n) (slot_query sh e)" "length buf' = length buf" "buf' ! unat n = NUL"
    have n: "unat n = length (slot_query sh e)" using R(5) len by simp
    note rel = heap_inv_released [OF inv e R(3,4)]
    show ?thesis
      by (rule ret [OF R(1,2)]) (use R rel n in \<open>simp_all add: intern_frame_def\<close>)
  next
    assume "PschQueryInternResolveAndRelease env (query_dsa e) (Some buf) (of_nat PSCH_MAX_QUERY_LEN)
        (Some m) (sh, p) = Some ((sh, p), Throw)" "\<not> psch_dsa p" "\<not> dsa_attach_ok env"
    then show ?thesis by (rule throws)
  qed (use buf in simp_all)
qed

lemma PschDequeueEvent_empty:
  "psch_shared_state p \<Longrightarrow> head sh = tail sh \<Longrightarrow>
     PschDequeueEvent env ev (sh, p) = Some ((sh, p), Ret (False, ev))"
  by (simp add: PschDequeueEvent_def pg_ret_def)

lemma PschDequeueEvent_spec:
  assumes inv: "queue_inv sh" and ev: "event_bufs ev" and p: "proc_ready sh p" and ne: "head sh \<noteq> tail sh"
  obtains (ret) sh' p' ev' where
      "PschDequeueEvent env ev (sh, p) = Some ((sh', p'), Ret (True, ev'))" "same_proc p p'"
      "queue_inv sh'" "abs_queue sh = out_event ev' # abs_queue sh'" "event_bufs ev'"
      "queue_part sh' = queue_part (sh\<lparr>tail := tail sh + 1\<rparr>)"
  | (throws) "PschDequeueEvent env ev (sh, p) = Some ((sh, p), Throw)" "\<not> psch_dsa p" "\<not> dsa_attach_ok env"
proof -
  let ?i = "ring_index (capacity sh) (tail sh)"
  let ?e = "ring_buffer sh ! ?i"
  let ?L = "ring_contents (capacity sh) (ring_buffer sh) (tail sh + 1) (head sh)"
  have i: "?i < length (ring_buffer sh)"
    using inv by (auto simp: queue_inv_def intro: ring_index_less)
  have live: "live sh = ?e # ?L" unfolding live_def by (rule ring_contents_retire [OF ne])
  have heap: "heap_inv sh (?e # ?L)" using inv live by (simp add: queue_inv_def)
  have bufs: "length (err_message ev) = PSCH_MAX_ERR_MSG_LEN" "length (query ev) = PSCH_MAX_QUERY_LEN"
    using ev by (simp_all add: event_bufs_def)
  have sp: "psch_shared_state p" using p by (simp add: proc_ready_def)
  let ?ev1 = "copy_prefix_to_event ?e ev"
  have deq: "PschDequeueEvent env ev (sh, p) =
      pg_bind (PschDsaResolveString env (err_message_dsa ?e) (err_message_len ?e) (err_message ev)
          (of_nat PSCH_MAX_ERR_MSG_LEN) (sh, p))
        (\<lambda>w (buf, len).
           let event = ?ev1\<lparr>err_message := buf, err_message_len := len\<rparr>
           in pg_bind (PschQueryInternResolveAndRelease env (query_dsa ?e) (Some (query ev))
                  (of_nat PSCH_MAX_QUERY_LEN) (Some (query_len event)) w)
                (\<lambda>(sh1, p) (buf, len).
                   let event = event\<lparr>query := the buf, query_len := the len\<rparr>
                   in pg_ret (sh1\<lparr>tail := tail sh + 1\<rparr>, p) (True, event)))"
    using ne i sp by (simp add: PschDequeueEvent_def Let_def)
  show ?thesis
  proof (rule resolve_err_spec [OF heap p bufs(1), of env])
    fix sh1 p1 buf1 len1
    let ?e1 = "?e\<lparr>err_message_dsa := InvalidDsaPointer, err_message_len := 0\<rparr>"
    assume E: "PschDsaResolveString env (err_message_dsa ?e) (err_message_len ?e) (err_message ev)
          (of_nat PSCH_MAX_ERR_MSG_LEN) (sh, p) = Some ((sh1, p1), Ret (buf1, len1))"
      "same_proc p p1" "psch_dsa p1 \<or> sh1 = sh \<and> p1 = p" "queue_part sh1 = queue_part sh"
      "heap_inv sh1 (?e1 # ?L)" "\<And>x. x \<in> set ?L \<Longrightarrow> keeps_slot sh sh1 x"
      "slot_query sh1 ?e = slot_query sh ?e" "take (unat len1) buf1 = slot_err sh ?e"
      "length buf1 = length (err_message ev)"
    let ?ev2 = "?ev1\<lparr>err_message := buf1, err_message_len := len1\<rparr>"
    have p1: "proc_ready sh1 p1" by (rule proc_ready_cong [OF E(4,2) p])
    show ?thesis
    proof (rule resolve_query_spec [OF E(5) _ p1 bufs(2), of env "query_len ?ev2"])
      show "err_message_dsa ?e1 = InvalidDsaPointer" by simp
    next
      fix sh2 p2 buf2 len2
      assume "PschQueryInternResolveAndRelease env (query_dsa ?e1) (Some (query ev))
            (of_nat PSCH_MAX_QUERY_LEN) (Some (query_len ?ev2)) (sh1, p1) =
            Some ((sh2, p2), Ret (Some buf2, Some len2))"
        and Q: "same_proc p1 p2" "queue_part sh2 = queue_part sh1" "heap_inv sh2 ?L"
          "\<And>x. x \<in> set ?L \<Longrightarrow> keeps_slot sh1 sh2 x" "take (unat len2) buf2 = slot_query sh1 ?e1"
          "length buf2 = length (query ev)"
      then have Q0: "PschQueryInternResolveAndRelease env (query_dsa ?e) (Some (query ev))
            (of_nat PSCH_MAX_QUERY_LEN) (Some (query_len ?ev2)) (sh1, p1) =
            Some ((sh2, p2), Ret (Some buf2, Some len2))" by simp
      let ?sh = "sh2\<lparr>tail := tail sh + 1\<rparr>"
      let ?ev = "?ev2\<lparr>query := buf2, query_len := len2\<rparr>"
      have qp: "queue_part sh2 = queue_part sh" using Q(2) E(4) by simp
      have qp': "queue_part ?sh = queue_part (sh\<lparr>tail := tail sh + 1\<rparr>)"
        using qp by (cases sh; cases sh2; simp add: queue_part_def)
      have sel: "ring_buffer sh2 = ring_buffer sh" "capacity sh2 = capacity sh" "head sh2 = head sh"
          "raw_dsa_area sh2 = raw_dsa_area sh" "last_error_text sh2 = last_error_text sh"
        using qp queue_part_ring [OF qp] same_outside_ringD [OF queue_part_outside [OF qp]] by simp_all
      have live': "live ?sh = ?L" using sel by (simp add: live_def)
      have "heap_inv ?sh ?L" using Q(3) heap_inv_cong [of ?sh sh2] by simp
      moreover have "unat (head sh - (tail sh + 1)) \<le> unat (capacity sh)"
        using arg_cong [OF live, of length] inv by (simp add: queue_inv_def)
      ultimately have inv': "queue_inv ?sh" using inv sel by (simp add: queue_inv_def live')
      have "abs_slot ?sh x = abs_slot sh x" if "x \<in> set ?L" for x
        using keeps_slotD(1) [OF E(6) [OF that]] keeps_slotD(1) [OF Q(4) [OF that]]
          abs_slot_cong [of ?sh sh2] by simp
      moreover have "abs_slot sh ?e = out_event ?ev"
        using E(7,8) Q(5) by (simp add: abs_slot_def out_event_def err_text_def query_text_def)
      ultimately have "abs_queue sh = out_event ?ev # abs_queue ?sh"
        by (simp add: abs_queue_def live live')
      moreover have "PschDequeueEvent env ev (sh, p) = Some ((?sh, p2), Ret (True, ?ev))"
        using E(1) Q0 by (simp add: deq pg_ret_def Let_def)
      moreover have "event_bufs ?ev" using E(9) Q(6) bufs by (simp add: event_bufs_def)
      ultimately show ?thesis
        using inv' qp' same_proc_trans [OF E(2) Q(1)]
        by (intro ret [where sh' = ?sh and p' = p2 and ev' = ?ev])
    next
      assume "PschQueryInternResolveAndRelease env (query_dsa ?e1) (Some (query ev))
          (of_nat PSCH_MAX_QUERY_LEN) (Some (query_len ?ev2)) (sh1, p1) = Some ((sh1, p1), Throw)"
        "\<not> psch_dsa p1" "\<not> dsa_attach_ok env"
      then show ?thesis using E(1,3) by (intro throws) (simp_all add: deq Let_def)
    qed
  next
    assume "PschDsaResolveString env (err_message_dsa ?e) (err_message_len ?e) (err_message ev)
        (of_nat PSCH_MAX_ERR_MSG_LEN) (sh, p) = Some ((sh, p), Throw)" "\<not> psch_dsa p" "\<not> dsa_attach_ok env"
    then show ?thesis by (intro throws) (simp_all add: deq)
  qed
qed

subsection \<open>The queue as a bounded FIFO\<close>

text \<open>A process that has the area open keeps its state and cannot raise.\<close>

definition attached_ok :: "PschProc \<Rightarrow> (world, 'a) pgres \<Rightarrow> bool" where
  "attached_ok p m \<longleftrightarrow> (\<forall>sh' p' r. m = Some ((sh', p'), r) \<longrightarrow> p' = p \<and> r \<noteq> Throw)"

lemma attached_ok_ret [simp]: "attached_ok p (pg_ret (sh, p') x) = (p' = p)"
  by (auto simp: attached_ok_def pg_ret_def)

lemma attached_ok_None [simp]: "attached_ok p None"
  by (simp add: attached_ok_def)

lemma attached_ok_bind:
  "attached_ok p m \<Longrightarrow> (\<And>sh x. attached_ok p (f (sh, p) x)) \<Longrightarrow> attached_ok p (pg_bind m f)"
  by (fastforce simp: attached_ok_def pg_bind_eq_Some)

lemma PschDsaAllocString_attached:
  "psch_dsa p \<Longrightarrow> attached_ok p (PschDsaAllocString env src len mx (sh, p))"
  by (simp add: PschDsaAllocString_eq Let_def)

lemma PschQueryInternAcquire_attached:
  "psch_dsa p \<Longrightarrow> attached_ok p (PschQueryInternAcquire env db qid q qlen (sh, p))"
  by (simp add: PschQueryInternAcquire_def split: option.split)

lemma store_err_attached: "psch_dsa p \<Longrightarrow> attached_ok p (store_err env ev i (sh, p))"
  unfolding store_err_def
  by (intro attached_ok_bind PschDsaAllocString_attached) (simp_all add: Let_def)

lemma store_query_attached: "psch_dsa p \<Longrightarrow> attached_ok p (store_query env ev i (sh, p))"
  by (auto simp: store_query_def Let_def intro!: attached_ok_bind PschQueryInternAcquire_attached)

lemma TryEnqueueLocked_attached:
  assumes "psch_dsa p" "disable_error_capture p"
  shows "attached_ok p (TryEnqueueLocked g env ev cap (sh, p))"
proof -
  have "attached_ok p (map_option (\<lambda>w. (w, Ret False)) (HandleOverflow env (sh, p)))"
    using assms(2) by (simp add: HandleOverflow_guarded attached_ok_def)
  then show ?thesis
    using assms(1) store_err_attached store_query_attached
    by (simp add: TryEnqueueLocked_def Let_def attached_ok_bind)
qed

lemma PschDsaResolveString_attached:
  "psch_dsa p \<Longrightarrow> attached_ok p (PschDsaResolveString env dp n buf mx (sh, p))"
  by (simp add: PschDsaResolveString_def Let_def split: option.split dsa_body.split)

lemma PschQueryInternResolveAndRelease_attached:
  assumes "psch_dsa p"
  shows "attached_ok p (PschQueryInternResolveAndRelease env r buf n m (sh, p))"
proof -
  have "attached_ok p (ResolveInto env r b n l (sh', p))" for b l sh'
    using assms by (simp add: ResolveInto_def Let_def split: option.split dsa_body.split)
  moreover have "attached_ok p (ReleaseRef env r (sh', p))" for sh'
    using assms by (simp add: ReleaseRef_def split: option.split)
  ultimately show ?thesis
    by (auto simp: PschQueryInternResolveAndRelease_def Let_def split: option.split
        intro!: attached_ok_bind)
qed

lemma PschDequeueEvent_attached:
  "psch_dsa p \<Longrightarrow> attached_ok p (PschDequeueEvent env ev (sh, p))"
  by (auto simp: PschDequeueEvent_def Let_def
      intro!: attached_ok_bind PschDsaResolveString_attached PschQueryInternResolveAndRelease_attached)

lemma zero_event_bufs [simp]: "event_bufs zero_event"
  by (simp add: event_bufs_def zero_event_def PschEvent.defs psch_fixed.defs)

type_synonym fifo_state = "guc \<times> pg_env \<times> world"

definition fifo_valid :: "fifo_state \<Rightarrow> bool" where
  "fifo_valid q =
     (case q of (g, env, sh, p) \<Rightarrow>
        queue_inv sh \<and> dsa_allocate_fresh env \<and> proc_ready sh p \<and> psch_dsa p \<and>
        \<not> psch_debug_force_locked_overflow g)"

definition fifo_items :: "fifo_state \<Rightarrow> abs_event list" where
  "fifo_items q = (case q of (g, env, sh, p) \<Rightarrow> abs_queue sh)"

definition fifo_cap :: "fifo_state \<Rightarrow> nat" where
  "fifo_cap q = (case q of (g, env, sh, p) \<Rightarrow> unat (capacity sh))"

definition fifo_put :: "PschEvent \<Rightarrow> fifo_state \<Rightarrow> fifo_state \<times> bool" where
  "fifo_put ev q =
     (case q of (g, env, w) \<Rightarrow>
        let (w, saved_capture) = PschSuppressErrorCapture True w
        in case TryEnqueueLocked g env ev (capacity (fst w)) w of
             Some (w', Ret ok) \<Rightarrow> ((g, env, fst (PschSuppressErrorCapture saved_capture w')), ok)
           | _ \<Rightarrow> (q, False))"

definition fifo_get :: "fifo_state \<Rightarrow> fifo_state \<times> abs_event option" where
  "fifo_get q =
     (case q of (g, env, w) \<Rightarrow>
        (case PschDequeueEvent env zero_event w of
           Some (w', Ret (True, ev)) \<Rightarrow> ((g, env, w'), Some (out_event ev))
         | _ \<Rightarrow> (q, None)))"

text \<open>What is stored of an event, whatever the reason for a missing text.\<close>

definition kept_as :: "PschEvent \<Rightarrow> abs_event \<Rightarrow> bool" where
  "kept_as ev a \<longleftrightarrow>
     (case a of (n, e, q) \<Rightarrow>
        n = numeric_part ev \<and> (e = kept_err ev \<or> e = []) \<and> (q = kept_query ev \<or> q = []))"

lemma stored_as_kept: "stored_as env sh ev a \<Longrightarrow> kept_as ev a"
  by (auto simp: stored_as_def kept_as_def)

lemma queue_inv_stats_update [simp]:
  "queue_inv (sh\<lparr>dropped := d\<rparr>) = queue_inv sh" "queue_inv (sh\<lparr>overflow_logged := b\<rparr>) = queue_inv sh"
  "queue_inv (sh\<lparr>server_log := l\<rparr>) = queue_inv sh" "queue_inv (sh\<lparr>lock := b\<rparr>) = queue_inv sh"
  "queue_inv (sh\<lparr>exported := d\<rparr>) = queue_inv sh" "queue_inv (sh\<lparr>send_failures := d\<rparr>) = queue_inv sh"
  "queue_inv (sh\<lparr>last_success_ts := ts\<rparr>) = queue_inv sh"
  "queue_inv (sh\<lparr>last_error_ts := ts\<rparr>) = queue_inv sh"
  "queue_inv (sh\<lparr>bgworker_pid := v\<rparr>) = queue_inv sh" "queue_inv (sh\<lparr>enqueued := d\<rparr>) = queue_inv sh"
  "queue_inv (sh\<lparr>dsa_oom_count := d\<rparr>) = queue_inv sh" "queue_inv (sh\<lparr>dsa_refcnt := m\<rparr>) = queue_inv sh"
  by (simp_all add: queue_inv_def live_def heap_inv_cong [of "sh\<lparr>dropped := d\<rparr>" sh]
      heap_inv_cong [of "sh\<lparr>overflow_logged := b\<rparr>" sh] heap_inv_cong [of "sh\<lparr>server_log := l\<rparr>" sh]
      heap_inv_cong [of "sh\<lparr>lock := b\<rparr>" sh] heap_inv_cong [of "sh\<lparr>exported := d\<rparr>" sh]
      heap_inv_cong [of "sh\<lparr>send_failures := d\<rparr>" sh] heap_inv_cong [of "sh\<lparr>last_success_ts := ts\<rparr>" sh]
      heap_inv_cong [of "sh\<lparr>last_error_ts := ts\<rparr>" sh] heap_inv_cong [of "sh\<lparr>bgworker_pid := v\<rparr>" sh]
      heap_inv_cong [of "sh\<lparr>enqueued := d\<rparr>" sh] heap_inv_cong [of "sh\<lparr>dsa_oom_count := d\<rparr>" sh]
      heap_inv_cong [of "sh\<lparr>dsa_refcnt := m\<rparr>" sh])

lemma abs_queue_stats_update [simp]:
  "abs_queue (sh\<lparr>dropped := d\<rparr>) = abs_queue sh" "abs_queue (sh\<lparr>overflow_logged := b\<rparr>) = abs_queue sh"
  "abs_queue (sh\<lparr>server_log := l\<rparr>) = abs_queue sh" "abs_queue (sh\<lparr>lock := b\<rparr>) = abs_queue sh"
  "abs_queue (sh\<lparr>exported := d\<rparr>) = abs_queue sh" "abs_queue (sh\<lparr>send_failures := d\<rparr>) = abs_queue sh"
  "abs_queue (sh\<lparr>last_success_ts := ts\<rparr>) = abs_queue sh"
  "abs_queue (sh\<lparr>last_error_ts := ts\<rparr>) = abs_queue sh"
  "abs_queue (sh\<lparr>last_error_text := b'\<rparr>) = abs_queue sh"
  "abs_queue (sh\<lparr>bgworker_pid := v\<rparr>) = abs_queue sh" "abs_queue (sh\<lparr>enqueued := d\<rparr>) = abs_queue sh"
  "abs_queue (sh\<lparr>dsa_oom_count := d\<rparr>) = abs_queue sh" "abs_queue (sh\<lparr>dsa_refcnt := m\<rparr>) = abs_queue sh"
  by (simp_all add: abs_queue_def live_def abs_slot_def slot_err_def slot_query_def)

lemma proc_ready_outside:
  "same_outside_ring sh sh' \<Longrightarrow> proc_ready sh' p = proc_ready sh p"
  by (simp add: proc_ready_def same_outside_ringD)

lemma proc_ready_upd [simp]:
  "proc_ready (sh\<lparr>head := h\<rparr>) p = proc_ready sh p" "proc_ready (sh\<lparr>enqueued := n\<rparr>) p = proc_ready sh p"
  "proc_ready (sh\<lparr>tail := h\<rparr>) p = proc_ready sh p" "proc_ready (sh\<lparr>dropped := n\<rparr>) p = proc_ready sh p"
  "proc_ready (sh\<lparr>lock := b\<rparr>) p = proc_ready sh p"
  "proc_ready (sh\<lparr>overflow_logged := b\<rparr>) p = proc_ready sh p"
  "proc_ready (sh\<lparr>server_log := l\<rparr>) p = proc_ready sh p"
  by (simp_all add: proc_ready_def)

lemma proc_ready_proc_upd [simp]:
  "proc_ready sh (p\<lparr>holds_lock := b\<rparr>) = proc_ready sh p"
  "proc_ready sh (p\<lparr>disable_error_capture := b\<rparr>) = proc_ready sh p"
  "proc_ready sh (p\<lparr>local_batch_count := n\<rparr>) = proc_ready sh p"
  "proc_ready sh (p\<lparr>local_batch := l\<rparr>) = proc_ready sh p"
  by (simp_all add: proc_ready_def)

lemma overflowed_frame [simp]:
  "queue_inv (overflowed n sh b) = queue_inv sh" "abs_queue (overflowed n sh b) = abs_queue sh"
  "proc_ready (overflowed n sh b) p = proc_ready sh p" "capacity (overflowed n sh b) = capacity sh"
  "head (overflowed n sh b) = head sh" "tail (overflowed n sh b) = tail sh"
  "lock (overflowed n sh b) = lock sh" "enqueued (overflowed n sh b) = enqueued sh"
  "dropped (overflowed n sh b) = dropped sh + of_nat n" "queue_full (overflowed n sh b) = queue_full sh"
  "raw_dsa_area (overflowed n sh b) = raw_dsa_area sh"
  by (simp_all add: overflowed_def queue_full_def)

lemma length_abs_queue [simp]: "length (abs_queue sh) = unat (head sh - tail sh)"
  by (simp add: abs_queue_def)

interpretation shq: bounded_fifo fifo_put fifo_get fifo_items fifo_cap fifo_valid event_shape kept_as
proof
  fix q :: fifo_state
  obtain g env sh p where q: "q = (g, env, sh, p)" by (cases q) auto
  show "length (fifo_items q) \<le> fifo_cap q" if "fifo_valid q"
    using that by (simp add: q fifo_valid_def fifo_items_def fifo_cap_def queue_inv_def)
  show "\<exists>q' x. fifo_put ev q = (q', True) \<and> fifo_valid q' \<and> fifo_cap q' = fifo_cap q \<and>
      fifo_items q' = fifo_items q @ [x] \<and> kept_as ev x"
    if v: "fifo_valid q" and ev: "event_shape ev" and room: "length (fifo_items q) < fifo_cap q" for ev
  proof -
    have inv: "queue_inv sh" "dsa_allocate_fresh env" "proc_ready sh p" "psch_dsa p"
        "\<not> psch_debug_force_locked_overflow g"
      using v by (simp_all add: q fifo_valid_def)
    have nf: "\<not> queue_full sh"
      using room by (simp add: q fifo_items_def fifo_cap_def queue_full_def word_le_nat_alt)
    let ?p = "p\<lparr>disable_error_capture := True\<rparr>"
    have pr: "proc_ready sh ?p" "psch_dsa ?p" using inv by simp_all
    show ?thesis
    proof (rule TryEnqueueLocked_spec [OF inv(1,2) ev pr(1) nf inv(5)])
      fix sh' p' a
      assume T: "TryEnqueueLocked g env ev (capacity sh) (sh, ?p) = Some ((sh', p'), Ret True)"
        "queue_inv sh'" "abs_queue sh' = abs_queue sh @ [a]" "stored_as env sh ev a"
        "same_outside_ring (sh\<lparr>head := head sh + 1, enqueued := enqueued sh + 1\<rparr>) sh'"
      have "p' = ?p"
        using TryEnqueueLocked_attached [OF pr(2)] T(1) unfolding attached_ok_def by simp
      with T inv show ?thesis
        using proc_ready_outside [OF T(5), of p] same_outside_ringD(3) [OF T(5)] stored_as_kept [OF T(4)]
        by (cases a) (simp add: q fifo_put_def fifo_valid_def fifo_cap_def fifo_items_def
            PschSuppressErrorCapture_def)
    qed (use inv in simp)
  qed
  show "\<exists>q'. fifo_put ev q = (q', False) \<and> fifo_valid q' \<and> fifo_cap q' = fifo_cap q \<and>
      fifo_items q' = fifo_items q"
    if v: "fifo_valid q" and full: "length (fifo_items q) = fifo_cap q" for ev
  proof -
    have "queue_full sh"
      using full by (simp add: q fifo_items_def fifo_cap_def queue_full_def word_le_nat_alt)
    then have "TryEnqueueLocked g env ev (capacity sh) (sh, p\<lparr>disable_error_capture := True\<rparr>) =
        Some ((overflowed 1 sh True, p\<lparr>disable_error_capture := True\<rparr>), Ret False)"
      by (intro TryEnqueueLocked_full) simp_all
    then show ?thesis
      using v by (simp add: q fifo_put_def fifo_valid_def fifo_cap_def fifo_items_def
          PschSuppressErrorCapture_def)
  qed
  show "fifo_get q = (q, None)" if v: "fifo_valid q" and "fifo_items q = []"
  proof -
    have "head sh = tail sh" using that by (simp add: q fifo_items_def abs_queue_def live_def ring_contents_eq_Nil)
    with v show ?thesis
      by (simp add: q fifo_get_def fifo_valid_def proc_ready_def PschDequeueEvent_empty)
  qed
  show "\<exists>q'. fifo_get q = (q', Some x) \<and> fifo_valid q' \<and> fifo_cap q' = fifo_cap q \<and> fifo_items q' = xs"
    if v: "fifo_valid q" and items: "fifo_items q = x # xs" for x xs
  proof -
    have inv: "queue_inv sh" "proc_ready sh p" "psch_dsa p" using v by (simp_all add: q fifo_valid_def)
    have ne: "head sh \<noteq> tail sh"
      using items by (auto simp: q fifo_items_def abs_queue_def live_def)
    show ?thesis
    proof (rule PschDequeueEvent_spec [OF inv(1) zero_event_bufs inv(2) ne, of env])
      fix sh' p' ev'
      assume D: "PschDequeueEvent env zero_event (sh, p) = Some ((sh', p'), Ret (True, ev'))" "same_proc p p'"
        "queue_inv sh'" "abs_queue sh = out_event ev' # abs_queue sh'"
        "queue_part sh' = queue_part (sh\<lparr>tail := tail sh + 1\<rparr>)"
      have cap: "capacity sh' = capacity sh"
        using same_outside_ringD(3) [OF queue_part_outside [OF D(5)]] by simp
      have "proc_ready sh' p'"
        using proc_ready_cong [OF D(5,2)] inv(2) by simp
      moreover have "p' = p"
        using PschDequeueEvent_attached [OF inv(3)] D(1) unfolding attached_ok_def by blast
      ultimately show ?thesis
        using D v items cap inv by (simp add: q fifo_get_def fifo_valid_def fifo_cap_def fifo_items_def)
    qed (use inv in simp)
  qed
qed

end
