(* ===== verification/Psch_Local_Batch.thy ===== *)
theory Psch_Local_Batch
  imports Psch_Queue_Inv
begin

section \<open>Per-backend buffering (\<^verbatim>\<open>local_batch.c\<close>, \<^verbatim>\<open>PschEnqueueEvent\<close>)\<close>

text \<open>
  A producer that finds the queue lock taken does not wait: it puts the event into a
  process-local array of eight, which is flushed under one lock acquisition when it is full,
  at the end of the transaction, and at exit. \<^verbatim>\<open>PschEnqueueEvent\<close> of \<^verbatim>\<open>shmem.c\<close> is here because
  it calls the local batch, which calls \<^verbatim>\<open>PschEnqueueBatch\<close>.
\<close>

subsection \<open>Operations\<close>

abbreviation PSCH_LOCAL_BATCH_CAPACITY :: nat where "PSCH_LOCAL_BATCH_CAPACITY \<equiv> 8"

datatype XactEvent =
    XACT_EVENT_COMMIT | XACT_EVENT_PARALLEL_COMMIT | XACT_EVENT_ABORT | XACT_EVENT_PARALLEL_ABORT
  | XACT_EVENT_PREPARE | XACT_EVENT_PRE_COMMIT | XACT_EVENT_PARALLEL_PRE_COMMIT
  | XACT_EVENT_PRE_PREPARE

definition PschLocalBatchInit :: "world \<Rightarrow> world" where
  "PschLocalBatchInit w =
     (case w of (sh, p) \<Rightarrow>
        (sh, (on_shmem_exit PschLocalBatchShutdownCb (p\<lparr>xact_callback_registered := True\<rparr>))
               \<lparr>local_batch_initialized := True\<rparr>))"

definition PschLocalBatchFlush :: "guc \<Rightarrow> pg_env \<Rightarrow> world \<Rightarrow> (world, nat) pgres" where
  "PschLocalBatchFlush g env w =
     (case w of (sh, p) \<Rightarrow>
        if local_batch_count p = 0 then pg_ret w 0
        else
          let cnt = local_batch_count p;
              p = p\<lparr>local_batch_count := 0\<rparr>
          in PschEnqueueBatch g env (local_batch p) cnt (sh, p))"

definition PschLocalBatchAdd :: "guc \<Rightarrow> pg_env \<Rightarrow> PschEvent \<Rightarrow> world \<Rightarrow> (world, unit) pgres" where
  "PschLocalBatchAdd g env event w =
     (let w = (if \<not> local_batch_initialized (snd w) then PschLocalBatchInit w else w)
      in pg_bind (if PSCH_LOCAL_BATCH_CAPACITY \<le> local_batch_count (snd w)
                  then pg_bind (PschLocalBatchFlush g env w) (\<lambda>w _. pg_ret w ())
                  else pg_ret w ())
           (\<lambda>(sh, p) _.
              if local_batch_count p < length (local_batch p)
              then pg_ret (sh, p\<lparr>local_batch := (local_batch p)[local_batch_count p := event],
                                 local_batch_count := local_batch_count p + 1\<rparr>) ()
              else None))"

definition PschXactCallback :: "guc \<Rightarrow> pg_env \<Rightarrow> XactEvent \<Rightarrow> world \<Rightarrow> (world, unit) pgres" where
  "PschXactCallback g env event w =
     (if local_batch_count (snd w) = 0 then pg_ret w ()
      else if event \<in> {XACT_EVENT_COMMIT, XACT_EVENT_PARALLEL_COMMIT, XACT_EVENT_ABORT,
                       XACT_EVENT_PARALLEL_ABORT, XACT_EVENT_PREPARE}
      then pg_bind (PschLocalBatchFlush g env w) (\<lambda>w _. pg_ret w ())
      else pg_ret w ())"

definition PschLocalBatchShutdown :: "guc \<Rightarrow> pg_env \<Rightarrow> world \<Rightarrow> (world, unit) pgres" where
  "PschLocalBatchShutdown g env w = pg_bind (PschLocalBatchFlush g env w) (\<lambda>w _. pg_ret w ())"

definition PschEnqueueEvent :: "guc \<Rightarrow> pg_env \<Rightarrow> PschEvent \<Rightarrow> world \<Rightarrow> (world, bool) pgres" where
  "PschEnqueueEvent g env event w =
     (if \<not> psch_shared_state (snd w) \<or> \<not> psch_enabled g then pg_ret w False
      else
        let (w, saved_capture) = PschSuppressErrorCapture True w;
            cap = capacity (fst w);
            h = head (fst w);
            t = tail (fst w)
        in if ucast cap \<le> h - t
           then map_option (\<lambda>w. (fst (PschSuppressErrorCapture saved_capture w), Ret False))
                  (HandleOverflow env w)
           else
             let (w, acquired) = LWLockConditionalAcquire w
             in if acquired
                then pg_finally (TryEnqueueLocked g env event cap w) (unlock_and_restore saved_capture)
                else
                  let (w, _) = PschSuppressErrorCapture saved_capture w
                  in pg_bind (PschLocalBatchAdd g env event w) (\<lambda>w _. pg_ret w True))"

text \<open>
  Why the guard matters. \<open>capture_log\<close> is the re-entrant call: \<^verbatim>\<open>PschEmitLogHook\<close> building the
  event \<open>ev\<close> for a message and enqueueing it, errors swallowed. A backend that reported the
  overflow from the locked section without the guard, with a full local batch, would wait for
  the lock it holds.
\<close>

definition capture_log :: "guc \<Rightarrow> pg_env \<Rightarrow> PschEvent \<Rightarrow> log_msg \<Rightarrow> world \<Rightarrow> world option" where
  "capture_log g env ev m w =
     map_option (\<lambda>(w, r). fst (PschSuppressErrorCapture False w))
       (PschEnqueueEvent g env ev (fst (PschSuppressErrorCapture True w)))"

lemma unguarded_overflow_deadlocks:
  assumes "\<not> disable_error_capture p" "holds_lock p" "lock sh" "\<not> overflow_logged sh" "\<not> queue_full sh"
    "psch_debug_force_locked_overflow g" "psch_enabled g" "psch_shared_state p"
    "local_batch_initialized p" "local_batch_count p = PSCH_LOCAL_BATCH_CAPACITY"
  shows "TryEnqueueLocked g (env\<lparr>log_capture := capture_log g env ev'\<rparr>) ev (capacity sh) (sh, p) = None"
  using assms
  by (simp add: TryEnqueueLocked_def HandleOverflow_def ereport_log_def capture_log_def queue_full_def
      PschEnqueueEvent_def PschSuppressErrorCapture_def LWLockConditionalAcquire_def LWLockAcquire_def
      PschLocalBatchAdd_def PschLocalBatchFlush_def PschEnqueueBatch_def Let_def)

subsection \<open>Batches\<close>

text \<open>
  The laws of PostgreSQL's lightweight lock that a blocking acquire relies on: a free lock is
  granted at once; a taken lock is eventually released, by a process that keeps the invariant
  of the segment and its capacity.
\<close>

definition lwlock_ok :: "pg_env \<Rightarrow> bool" where
  "lwlock_ok env \<longleftrightarrow>
     (\<forall>sh. (\<not> lock sh \<longrightarrow> lwlock_wait env sh = sh) \<and> \<not> lock (lwlock_wait env sh) \<and>
           (queue_inv sh \<longrightarrow> queue_inv (lwlock_wait env sh)) \<and>
           capacity (lwlock_wait env sh) = capacity sh)"

lemma lwlock_okD:
  assumes "lwlock_ok env"
  shows "\<not> lock sh \<Longrightarrow> lwlock_wait env sh = sh" "\<not> lock (lwlock_wait env sh)"
    "queue_inv sh \<Longrightarrow> queue_inv (lwlock_wait env sh)" "capacity (lwlock_wait env sh) = capacity sh"
  using assms unfolding lwlock_ok_def by blast+

definition batch_inv :: "PschProc \<Rightarrow> bool" where
  "batch_inv p \<longleftrightarrow>
     length (local_batch p) = PSCH_LOCAL_BATCH_CAPACITY \<and>
     local_batch_count p \<le> PSCH_LOCAL_BATCH_CAPACITY \<and>
     list_all event_shape (take (local_batch_count p) (local_batch p))"

lemma enqueue_loop_full:
  "queue_full sh \<or> psch_debug_force_locked_overflow g \<Longrightarrow> disable_error_capture p \<Longrightarrow>
     enqueue_loop g env (capacity sh) es n (sh, p) = Some ((overflowed (length es) sh True, p), Ret n)"
proof (induction es arbitrary: sh)
  case Nil
  then show ?case by (simp add: pg_ret_def overflowed_def)
next
  case (Cons e es)
  let ?sh = "overflowed 1 sh True"
  have "TryEnqueueLocked g env e (capacity sh) (sh, p) = Some ((?sh, p), Ret False)"
    by (rule TryEnqueueLocked_full [OF Cons.prems])
  moreover have "queue_full ?sh \<or> psch_debug_force_locked_overflow g" using Cons.prems by simp
  from Cons.IH [OF this Cons.prems(2)] have "enqueue_loop g env (capacity sh) es n (?sh, p) =
      Some ((overflowed (Suc (length es)) sh True, p), Ret n)"
    by (simp add: overflowed_Suc [of "length es"])
  ultimately show ?case by simp
qed

text \<open>What a batch of events, tried one after the other under the lock, does to the queue.\<close>

definition batch_appended ::
    "PschEvent list \<Rightarrow> PschSharedState \<Rightarrow> PschSharedState \<Rightarrow> abs_event list \<Rightarrow> bool" where
  "batch_appended es sh sh' as \<longleftrightarrow>
     queue_inv sh' \<and> abs_queue sh' = abs_queue sh @ as \<and> capacity sh' = capacity sh \<and>
     tail sh' = tail sh \<and> lock sh' = lock sh \<and> raw_dsa_area sh' = raw_dsa_area sh \<and>
     enqueued sh' = enqueued sh + of_nat (length as) \<and> list_all2 kept_as (take (length as) es) as"

lemma batch_appended_Nil [simp]: "queue_inv sh \<Longrightarrow> batch_appended es sh sh []"
  by (simp add: batch_appended_def)

text \<open>
  The result of trying \<open>k\<close> events, \<open>as\<close> being those that were appended. Only a process that has
  to attach to the area first, and cannot, stops early.
\<close>

definition batch_outcome ::
    "guc \<Rightarrow> pg_env \<Rightarrow> PschProc \<Rightarrow> nat \<Rightarrow> nat \<Rightarrow> PschSharedState \<Rightarrow> PschSharedState \<Rightarrow>
       abs_event list \<Rightarrow> nat outcome \<Rightarrow> bool" where
  "batch_outcome g env p n k sh sh' as r =
     (case r of
        Ret m \<Rightarrow> m = n + length as \<and> dropped sh' = dropped sh + of_nat (k - length as) \<and>
          length as = (if psch_debug_force_locked_overflow g then 0
                       else min k (unat (capacity sh) - length (abs_queue sh)))
      | Throw \<Rightarrow> length as < k \<and> \<not> psch_dsa p \<and> \<not> dsa_attach_ok env)"

lemma min_Suc_room: "l < c \<Longrightarrow> Suc (min k (c - Suc l)) = min (Suc k) (c - l)" for c k l :: nat
  by linarith

lemma batch_outcome_Cons:
  assumes "batch_outcome g env p1 (n + 1) k sh1 sh' as r" "abs_queue sh1 = abs_queue sh @ [a]"
    "capacity sh1 = capacity sh" "dropped sh1 = dropped sh" "length (abs_queue sh) < unat (capacity sh)"
    "\<not> psch_debug_force_locked_overflow g" "\<not> psch_dsa p1 \<Longrightarrow> \<not> psch_dsa p"
  shows "batch_outcome g env p n (Suc k) sh sh' (a # as) r"
proof (cases r)
  case (Ret m)
  with assms(1-4,6) have m: "m = n + 1 + length as"
      and d: "dropped sh' = dropped sh + of_nat (k - length as)"
      and l: "length as = min k (unat (capacity sh) - Suc (length (abs_queue sh)))"
    by (simp_all add: batch_outcome_def del: length_abs_queue)
  have "length (a # as) = min (Suc k) (unat (capacity sh) - length (abs_queue sh))"
    unfolding l length_Cons by (rule min_Suc_room [OF assms(5)])
  moreover have "m = n + length (a # as)" using m by simp
  moreover have "dropped sh' = dropped sh + of_nat (Suc k - length (a # as))" using d by simp
  ultimately show ?thesis
    using assms(6) unfolding batch_outcome_def Ret outcome.case by (simp only: if_False simp_thms)
next
  case Throw
  with assms(1,7) show ?thesis by (simp add: batch_outcome_def)
qed

lemma enqueue_loop_spec:
  assumes "queue_inv sh" "dsa_allocate_fresh env" "proc_ready sh p" "list_all event_shape es"
    "disable_error_capture p"
  shows "\<exists>sh' p' r as. enqueue_loop g env (capacity sh) es n (sh, p) = Some ((sh', p'), r) \<and>
     same_proc p p' \<and> batch_appended es sh sh' as \<and>
     batch_outcome g env p n (length es) sh sh' as r"
  using assms
proof (induction es arbitrary: sh p n)
  case Nil
  then have "batch_outcome g env p n 0 sh sh [] (Ret n)" by (simp add: batch_outcome_def)
  with Nil show ?case
    by (intro exI [of _ sh] exI [of _ p] exI [of _ "Ret n"] exI [of _ "[]"]) (simp add: pg_ret_def)
next
  case (Cons e es)
  note inv = Cons.prems(1,2,3)
  have ev: "event_shape e" "list_all event_shape es" using Cons.prems(4) by simp_all
  show ?case
  proof (cases "queue_full sh \<or> psch_debug_force_locked_overflow g")
    case True
    have "length (abs_queue sh) = unat (capacity sh)" if "queue_full sh"
      using queue_full_iff [OF inv(1)] that by simp
    with True enqueue_loop_full [OF True Cons.prems(5), of env "e # es" n] inv(1) show ?thesis
      by (auto simp: batch_appended_def batch_outcome_def simp del: enqueue_loop.simps)
  next
    case False
    then have nf: "\<not> queue_full sh" "\<not> psch_debug_force_locked_overflow g" by simp_all
    show ?thesis
    proof (rule TryEnqueueLocked_spec [OF inv(1,2) ev(1) inv(3) nf])
      fix sh1 p1 a
      assume T: "TryEnqueueLocked g env e (capacity sh) (sh, p) = Some ((sh1, p1), Ret True)"
        "same_proc p p1" "queue_inv sh1" "abs_queue sh1 = abs_queue sh @ [a]" "stored_as env sh e a"
        "same_outside_ring (sh\<lparr>head := head sh + 1, enqueued := enqueued sh + 1\<rparr>) sh1"
      note out = same_outside_ringD [OF T(6)]
      have p1: "proc_ready sh1 p1"
        using inv(3) out(2) same_procD [OF T(2)] by (simp add: proc_ready_def)
      have guard: "disable_error_capture p1" using Cons.prems(5) same_procD [OF T(2)] by simp
      obtain sh' p' r as where
        IH: "enqueue_loop g env (capacity sh1) es (n + 1) (sh1, p1) = Some ((sh', p'), r)"
          "same_proc p1 p'" "batch_appended es sh1 sh' as"
          "batch_outcome g env p1 (n + 1) (length es) sh1 sh' as r"
        using Cons.IH [OF T(3) inv(2) p1 ev(2) guard, of "n + 1"] by blast
      have app: "batch_appended (e # es) sh sh' (a # as)"
        using IH(3) T(4) out stored_as_kept [OF T(5)] by (simp add: batch_appended_def)
      moreover have "length (abs_queue sh) < unat (capacity sh)"
        using queue_not_fullD(1) [OF inv(1) nf(1)] by simp
      moreover have "\<not> psch_dsa p" if "\<not> psch_dsa p1"
        using that TryEnqueueLocked_attached [of p g env e "capacity sh" sh] T(1) Cons.prems(5)
        by (auto simp: attached_ok_def)
      moreover have loop: "enqueue_loop g env (capacity sh) (e # es) n (sh, p) = Some ((sh', p'), r)"
        using T(1) IH(1) out(3) by simp
      ultimately have "batch_outcome g env p n (Suc (length es)) sh sh' (a # as) r"
        using batch_outcome_Cons [OF IH(4) T(4)] out nf(2) by simp
      then show ?thesis
        using loop app same_proc_trans [OF T(2) IH(2)] by auto
    next
      fix sh1 p1
      assume T: "TryEnqueueLocked g env e (capacity sh) (sh, p) = Some ((sh1, p1), Throw)"
        "same_proc p p1" "queue_inv sh1" "abs_queue sh1 = abs_queue sh" "same_outside_ring sh sh1"
        "\<not> psch_dsa p" "\<not> dsa_attach_ok env"
      then show ?thesis
        using same_outside_ringD [OF T(5)]
        by (intro exI [of _ sh1] exI [of _ p1] exI [of _ Throw] exI [of _ "[]"])
          (simp add: batch_appended_def batch_outcome_def)
    qed
  qed
qed

lemma same_proc_restore:
  "same_proc (p\<lparr>disable_error_capture := a, holds_lock := b\<rparr>) p' \<Longrightarrow> \<not> holds_lock p \<Longrightarrow>
     same_proc p (p'\<lparr>holds_lock := False, disable_error_capture := disable_error_capture p\<rparr>)"
  by (cases p; cases p'; simp add: same_proc_def erase_handle_def)

lemma unlock_and_restore_simps [simp]:
  "unlock_and_restore saved (sh, p) =
     (sh\<lparr>lock := False\<rparr>, p\<lparr>holds_lock := False, disable_error_capture := saved\<rparr>)"
  by (simp add: unlock_and_restore_def LWLockRelease_def PschSuppressErrorCapture_def)

lemma queue_full_lock [simp]: "queue_full (sh\<lparr>lock := b\<rparr>) = queue_full sh"
  by (simp add: queue_full_def)

lemma batch_appended_unlock:
  "batch_appended es (sh\<lparr>lock := True\<rparr>) sh' as \<Longrightarrow> \<not> lock sh \<Longrightarrow>
     batch_appended es sh (sh'\<lparr>lock := False\<rparr>) as"
  by (auto simp: batch_appended_def)

lemma LWLockAcquire_ok:
  assumes "lwlock_ok env" "\<not> holds_lock p"
  shows "LWLockAcquire env (sh, p) = Some ((lwlock_wait env sh)\<lparr>lock := True\<rparr>, p\<lparr>holds_lock := True\<rparr>)"
  using lwlock_okD(2) [OF assms(1)] assms(2) by (simp add: LWLockAcquire_def Let_def)

text \<open>
  A batch never waits for a full queue, holds the lock only while it appends, and on every
  exit has released the lock and restored the guard.
\<close>

lemma PschEnqueueBatch_spec:
  assumes inv: "queue_inv sh" and env: "dsa_allocate_fresh env" "lwlock_ok env" and p: "proc_ready sh p" "\<not> holds_lock p"
    and on: "psch_enabled g" and cnt: "0 < cnt" "cnt \<le> length events" "list_all event_shape (take cnt events)"
  defines "sh0 \<equiv> if queue_full sh then sh else lwlock_wait env sh"
  shows "\<exists>sh' p' r as. PschEnqueueBatch g env events cnt (sh, p) = Some ((sh', p'), r) \<and> same_proc p p' \<and>
     batch_appended (take cnt events) sh0 sh' as \<and>
     batch_outcome g env p 0 cnt sh0 sh' as r"
proof -
  have ps: "psch_shared_state p" using p by (simp add: proc_ready_def)
  let ?p0 = "p\<lparr>disable_error_capture := True\<rparr>"
  show ?thesis
  proof (cases "queue_full sh")
    case True
    have "PschEnqueueBatch g env events cnt (sh, p) = Some ((overflowed cnt sh True, p), Ret 0)"
      using True ps on cnt
      by (simp add: PschEnqueueBatch_def PschSuppressErrorCapture_def queue_full_def
          overflow_loop_guarded)
    moreover have "batch_appended (take cnt events) sh (overflowed cnt sh True) []"
      using inv by (simp add: batch_appended_def)
    ultimately show ?thesis
      using True queue_full_iff [OF inv] unfolding sh0_def
      by (intro exI [of _ "overflowed cnt sh True"] exI [of _ p] exI [of _ "Ret 0"] exI [of _ "[]"])
        (simp add: batch_outcome_def)
  next
    case False
    let ?w = "lwlock_wait env sh"
    have w: "queue_inv ?w" "\<not> lock ?w" "capacity ?w = capacity sh" "raw_dsa_area ?w"
      using lwlock_okD [OF env(2)] inv by (simp_all add: queue_inv_def)
    have pw: "proc_ready (?w\<lparr>lock := True\<rparr>) (?p0\<lparr>holds_lock := True\<rparr>)"
      using p w by (simp add: proc_ready_def)
    obtain sh' p' r as where
      L: "enqueue_loop g env (capacity ?w) (take cnt events) 0
            (?w\<lparr>lock := True\<rparr>, ?p0\<lparr>holds_lock := True\<rparr>) = Some ((sh', p'), r)"
        "same_proc (?p0\<lparr>holds_lock := True\<rparr>) p'" "batch_appended (take cnt events) (?w\<lparr>lock := True\<rparr>) sh' as"
        "batch_outcome g env (?p0\<lparr>holds_lock := True\<rparr>) 0 cnt (?w\<lparr>lock := True\<rparr>) sh' as r"
      using enqueue_loop_spec [of "?w\<lparr>lock := True\<rparr>" env "?p0\<lparr>holds_lock := True\<rparr>" "take cnt events" g 0]
        w pw env(1) cnt(2,3) by (auto simp: min.absorb2)
    have "PschEnqueueBatch g env events cnt (sh, p) =
        Some (unlock_and_restore (disable_error_capture p) (sh', p'), r)"
      using False ps on cnt L(1) w LWLockAcquire_ok [OF env(2), of ?p0 sh] p(2)
      by (simp add: PschEnqueueBatch_def PschSuppressErrorCapture_def queue_full_def)
    moreover have "same_proc p (p'\<lparr>holds_lock := False, disable_error_capture := disable_error_capture p\<rparr>)"
      by (rule same_proc_restore [OF L(2) p(2)])
    moreover have "batch_outcome g env p 0 cnt ?w (sh'\<lparr>lock := False\<rparr>) as r"
      using L(4) by (cases r) (simp_all add: batch_outcome_def)
    ultimately show ?thesis
      using False batch_appended_unlock [OF L(3) w(2)] unfolding sh0_def by auto
  qed
qed

subsection \<open>The local batch\<close>

lemma batch_inv_same_proc: "same_proc p p' \<Longrightarrow> batch_inv p' = batch_inv p"
  by (simp add: batch_inv_def same_procD)

lemma batch_inv_upd [simp]:
  "batch_inv (p\<lparr>holds_lock := b\<rparr>) = batch_inv p"
  "batch_inv (p\<lparr>disable_error_capture := b\<rparr>) = batch_inv p"
  by (simp_all add: batch_inv_def)

lemma batch_inv_reset [simp]: "batch_inv p \<Longrightarrow> batch_inv (p\<lparr>local_batch_count := 0\<rparr>)"
  by (simp add: batch_inv_def)

lemma batch_inv_add:
  assumes "batch_inv p" "event_shape ev" "local_batch_count p < PSCH_LOCAL_BATCH_CAPACITY"
  shows "batch_inv (p\<lparr>local_batch := (local_batch p)[local_batch_count p := ev],
                      local_batch_count := local_batch_count p + 1\<rparr>)"
  using assms by (simp add: batch_inv_def take_Suc_conv_app_nth take_update_cancel)

text \<open>The events that wait in the local batch, oldest first.\<close>

definition pending :: "PschProc \<Rightarrow> PschEvent list" where
  "pending p = take (local_batch_count p) (local_batch p)"

lemma pending_add:
  assumes "batch_inv p" "local_batch_count p < PSCH_LOCAL_BATCH_CAPACITY"
  shows "pending (p\<lparr>local_batch := (local_batch p)[local_batch_count p := ev],
                    local_batch_count := local_batch_count p + 1\<rparr>) = pending p @ [ev]"
  using assms by (simp add: batch_inv_def pending_def take_Suc_conv_app_nth take_update_cancel)

lemma PschLocalBatchFlush_empty:
  "local_batch_count p = 0 \<Longrightarrow> PschLocalBatchFlush g env (sh, p) = Some ((sh, p), Ret 0)"
  by (simp add: PschLocalBatchFlush_def pg_ret_def)

lemma PschLocalBatchFlush_spec:
  assumes inv: "queue_inv sh" "batch_inv p" and env: "dsa_allocate_fresh env" "lwlock_ok env"
    and p: "proc_ready sh p" "\<not> holds_lock p" and on: "psch_enabled g" and cnt: "0 < local_batch_count p"
  defines "sh0 \<equiv> if queue_full sh then sh else lwlock_wait env sh"
  shows "\<exists>sh' p' r as. PschLocalBatchFlush g env (sh, p) = Some ((sh', p'), r) \<and>
     same_proc (p\<lparr>local_batch_count := 0\<rparr>) p' \<and> batch_appended (pending p) sh0 sh' as \<and>
     batch_outcome g env p 0 (length (pending p)) sh0 sh' as r"
proof -
  let ?p = "p\<lparr>local_batch_count := 0\<rparr>"
  have len: "length (pending p) = local_batch_count p"
    using inv(2) by (simp add: batch_inv_def pending_def)
  have "PschLocalBatchFlush g env (sh, p) =
      PschEnqueueBatch g env (local_batch p) (local_batch_count p) (sh, ?p)"
    using cnt by (simp add: PschLocalBatchFlush_def)
  moreover have "\<exists>sh' p' r as. PschEnqueueBatch g env (local_batch p) (local_batch_count p) (sh, ?p)
        = Some ((sh', p'), r) \<and> same_proc ?p p' \<and>
      batch_appended (take (local_batch_count p) (local_batch p)) sh0 sh' as \<and>
      batch_outcome g env ?p 0 (local_batch_count p) sh0 sh' as r"
    unfolding sh0_def
    by (rule PschEnqueueBatch_spec [OF inv(1) env])
      (use p on cnt inv(2) in \<open>simp_all add: batch_inv_def\<close>)
  moreover have "batch_outcome g env ?p 0 n a b as r = batch_outcome g env p 0 n a b as r" for n a b as r
    by (cases r) (simp_all add: batch_outcome_def)
  ultimately show ?thesis by (simp add: len) (simp add: pending_def)
qed

definition batch_initialized :: "PschProc \<Rightarrow> PschProc" where
  "batch_initialized p =
     (if local_batch_initialized p then p
      else (on_shmem_exit PschLocalBatchShutdownCb (p\<lparr>xact_callback_registered := True\<rparr>))
             \<lparr>local_batch_initialized := True\<rparr>)"

lemma batch_initialized_simps [simp]:
  "local_batch (batch_initialized p) = local_batch p"
  "local_batch_count (batch_initialized p) = local_batch_count p"
  "holds_lock (batch_initialized p) = holds_lock p"
  "disable_error_capture (batch_initialized p) = disable_error_capture p"
  "proc_ready sh (batch_initialized p) = proc_ready sh p"
  "batch_inv (batch_initialized p) = batch_inv p" "pending (batch_initialized p) = pending p"
  "psch_dsa (batch_initialized p) = psch_dsa p" "local_batch_initialized (batch_initialized p)"
  by (simp_all add: batch_initialized_def PschLocalBatchInit_def on_shmem_exit_def proc_ready_def
      batch_inv_def pending_def)

lemma PschLocalBatchAdd_init:
  "PschLocalBatchAdd g env ev (sh, p) = PschLocalBatchAdd g env ev (sh, batch_initialized p)"
  by (cases "local_batch_initialized p")
    (simp_all add: PschLocalBatchAdd_def batch_initialized_def PschLocalBatchInit_def Let_def)

text \<open>The process state after a successful add.\<close>

definition with_pending :: "PschEvent \<Rightarrow> PschProc \<Rightarrow> PschProc" where
  "with_pending ev p = p\<lparr>local_batch := (local_batch p)[local_batch_count p := ev],
                         local_batch_count := local_batch_count p + 1\<rparr>"

lemma PschLocalBatchAdd_room:
  assumes "batch_inv p" "local_batch_count p < PSCH_LOCAL_BATCH_CAPACITY"
  shows "PschLocalBatchAdd g env ev (sh, p) = Some ((sh, with_pending ev (batch_initialized p)), Ret ())"
  unfolding PschLocalBatchAdd_init [of g env ev sh p]
  using assms by (simp add: PschLocalBatchAdd_def pg_ret_def batch_inv_def with_pending_def Let_def)

lemma PschLocalBatchAdd_full:
  assumes "batch_inv p" "local_batch_count p = PSCH_LOCAL_BATCH_CAPACITY"
  shows "PschLocalBatchAdd g env ev (sh, p) =
     pg_bind (PschLocalBatchFlush g env (sh, batch_initialized p))
       (\<lambda>(sh, p) _. if local_batch_count p < length (local_batch p)
                    then pg_ret (sh, with_pending ev p) () else None)"
  unfolding PschLocalBatchAdd_init [of g env ev sh p]
  using assms by (simp add: PschLocalBatchAdd_def with_pending_def Let_def pg_bind_def pg_ret_def
      split: option.split outcome.split)

subsection \<open>\<^verbatim>\<open>PschEnqueueEvent\<close>\<close>

text \<open>What a backend may rely on before, and must re-establish after, every enqueue.\<close>

definition producer_ok :: "PschSharedState \<Rightarrow> PschProc \<Rightarrow> bool" where
  "producer_ok sh p \<longleftrightarrow> queue_inv sh \<and> batch_inv p \<and> proc_ready sh p \<and> \<not> holds_lock p"

definition env_ok :: "pg_env \<Rightarrow> bool" where
  "env_ok env \<longleftrightarrow> dsa_allocate_fresh env \<and> lwlock_ok env"

lemma with_pending_simps [simp]:
  "holds_lock (with_pending ev p) = holds_lock p"
  "disable_error_capture (with_pending ev p) = disable_error_capture p"
  "proc_ready sh (with_pending ev p) = proc_ready sh p"
  by (simp_all add: with_pending_def proc_ready_def)

lemma PschEnqueueEvent_disabled:
  "\<not> psch_shared_state p \<or> \<not> psch_enabled g \<Longrightarrow>
     PschEnqueueEvent g env ev (sh, p) = Some ((sh, p), Ret False)"
  by (auto simp: PschEnqueueEvent_def pg_ret_def)

lemma PschEnqueueEvent_full:
  "psch_shared_state p \<Longrightarrow> psch_enabled g \<Longrightarrow> queue_full sh \<Longrightarrow>
     PschEnqueueEvent g env ev (sh, p) = Some ((overflowed 1 sh True, p), Ret False)"
  by (simp add: PschEnqueueEvent_def PschSuppressErrorCapture_def queue_full_def HandleOverflow_guarded
      pg_ret_def)

lemma PschEnqueueEvent_locked:
  assumes "psch_shared_state p" "psch_enabled g" "\<not> queue_full sh" "\<not> lock sh"
  shows "PschEnqueueEvent g env ev (sh, p) =
     pg_finally (TryEnqueueLocked g env ev (capacity sh)
         (sh\<lparr>lock := True\<rparr>, p\<lparr>disable_error_capture := True, holds_lock := True\<rparr>))
       (unlock_and_restore (disable_error_capture p))"
  using assms
  by (simp add: PschEnqueueEvent_def PschSuppressErrorCapture_def queue_full_def
      LWLockConditionalAcquire_def)

lemma PschEnqueueEvent_contended:
  assumes "psch_shared_state p" "psch_enabled g" "\<not> queue_full sh" "lock sh"
  shows "PschEnqueueEvent g env ev (sh, p) =
     pg_bind (PschLocalBatchAdd g env ev (sh, p)) (\<lambda>w _. pg_ret w True)"
  using assms
  by (simp add: PschEnqueueEvent_def PschSuppressErrorCapture_def queue_full_def
      LWLockConditionalAcquire_def)

text \<open>With the lock free: the event is appended, or dropped by the debug switch, or attaching fails.\<close>

lemma PschEnqueueEvent_free:
  assumes ok: "producer_ok sh p" and env: "dsa_allocate_fresh env" and ev: "event_shape ev"
    and on: "psch_enabled g" and free: "\<not> queue_full sh" "\<not> lock sh"
  shows "\<exists>sh' p' r. PschEnqueueEvent g env ev (sh, p) = Some ((sh', p'), r) \<and> same_proc p p' \<and>
     queue_inv sh' \<and> \<not> lock sh' \<and> raw_dsa_area sh' \<and>
     (if psch_debug_force_locked_overflow g
      then r = Ret False \<and> sh' = overflowed 1 sh True \<and> p' = p
      else (r = Ret True \<and> (\<exists>a. abs_queue sh' = abs_queue sh @ [a] \<and> stored_as env sh ev a) \<and>
              enqueued sh' = enqueued sh + 1 \<and> dropped sh' = dropped sh) \<or>
           (r = Throw \<and> abs_queue sh' = abs_queue sh \<and> enqueued sh' = enqueued sh \<and>
              dropped sh' = dropped sh \<and> \<not> psch_dsa p \<and> \<not> dsa_attach_ok env))"
proof -
  have inv: "queue_inv sh" "proc_ready sh p" "\<not> holds_lock p" using ok by (simp_all add: producer_ok_def)
  have ps: "psch_shared_state p" using inv(2) by (simp add: proc_ready_def)
  let ?sh = "sh\<lparr>lock := True\<rparr>" and ?p = "p\<lparr>disable_error_capture := True, holds_lock := True\<rparr>"
  note enq = PschEnqueueEvent_locked [OF ps on free, of env ev]
  have raw: "raw_dsa_area s" if "queue_inv s" for s using that by (simp add: queue_inv_def)
  show ?thesis
  proof (cases "psch_debug_force_locked_overflow g")
    case True
    have "PschEnqueueEvent g env ev (sh, p) =
        Some (unlock_and_restore (disable_error_capture p) (overflowed 1 ?sh True, ?p), Ret False)"
      unfolding enq using TryEnqueueLocked_full [of ?sh g ?p env ev] True by simp
    moreover have "(overflowed 1 ?sh True)\<lparr>lock := False\<rparr> = overflowed 1 sh True"
      using free(2) by (cases sh) (simp add: overflowed_def)
    moreover have "?p\<lparr>holds_lock := False, disable_error_capture := disable_error_capture p\<rparr> = p"
      using inv(3) by simp
    ultimately show ?thesis using True inv(1) free(2) raw by simp
  next
    case False
    have locked: "queue_inv ?sh" "proc_ready ?sh ?p" "\<not> queue_full ?sh" using inv free by simp_all
    show ?thesis
      using locked(1) env ev locked(2,3) False
    proof (cases rule: TryEnqueueLocked_spec)
      case (ret sh1 p1 a)
      note out = same_outside_ringD [OF ret(6)]
      have "stored_as env sh ev a"
        using ret(5) stored_as_cong [of ?sh sh env ev a] by simp
      then show ?thesis
        using ret False out raw same_proc_restore [OF ret(2) inv(3)] unfolding enq
        by (intro exI [of _ "sh1\<lparr>lock := False\<rparr>"] exI [of _ "Ret True"]
            exI [of _ "p1\<lparr>holds_lock := False, disable_error_capture := disable_error_capture p\<rparr>"]) auto
    next
      case (throws sh1 p1)
      note out = same_outside_ringD [OF throws(5)]
      show ?thesis
        using throws False out raw same_proc_restore [OF throws(2) inv(3)] unfolding enq
        by (intro exI [of _ "sh1\<lparr>lock := False\<rparr>"] exI [of _ Throw]
            exI [of _ "p1\<lparr>holds_lock := False, disable_error_capture := disable_error_capture p\<rparr>"]) auto
    qed
  qed
qed

lemma PschEnqueueEvent_buffered:
  assumes "producer_ok sh p" "psch_enabled g" "\<not> queue_full sh" "lock sh"
    "local_batch_count p < PSCH_LOCAL_BATCH_CAPACITY"
  shows "PschEnqueueEvent g env ev (sh, p) = Some ((sh, with_pending ev (batch_initialized p)), Ret True)"
  using assms PschLocalBatchAdd_room [of p g env ev sh]
  by (simp add: PschEnqueueEvent_contended producer_ok_def proc_ready_def pg_ret_def)

lemma with_pending_ok:
  assumes "batch_inv p" "event_shape ev" "local_batch_count p < PSCH_LOCAL_BATCH_CAPACITY"
  shows "batch_inv (with_pending ev p)" "pending (with_pending ev p) = pending p @ [ev]"
  using batch_inv_add [OF assms] pending_add [OF assms(1,3), of ev] by (simp_all add: with_pending_def)

text \<open>A full local batch is flushed first; the new event then waits alone.\<close>

lemma PschEnqueueEvent_flush:
  assumes ok: "producer_ok sh p" and env: "env_ok env" and ev: "event_shape ev" and on: "psch_enabled g"
    and busy: "\<not> queue_full sh" "lock sh" and cnt: "local_batch_count p = PSCH_LOCAL_BATCH_CAPACITY"
  shows "\<exists>sh' p' r as. PschEnqueueEvent g env ev (sh, p) = Some ((sh', p'), r) \<and>
     batch_appended (pending p) (lwlock_wait env sh) sh' as \<and> batch_inv p' \<and> \<not> holds_lock p' \<and>
     disable_error_capture p' = disable_error_capture p \<and> proc_ready sh' p' \<and>
     (case r of
        Ret b \<Rightarrow> b \<and> pending p' = [ev] \<and>
          batch_outcome g env p 0 PSCH_LOCAL_BATCH_CAPACITY (lwlock_wait env sh) sh' as (Ret (length as))
      | Throw \<Rightarrow> pending p' = [] \<and> \<not> psch_dsa p \<and> \<not> dsa_attach_ok env)"
proof -
  let ?p = "batch_initialized p"
  have inv: "queue_inv sh" "batch_inv p" "proc_ready sh p" "\<not> holds_lock p"
    using ok by (simp_all add: producer_ok_def)
  have e: "dsa_allocate_fresh env" "lwlock_ok env" using env by (simp_all add: env_ok_def)
  have len: "length (pending p) = 8" using inv(2) cnt by (simp add: batch_inv_def pending_def)
  have "\<exists>sh' p' r as. PschLocalBatchFlush g env (sh, ?p) = Some ((sh', p'), r) \<and>
      same_proc (?p\<lparr>local_batch_count := 0\<rparr>) p' \<and>
      batch_appended (pending ?p) (if queue_full sh then sh else lwlock_wait env sh) sh' as \<and>
      batch_outcome g env ?p 0 (length (pending ?p)) (if queue_full sh then sh else lwlock_wait env sh) sh' as r"
    by (rule PschLocalBatchFlush_spec) (use inv e on cnt in simp_all)
  then obtain sh1 p1 r as where F: "PschLocalBatchFlush g env (sh, ?p) = Some ((sh1, p1), r)"
      "same_proc (?p\<lparr>local_batch_count := 0\<rparr>) p1" "batch_appended (pending p) (lwlock_wait env sh) sh1 as"
      "batch_outcome g env ?p 0 8 (lwlock_wait env sh) sh1 as r"
    using busy(1) len by auto
  note p1 = same_procD [OF F(2)]
  have b1: "batch_inv p1" using batch_inv_same_proc [OF F(2)] inv(2) by simp
  have ready: "proc_ready sh1 p1"
    using F(3) inv(3) p1 by (simp add: batch_appended_def queue_inv_def proc_ready_def batch_initialized_def
        PschLocalBatchInit_def on_shmem_exit_def split: if_splits)
  have ne: "local_batch p \<noteq> []" using inv(2) by (auto simp: batch_inv_def)
  have enq: "PschEnqueueEvent g env ev (sh, p) = (case r of
      Ret n \<Rightarrow> Some ((sh1, with_pending ev p1), Ret True) | Throw \<Rightarrow> Some ((sh1, p1), Throw))"
    using PschEnqueueEvent_contended [of p g sh env ev] on busy inv(3) F(1) p1 ne
      PschLocalBatchAdd_full [OF inv(2) cnt, of g env ev sh]
    by (cases r) (simp_all add: proc_ready_def pg_ret_def)
  show ?thesis
  proof (cases r)
    case (Ret n)
    have "pending p1 = []" using p1 by (simp add: pending_def)
    moreover have "batch_outcome g env p 0 8 (lwlock_wait env sh) sh1 as (Ret (length as))"
      using F(4) Ret by (simp add: batch_outcome_def)
    ultimately show ?thesis
      using enq Ret F(3) ready p1 inv with_pending_ok [OF b1 ev]
      by (intro exI [of _ sh1] exI [of _ "with_pending ev p1"] exI [of _ "Ret True"] exI [of _ as]) simp
  next
    case Throw
    then show ?thesis
      using enq F(3,4) ready p1 inv b1
      by (intro exI [of _ sh1] exI [of _ p1] exI [of _ Throw] exI [of _ as])
        (simp add: pending_def batch_outcome_def)
  qed
qed

lemma PschEnqueueEvent_safe:
  assumes ok: "producer_ok sh p" and env: "env_ok env" and ev: "event_shape ev"
  shows "\<exists>sh' p' r. PschEnqueueEvent g env ev (sh, p) = Some ((sh', p'), r) \<and> producer_ok sh' p' \<and>
     disable_error_capture p' = disable_error_capture p \<and> (lock sh' \<longrightarrow> lock sh)"
proof -
  have inv: "queue_inv sh" "batch_inv p" "proc_ready sh p" "\<not> holds_lock p"
    using ok by (simp_all add: producer_ok_def)
  have ps: "psch_shared_state p" using inv(3) by (simp add: proc_ready_def)
  consider "\<not> psch_enabled g" | "psch_enabled g" "queue_full sh"
    | "psch_enabled g" "\<not> queue_full sh" "\<not> lock sh"
    | "psch_enabled g" "\<not> queue_full sh" "lock sh" "local_batch_count p < PSCH_LOCAL_BATCH_CAPACITY"
    | "psch_enabled g" "\<not> queue_full sh" "lock sh" "local_batch_count p = PSCH_LOCAL_BATCH_CAPACITY"
    using inv(2) unfolding batch_inv_def by fastforce
  then show ?thesis
  proof cases
    case 1
    then show ?thesis using PschEnqueueEvent_disabled ok by simp
  next
    case 2
    then show ?thesis using PschEnqueueEvent_full [OF ps] ok by (simp add: producer_ok_def)
  next
    case 3
    have "dsa_allocate_fresh env" using env by (simp add: env_ok_def)
    from PschEnqueueEvent_free [OF ok this ev 3] obtain sh' p' r where
      F: "PschEnqueueEvent g env ev (sh, p) = Some ((sh', p'), r)" "same_proc p p'" "queue_inv sh'" "\<not> lock sh'"
        "raw_dsa_area sh'" by blast
    have "batch_inv p'" using batch_inv_same_proc [OF F(2)] inv(2) by simp
    moreover have "proc_ready sh' p'" using F(5) inv(3) same_procD [OF F(2)] by (simp add: proc_ready_def)
    ultimately show ?thesis using F same_procD [OF F(2)] inv(4) by (auto simp: producer_ok_def)
  next
    case 4
    then show ?thesis
      using PschEnqueueEvent_buffered [OF ok 4] inv with_pending_ok [of "batch_initialized p" ev] ev
      by (simp add: producer_ok_def)
  next
    case 5
    from PschEnqueueEvent_flush [OF ok env ev 5] 5(3) show ?thesis
      unfolding producer_ok_def batch_appended_def by blast
  qed
qed

end
