(* ===== verification/Psch_Boot.thy ===== *)
theory Psch_Boot
  imports Psch_Local_Batch
begin

section \<open>Start-up: the states the system really has\<close>

text \<open>
  The static initialisers of a process, the segment after the start-up hook, and a concrete
  environment. They show that the invariants the other theories assume hold from the start,
  and give the theorems with hypotheses something to be applied to.
\<close>

definition PschProc_init :: PschProc where
  "PschProc_init =
     \<lparr>psch_shared_state = False, psch_query_intern_htab = False, psch_dsa = False,
      psch_dsa_exit_hook_registered = False, shmem_exit_list = [], holds_lock = False,
      disable_error_capture = False,
      local_batch = replicate PSCH_LOCAL_BATCH_CAPACITY zero_event, local_batch_count = 0,
      local_batch_initialized = False, xact_callback_registered = False\<rparr>"

text \<open>A segment whose bytes have not been written yet.\<close>

definition raw_segment :: PschSharedState where
  "raw_segment =
     \<lparr>lock = False, raw_dsa_area = False, dsa_oom_count = 0, capacity = 0, head = 0, enqueued = 0,
      dropped = 0, overflow_logged = False, tail = 0, exported = 0, send_failures = 0,
      last_success_ts = 0, last_error_ts = 0, last_error_text = [], bgworker_pid = 0,
      ring_buffer = [], dsa_area = Map.empty, dsa_refcnt = 0, intern_tab = Map.empty,
      server_log = []\<rparr>"

definition boot_world :: "guc \<Rightarrow> world" where
  "boot_world g =
     (case PschShmemStartupHook g (\<lambda>w. w) True False (raw_segment, PschProc_init) of
        Some (w, _) \<Rightarrow> w
      | None \<Rightarrow> (raw_segment, PschProc_init))"

text \<open>An allocator with eight cells, an exact hash for short texts, and a polite neighbour.\<close>

definition first_free :: "dsa_heap \<Rightarrow> dsa_pointer" where
  "first_free h = (case find (\<lambda>r. h r = None) [1, 2, 3, 4, 5, 6, 7, 8] of
      Some r \<Rightarrow> r | None \<Rightarrow> InvalidDsaPointer)"

definition sample_env :: pg_env where
  "sample_env =
     \<lparr>dsa_attach_ok = True, dsa_allocate = (\<lambda>h n. first_free h), uninit_byte = (\<lambda>i. CHR 0x7F),
      hash_any_extended = (\<lambda>s. of_nat (sum_list (map of_char s))),
      get_hash_value = (\<lambda>k. ucast (key_query_hash k)), htab_full = (\<lambda>t. False),
      lwlock_wait = (\<lambda>sh. sh\<lparr>lock := False\<rparr>), GetCurrentTimestamp = 42,
      log_capture = (\<lambda>m w. None)\<rparr>"

lemma first_free_fresh: "first_free h \<noteq> InvalidDsaPointer \<Longrightarrow> h (first_free h) = None"
proof (cases "find (\<lambda>r. h r = None) [1, 2, 3, 4, 5, 6, 7, 8 :: dsa_pointer]")
  case (Some r)
  then have "h r = None" unfolding find_Some_iff by blast
  with Some show ?thesis by (simp add: first_free_def)
next
  case None
  then show "first_free h \<noteq> InvalidDsaPointer \<Longrightarrow> ?thesis" by (simp add: first_free_def)
qed

lemma sample_env_ok [simp]: "env_ok sample_env"
proof -
  have "(sh\<lparr>lock := False\<rparr> :: PschSharedState) = sh" if "\<not> lock sh" for sh
    using that by simp
  then show ?thesis
    by (auto simp: env_ok_def dsa_allocate_fresh_def lwlock_ok_def sample_env_def first_free_fresh)
qed

lemma sample_env_fresh [simp]: "dsa_allocate_fresh sample_env"
  using sample_env_ok by (simp add: env_ok_def)

lemma heap_inv_init:
  "dsa_area sh = Map.empty \<Longrightarrow> intern_tab sh = Map.empty \<Longrightarrow> heap_inv sh []"
  by (simp add: heap_inv_def intern_inv_def)

text \<open>
  The result of the start-up hook in a process that finds no segment: an empty, consistent
  queue whose capacity is the configured one.
\<close>

lemma PschShmemStartupHook_fresh:
  assumes "psch_queue_capacity g = 2 ^ k" "k \<le> 22" "batch_inv p" "\<not> holds_lock p"
  shows "\<exists>sh' p'. PschShmemStartupHook g (\<lambda>w. w) True False (sh, p) = Some ((sh', p'), Ret ()) \<and>
     producer_ok sh' p' \<and> abs_queue sh' = [] \<and> \<not> lock sh' \<and> unat (capacity sh') = 2 ^ k \<and>
     dropped sh' = 0 \<and> enqueued sh' = 0 \<and> exported sh' = 0 \<and> dsa_area sh' = Map.empty \<and>
     disable_error_capture p' = disable_error_capture p \<and> pending p' = pending p \<and> psch_dsa p' = psch_dsa p"
proof -
  have c: "unat (word_of_int (psch_queue_capacity g) :: u32) = 2 ^ k"
    using pow2_capacity_unat [OF assms(2)] by (simp add: assms(1))
  obtain sh' p' where S: "PschShmemStartupHook g (\<lambda>w. w) True False (sh, p) = Some ((sh', p'), Ret ())"
    and sh': "capacity sh' = word_of_int (psch_queue_capacity g)" "head sh' = 0" "tail sh' = 0"
      "ring_buffer sh' = replicate (nat (psch_queue_capacity g)) zero_slot"
      "dsa_area sh' = Map.empty" "intern_tab sh' = Map.empty" "raw_dsa_area sh'"
      "last_error_text sh' = replicate 256 NUL" "\<not> lock sh'" "dropped sh' = 0" "enqueued sh' = 0" "exported sh' = 0"
    and p': "psch_shared_state p'" "psch_query_intern_htab p'" "\<not> holds_lock p'" "batch_inv p'"
      "disable_error_capture p' = disable_error_capture p" "pending p' = pending p" "psch_dsa p' = psch_dsa p"
    using assms(3,4)
    by (simp add: PschShmemStartupHook_def InitializeSharedState_def PschDsaInit_def server_log_write_def
        on_shmem_exit_def pg_ret_def batch_inv_def pending_def)
  have "queue_inv sh'"
    using sh' c assms(1) heap_inv_init [OF sh'(5,6)]
    by (auto simp: queue_inv_def live_def pow2_capacity_def nat_power_eq)
  with S sh' p' c show ?thesis
    by (intro exI [of _ sh'] exI [of _ p'])
      (simp add: producer_ok_def proc_ready_def abs_queue_def live_def)
qed

lemma zero_event_shape [simp]: "event_shape zero_event"
  by (simp add: event_shape_def zero_event_def zero_fixed_def PschEvent.defs psch_fixed.defs)

lemma PschProc_init_batch [simp]: "batch_inv PschProc_init"
  by (simp add: batch_inv_def PschProc_init_def)

lemma boot_world_facts:
  "producer_ok (fst (boot_world guc_init)) (snd (boot_world guc_init))"
  "abs_queue (fst (boot_world guc_init)) = []" "\<not> lock (fst (boot_world guc_init))"
  "unat (capacity (fst (boot_world guc_init))) = 131072"
  "dsa_area (fst (boot_world guc_init)) = Map.empty"
proof -
  have g: "psch_queue_capacity guc_init = 2 ^ 17" by (simp add: guc_init_def)
  have h: "\<not> holds_lock PschProc_init" by (simp add: PschProc_init_def)
  obtain sh' p' where S: "boot_world guc_init = (sh', p')" "producer_ok sh' p'" "abs_queue sh' = []"
      "\<not> lock sh'" "unat (capacity sh') = 2 ^ 17" "dsa_area sh' = Map.empty"
    using PschShmemStartupHook_fresh [OF g _ PschProc_init_batch h, of raw_segment]
    by (auto simp: boot_world_def)
  then show "producer_ok (fst (boot_world guc_init)) (snd (boot_world guc_init))"
    "abs_queue (fst (boot_world guc_init)) = []" "\<not> lock (fst (boot_world guc_init))"
    "unat (capacity (fst (boot_world guc_init))) = 131072"
    "dsa_area (fst (boot_world guc_init)) = Map.empty"
    by simp_all
qed

end
