(* ===== verification/Psch_String_Utils.thy ===== *)
theory Psch_String_Utils
  imports Psch_Prelude
begin

section \<open>String helpers of the hooks (\<^verbatim>\<open>string_utils.h\<close>)\<close>

text \<open>
  Copying and trimming. A C pointer to characters is the list of the bytes it points at
  (up to the end of the object), and a NULL pointer is \<^const>\<open>None\<close> where the code tests for
  it. The result is \<^const>\<open>None\<close> when the code would read or write outside its buffers. Sizes
  are 64-bit words, so \<^verbatim>\<open>dst_size - 1\<close> wraps as in C. \<^verbatim>\<open>isspace\<close> is that of the C and of the
  UTF-8 locales. The reference definitions are \<open>ltrim\<close>, \<open>rtrim\<close> and \<open>strip\<close>.
\<close>

definition isspace :: "char \<Rightarrow> bool" where
  "isspace c \<longleftrightarrow> of_char c = (32::nat) \<or> 9 \<le> (of_char c :: nat) \<and> of_char c \<le> (13::nat)"

text \<open>\<^verbatim>\<open>strlcpy\<close> with its writes checked against the destination.\<close>

definition strlcpy_into ::
    "char list \<Rightarrow> char list \<Rightarrow> u64 \<Rightarrow> (char list \<times> u64) option" where
  "strlcpy_into dst src dst_size =
     (if dst_size \<noteq> 0 \<and> length dst \<le> min (length (cstr src)) (unat dst_size - 1) then None
      else let (buf, n) = strlcpy dst src (unat dst_size) in Some (buf, of_nat n))"

definition PschCopyName :: "char list \<Rightarrow> u64 \<Rightarrow> char list \<Rightarrow> (char list \<times> u8) option" where
  "PschCopyName dst dst_size src =
     (case strlcpy_into dst src dst_size of
        None \<Rightarrow> None
      | Some (buf, len) \<Rightarrow> Some (buf, ucast (min len (dst_size - 1))))"

primrec trim_len :: "char list \<Rightarrow> nat \<Rightarrow> nat" where
  "trim_len str 0 = 0"
| "trim_len str (Suc len) = (if isspace (str ! len) then trim_len str len else Suc len)"

definition PschTrimTrailing :: "char list \<Rightarrow> nat \<Rightarrow> (char list \<times> nat) option" where
  "PschTrimTrailing str len =
     (if length str < len then None
      else
        let len = trim_len str len in
        case set_byte str len NUL of None \<Rightarrow> None | Some str \<Rightarrow> Some (str, len))"

fun skip_leading :: "char list \<Rightarrow> char list" where
  "skip_leading [] = []"
| "skip_leading (c # src) = (if c \<noteq> NUL \<and> isspace c then skip_leading src else c # src)"

definition PschCopyTrimmed ::
    "char list \<Rightarrow> u64 \<Rightarrow> char list option \<Rightarrow> (char list \<times> nat) option" where
  "PschCopyTrimmed dst dst_size src =
     (case src of
        Some src \<Rightarrow>
          if dst_size = 0 then Some (dst, 0)
          else
            let src = skip_leading src in
            (case strlcpy_into dst src dst_size of
               None \<Rightarrow> None
             | Some (dst, src_len) \<Rightarrow>
                 let len = min src_len (dst_size - 1) in PschTrimTrailing dst (unat len))
      | None \<Rightarrow>
          if 0 < dst_size then
            (case set_byte dst 0 NUL of None \<Rightarrow> None | Some dst \<Rightarrow> Some (dst, 0))
          else Some (dst, 0))"

text \<open>The two loops of \<^verbatim>\<open>PschCopyTrimmedStatement\<close>: here the length bounds them, not a NUL.\<close>

fun skip_leading_n :: "char list \<Rightarrow> nat \<Rightarrow> (char list \<times> nat) option" where
  "skip_leading_n q 0 = Some (q, 0)"
| "skip_leading_n [] (Suc n) = None"
| "skip_leading_n (c # q) (Suc n) = (if isspace c then skip_leading_n q n else Some (c # q, Suc n))"

definition PschCopyTrimmedStatement ::
    "char list option \<Rightarrow> int \<Rightarrow> char list option option" where
  "PschCopyTrimmedStatement query_text query_len =
     (case query_text of
        None \<Rightarrow> Some None
      | Some query_text \<Rightarrow>
          if query_len \<le> 0 then Some None
          else
            (case skip_leading_n query_text (nat query_len) of
               None \<Rightarrow> None
             | Some (query_text, query_len) \<Rightarrow>
                 if length query_text < query_len then None
                 else
                   let query_len = trim_len query_text query_len
                   in Some (Some (take query_len query_text @ [NUL]))))"

subsection \<open>Reference definitions\<close>

definition ltrim :: "char list \<Rightarrow> char list" where
  "ltrim s = dropWhile isspace s"

definition rtrim :: "char list \<Rightarrow> char list" where
  "rtrim s = rev (dropWhile isspace (rev s))"

definition strip :: "char list \<Rightarrow> char list" where
  "strip s = rtrim (ltrim s)"

lemma rtrim_Nil [simp]: "rtrim [] = []"
  by (simp add: rtrim_def)

lemma rtrim_snoc: "rtrim (s @ [c]) = (if isspace c then rtrim s else s @ [c])"
  by (simp add: rtrim_def)

lemma rtrim_idem [simp]: "rtrim (rtrim s) = rtrim s"
  by (simp add: rtrim_def)

lemma set_rtrim: "set (rtrim s) \<subseteq> set s"
  by (auto simp: rtrim_def dest: set_dropWhileD)

lemma rtrim_length: "length (rtrim s) \<le> length s"
  using length_dropWhile_le [of isspace "rev s"] by (simp add: rtrim_def)

lemma rtrim_last: "rtrim s \<noteq> [] \<Longrightarrow> \<not> isspace (last (rtrim s))"
  using hd_dropWhile [of isspace "rev s"] by (auto simp: rtrim_def last_rev)

lemma isspace_NUL [simp]: "\<not> isspace NUL"
  by (simp add: isspace_def)

lemma trim_len_le: "trim_len str len \<le> len"
  by (induction len) (auto intro: le_SucI)

lemma trim_len_take: "len \<le> length str \<Longrightarrow> take (trim_len str len) str = rtrim (take len str)"
  by (induction len) (auto simp: take_Suc_conv_app_nth rtrim_snoc)

lemma trim_len_eq: "len \<le> length str \<Longrightarrow> trim_len str len = length (rtrim (take len str))"
  using trim_len_take [of len str] trim_len_le [of str len]
  by (metis length_take min.absorb2 order_trans)

lemma skip_leading_ltrim: "cstr (skip_leading src) = ltrim (cstr src)"
  by (induction src) (auto simp: cstr_def ltrim_def)

lemma skip_leading_n_eq:
  "n \<le> length q \<Longrightarrow>
     skip_leading_n q n =
       (let m = length (takeWhile isspace (take n q)) in Some (drop m q, n - m))"
  by (induction q n rule: skip_leading_n.induct) (auto simp: Let_def)

lemma PschTrimTrailing_eq:
  assumes "len < length str"
  shows "PschTrimTrailing str len
           = Some (rtrim (take len str) @ NUL # drop (Suc (trim_len str len)) str, trim_len str len)"
    and "trim_len str len = length (rtrim (take len str))"
proof -
  let ?n = "trim_len str len"
  have n: "?n < length str" using trim_len_le [of str len] assms by simp
  have "str[?n := NUL] = take ?n str @ NUL # drop (Suc ?n) str"
    using n by (simp add: upd_conv_take_nth_drop)
  with n assms show "PschTrimTrailing str len
      = Some (rtrim (take len str) @ NUL # drop (Suc ?n) str, ?n)"
    by (simp add: PschTrimTrailing_def Let_def trim_len_take)
  show "?n = length (rtrim (take len str))"
    using assms by (simp add: trim_len_eq)
qed

lemma PschTrimTrailing_length: "PschTrimTrailing str len = Some (a, b) \<Longrightarrow> length a = length str"
  by (auto simp: PschTrimTrailing_def Let_def set_byte_def split: if_splits)

text \<open>Dropping the leading blanks of a slice by pointer arithmetic is \<^const>\<open>ltrim\<close>.\<close>

lemma ltrim_take:
  "take (n - length (takeWhile isspace (take n q))) (drop (length (takeWhile isspace (take n q))) q)
     = ltrim (take n q)"
  by (simp add: ltrim_def dropWhile_eq_drop drop_take)

lemma strlcpy_into_eq:
  assumes "0 < unat sz" and "unat sz \<le> length dst"
  shows "strlcpy_into dst src sz =
           Some (take (unat sz - 1) (cstr src) @ NUL #
                   drop (Suc (min (length (cstr src)) (unat sz - 1))) dst,
                 of_nat (length (cstr src)))"
  using assms by (auto simp: strlcpy_into_def strlcpy_def Let_def min_def)

lemma clamp_len:
  assumes "0 < unat (sz :: u64)" and "n < 2 ^ 64"
  shows "unat (min (of_nat n) (sz - 1)) = min n (unat sz - 1)"
proof -
  have "sz \<noteq> 0" using assms(1) by auto
  then show ?thesis
    using assms(2) by (simp add: unat_min_word unat_sub1_word unat_of_nat take_bit_nat_eq_self)
qed

lemma copy_trimmed_holds:
  assumes "0 < unat sz" and "unat sz \<le> length dst" and "length (cstr src) < 2 ^ 64"
  shows "\<exists>dst'. PschCopyTrimmed dst sz (Some src)
                  = Some (dst', length (rtrim (take (unat sz - 1) (ltrim (cstr src)))))
              \<and> length dst' = length dst
              \<and> holds_str dst' (rtrim (take (unat sz - 1) (ltrim (cstr src))))"
proof -
  define s where "s = ltrim (cstr src)"
  define k where "k = unat sz - 1"
  define m where "m = min (length s) k"
  define d where "d = take k s @ NUL # drop (Suc m) dst"
  define t where "t = rtrim (take k s)"
  have "length s < 2 ^ 64"
    using assms(3) length_dropWhile_le [of isspace "cstr src"] by (simp add: s_def ltrim_def)
  then have len: "unat (min (of_nat (length s)) (sz - 1)) = m"
    using assms(1) clamp_len unfolding m_def k_def by blast
  have md: "m < length d" and td: "take m d = take k s"
    by (auto simp: d_def m_def min_def)
  have ld: "length d = length dst"
    using assms(1,2) by (auto simp: d_def m_def k_def min_def)
  have "sz \<noteq> 0" using assms(1) by auto
  then have eq: "PschCopyTrimmed dst sz (Some src) = PschTrimTrailing d m"
    using strlcpy_into_eq [OF assms(1,2), of "skip_leading src"] len
    by (simp add: PschCopyTrimmed_def Let_def skip_leading_ltrim d_def m_def k_def s_def)
  have r: "PschTrimTrailing d m = Some (t @ NUL # drop (Suc (length t)) d, length t)"
    using PschTrimTrailing_eq [OF md] by (simp only: td t_def)
  have "length (t @ NUL # drop (Suc (length t)) d) = length dst"
    using PschTrimTrailing_length [OF r] ld by (rule trans)
  then have "\<exists>dst'. PschCopyTrimmed dst sz (Some src) = Some (dst', length t)
              \<and> length dst' = length dst \<and> holds_str dst' t"
    using r holds_str_append unfolding eq by blast
  then show ?thesis by (simp only: t_def k_def s_def)
qed

text \<open>
  C33. On a slice that lies inside the query text, \<^const>\<open>PschCopyTrimmedStatement\<close> reads
  nothing outside the slice and returns exactly the stripped slice, NUL-terminated. Only an
  empty slice gives \<^verbatim>\<open>NULL\<close>: a slice of blanks gives the empty string.
\<close>

theorem copy_trimmed_statement_strip:
  assumes "m \<le> length q"
  shows "PschCopyTrimmedStatement (Some q) (int m)
           = Some (if m = 0 then None else Some (strip (take m q) @ [NUL]))"
  using assms
  by (simp add: PschCopyTrimmedStatement_def skip_leading_n_eq Let_def trim_len_take
      ltrim_take strip_def) arith

theorem copy_trimmed_statement_strip_witness:
  "PschCopyTrimmedStatement (Some '' a b ;c'') (int 5) = Some (Some (''a b'' @ [NUL]))"
proof -
  have "strip (take 5 '' a b ;c'') = ''a b''" by code_simp
  then show ?thesis
    using copy_trimmed_statement_strip [of 5 "'' a b ;c''"] by simp
qed

end
