(* ===== verification/Psch_Normalize.thy ===== *)
theory Psch_Normalize
  imports Psch_Prelude
begin

section \<open>Query normalization (\<^verbatim>\<open>query_normalize.c\<close>)\<close>

text \<open>
  Replacing the constants of a statement by \<^verbatim>\<open>$1\<close>, \<^verbatim>\<open>$2\<close>, ... The query text is the list of
  the characters before its NUL. Core PostgreSQL gives the locations of the constants and
  the SQL scanner; both are parameters. A scanner is the list of the tokens it returns for a
  text, each with its start and its end; while a token is the current one, the scan buffer
  has a NUL at its end (flex terminates \<^verbatim>\<open>yytext\<close> in place), which is what the code's
  \<^verbatim>\<open>strlen(scanbuf + loc)\<close> measures. \<open>pg18\<close> is \<^verbatim>\<open>PG_VERSION_NUM >= 180000\<close>; older servers do not
  have the fields \<open>squashed\<close> and \<open>extern_param\<close>. \<^const>\<open>None\<close> is an access outside the text.
\<close>

record LocationLen =
  location :: int
  loc_length :: int
  squashed :: bool
  extern_param :: bool

record JumbleState =
  clocations :: "LocationLen list"
  highest_extern_param_id :: int
  has_squashed_lists :: bool

type_synonym tokens = "(nat \<times> nat) list"

record norm_lib =
  pg18 :: bool
  qsort :: "LocationLen list \<Rightarrow> LocationLen list"
  scanner_init :: "char list \<Rightarrow> tokens"

definition CompLocation :: "LocationLen \<Rightarrow> LocationLen \<Rightarrow> int" where
  "CompLocation a b =
     (let l = location a; r = location b in if l < r then -1 else if l > r then 1 else 0)"

text \<open>The contract of \<^verbatim>\<open>qsort\<close> with this comparison: a sorted permutation, ties in any order.\<close>

definition qsort_ok :: "norm_lib \<Rightarrow> bool" where
  "qsort_ok lib \<longleftrightarrow>
     (\<forall>xs. mset (qsort lib xs) = mset xs \<and> sorted_wrt (\<lambda>a b. CompLocation a b \<le> 0) (qsort lib xs))"

definition IsSquashedConstant :: "norm_lib \<Rightarrow> LocationLen \<Rightarrow> bool" where
  "IsSquashedConstant lib l \<longleftrightarrow> pg18 lib \<and> squashed l"

definition ShouldPreserveExternalParam :: "norm_lib \<Rightarrow> JumbleState \<Rightarrow> LocationLen \<Rightarrow> bool" where
  "ShouldPreserveExternalParam lib jstate l \<longleftrightarrow>
     pg18 lib \<and> extern_param l \<and> \<not> has_squashed_lists jstate"

subsection \<open>Finding the lengths of the constants\<close>

text \<open>\<^verbatim>\<open>strlen(yyextra.scanbuf + loc)\<close> when the current token ends at \<open>e\<close>.\<close>

definition strlen_at :: "char list \<Rightarrow> nat \<Rightarrow> nat \<Rightarrow> int" where
  "strlen_at q e loc = int (length (cstr (drop loc (take e q @ NUL # drop (Suc e) q))))"

text \<open>
  The inner loop: the length of the constant at \<open>loc\<close>, or \<^const>\<open>None\<close> at the end of the text,
  and the tokens that remain.
\<close>

fun lex_constant :: "char list \<Rightarrow> nat \<Rightarrow> tokens \<Rightarrow> int option \<times> tokens" where
  "lex_constant q loc [] = (None, [])"
| "lex_constant q loc ((yylloc, e) # toks) =
     (if yylloc \<ge> loc then
        (if loc < length q \<and> q ! loc = CHR ''-'' then
           (case toks of
              [] \<Rightarrow> (None, [])
            | (_, e') # toks \<Rightarrow> (Some (strlen_at q e' loc), toks))
         else (Some (strlen_at q e loc), toks))
      else lex_constant q loc toks)"

fun fill_lengths ::
    "norm_lib \<Rightarrow> char list \<Rightarrow> int \<Rightarrow> int option \<Rightarrow> tokens \<Rightarrow> LocationLen list \<Rightarrow>
       LocationLen list option" where
  "fill_lengths lib q query_loc prev toks [] = Some []"
| "fill_lengths lib q query_loc prev toks (l # locs) =
     (if prev = Some (location l) then
        map_option ((#) (l\<lparr>loc_length := -1\<rparr>))
          (fill_lengths lib q query_loc (Some (location l)) toks locs)
      else if IsSquashedConstant lib l then
        map_option ((#) l) (fill_lengths lib q query_loc (Some (location l)) toks locs)
      else
        let loc = location l - query_loc in
        if loc < 0 then None
        else
          case lex_constant q (nat loc) toks of
            (None, _) \<Rightarrow> Some (l # locs)
          | (Some n, toks) \<Rightarrow>
              map_option ((#) (l\<lparr>loc_length := n\<rparr>))
                (fill_lengths lib q query_loc (Some (location l)) toks locs))"

definition FillInConstantLengths ::
    "norm_lib \<Rightarrow> char list \<Rightarrow> int \<Rightarrow> JumbleState \<Rightarrow> JumbleState option" where
  "FillInConstantLengths lib q query_loc jstate =
     (let locs = (if length (clocations jstate) > 1 then qsort lib (clocations jstate)
                  else clocations jstate)
      in map_option (\<lambda>locs. jstate\<lparr>clocations := locs\<rparr>)
           (fill_lengths lib q query_loc None (scanner_init lib q) locs))"

subsection \<open>Writing the text\<close>

definition digit_char :: "nat \<Rightarrow> char" where
  "digit_char d = char_of (48 + d)"

fun show_nat :: "nat \<Rightarrow> char list" where
  "show_nat n = (if n < 10 then [digit_char n] else show_nat (n div 10) @ [digit_char (n mod 10)])"

declare show_nat.simps [simp del]

lemma show_nat_digit: "n < 10 \<Longrightarrow> show_nat n = [digit_char n]"
  by (simp add: show_nat.simps)

definition show_int :: "int \<Rightarrow> char list" where
  "show_int i = (if i < 0 then CHR ''-'' # show_nat (nat (- i)) else show_nat (nat i))"

text \<open>\<^verbatim>\<open>appendBinaryStringInfo(&norm_query, query + pos, len)\<close>.\<close>

definition append_slice :: "char list \<Rightarrow> char list \<Rightarrow> int \<Rightarrow> int \<Rightarrow> char list option" where
  "append_slice out q pos len =
     (if 0 \<le> pos \<and> 0 \<le> len \<and> pos + len \<le> int (length q)
      then Some (out @ take (nat len) (drop (nat pos) q)) else None)"

definition placeholder :: "int \<Rightarrow> bool \<Rightarrow> char list" where
  "placeholder i sq = CHR ''$'' # show_int i @ (if sq then '' /*, ... */'' else [])"

fun replace_constants ::
    "norm_lib \<Rightarrow> JumbleState \<Rightarrow> char list \<Rightarrow> int \<Rightarrow> LocationLen list \<Rightarrow>
       char list \<Rightarrow> int \<Rightarrow> int \<Rightarrow> int \<Rightarrow> int \<Rightarrow> (char list \<times> int) option" where
  "replace_constants lib jstate q query_loc [] norm_query quer_loc last_off last_tok_len nrep =
     Some (norm_query, quer_loc)"
| "replace_constants lib jstate q query_loc (l # locs) norm_query quer_loc last_off last_tok_len nrep =
     (if ShouldPreserveExternalParam lib jstate l then
        replace_constants lib jstate q query_loc locs norm_query quer_loc last_off last_tok_len nrep
      else
        let off = location l - query_loc;
            tok_len = loc_length l
        in
        if tok_len < 0 then
          replace_constants lib jstate q query_loc locs norm_query quer_loc last_off last_tok_len nrep
        else
          case append_slice norm_query q quer_loc (off - last_off - last_tok_len) of
            None \<Rightarrow> None
          | Some norm_query \<Rightarrow>
              replace_constants lib jstate q query_loc locs
                (norm_query @ placeholder (nrep + 1 + highest_extern_param_id jstate)
                   (IsSquashedConstant lib l))
                (off + tok_len) off tok_len (nrep + 1))"

text \<open>The result is \<^verbatim>\<open>NULL\<close>, or the text with the new value of \<^verbatim>\<open>*query_len_p\<close>.\<close>

definition PschNormalizeQuery ::
    "norm_lib \<Rightarrow> char list \<Rightarrow> int \<Rightarrow> int \<Rightarrow> JumbleState option \<Rightarrow> (char list \<times> int) option option" where
  "PschNormalizeQuery lib q query_loc query_len jstate =
     (case jstate of
        None \<Rightarrow> Some None
      | Some jstate \<Rightarrow>
          if length (clocations jstate) = 0 then Some None
          else
            case FillInConstantLengths lib q query_loc jstate of
              None \<Rightarrow> None
            | Some jstate \<Rightarrow>
                (case replace_constants lib jstate q query_loc (clocations jstate) [] 0 0 0 0 of
                   None \<Rightarrow> None
                 | Some (norm_query, quer_loc) \<Rightarrow>
                     (case append_slice norm_query q quer_loc (query_len - quer_loc) of
                        None \<Rightarrow> None
                      | Some norm_query \<Rightarrow> Some (Some (norm_query, int (length norm_query))))))"

subsection \<open>Specification\<close>

text \<open>
  A statement is a text \<open>g\<close> followed by constants, each with the text after it. Its
  normalization keeps the texts and replaces the constants.
\<close>

type_synonym const_gaps = "(char list \<times> char list) list"

definition stmt_text :: "char list \<Rightarrow> const_gaps \<Rightarrow> char list" where
  "stmt_text g cs = g @ concat (map (\<lambda>(c, g). c @ g) cs)"

primrec placeholders :: "int \<Rightarrow> const_gaps \<Rightarrow> char list" where
  "placeholders i [] = []"
| "placeholders i (x # cs) = placeholder i False @ snd x @ placeholders (i + 1) cs"

primrec const_offsets :: "nat \<Rightarrow> const_gaps \<Rightarrow> nat list" where
  "const_offsets p [] = []"
| "const_offsets p (x # cs) = p # const_offsets (p + length (fst x) + length (snd x)) cs"

text \<open>
  What the code relies on of the scanner: it finds each constant as one token, or, where
  the constant begins with a minus sign, as that sign and one more token.
\<close>

fun lexes_constants :: "tokens \<Rightarrow> nat \<Rightarrow> const_gaps \<Rightarrow> bool" where
  "lexes_constants toks p [] = True"
| "lexes_constants toks p ((c, g) # cs) =
     (case dropWhile (\<lambda>t. fst t < p) toks of
        [] \<Rightarrow> False
      | (s, e) # toks \<Rightarrow>
          if hd c = CHR ''-'' then
            (case toks of
               [] \<Rightarrow> False
             | (_, e') # toks \<Rightarrow>
                 e' = p + length c \<and> lexes_constants toks (p + length c + length g) cs)
          else e = p + length c \<and> lexes_constants toks (p + length c + length g) cs)"

text \<open>The locations that the jumbler recorded are those of the constants, in any order, with duplicates.\<close>

definition locates :: "norm_lib \<Rightarrow> JumbleState \<Rightarrow> int \<Rightarrow> nat list \<Rightarrow> bool" where
  "locates lib jstate query_loc offs \<longleftrightarrow>
     location ` set (clocations jstate) = (\<lambda>p. query_loc + int p) ` set offs \<and>
     (\<forall>l\<in>set (clocations jstate). \<not> (pg18 lib \<and> (squashed l \<or> extern_param l)))"

subsection \<open>Lemmas\<close>

lemma append_slice_Some [simp]:
  "append_slice out (pre @ s @ post) (int (length pre)) (int (length s)) = Some (out @ s)"
  by (simp add: append_slice_def)

lemma strlen_at_const:
  "NUL \<notin> set c \<Longrightarrow> strlen_at (pre @ c @ post) (length pre + length c) (length pre) = int (length c)"
  by (simp add: strlen_at_def)

lemma lex_constant_const:
  assumes "lexes_constants toks (length pre) ((c, g) # cs)" and "c \<noteq> []" and "NUL \<notin> set c"
  shows "\<exists>toks'. lex_constant (pre @ c @ post) (length pre) toks = (Some (int (length c)), toks') \<and>
                 lexes_constants toks' (length pre + length c + length g) cs"
  using assms(1)
proof (induction toks)
  case Nil
  then show ?case by simp
next
  case (Cons t toks)
  obtain s e where t: "t = (s, e)" by (cases t)
  have hd: "(pre @ c @ post) ! length pre = hd c" using assms(2) by (cases c) (auto simp: nth_append)
  show ?case
  proof (cases "s < length pre")
    case True
    then show ?thesis using Cons t by simp
  next
    case False
    then show ?thesis
      using Cons.prems t hd assms(2) strlen_at_const [OF assms(3), of pre post]
      by (auto simp: strlen_at_def [symmetric] split: list.splits if_splits)
  qed
qed

text \<open>The locations without the duplicates of the one before.\<close>

fun fresh :: "int option \<Rightarrow> int list \<Rightarrow> int list" where
  "fresh prev [] = []"
| "fresh prev (x # xs) = (if prev = Some x then fresh prev xs else x # fresh (Some x) xs)"

lemma fresh_Some: "x # fresh (Some x) xs = remdups_adj (x # xs)"
proof (induction xs arbitrary: x)
  case (Cons y xs)
  show ?case
  proof (cases "x = y")
    case True
    then show ?thesis using Cons [of x] by simp
  next
    case False
    then show ?thesis using Cons [of y] by simp
  qed
qed simp

lemma fresh_None: "fresh None xs = remdups_adj xs"
  by (cases xs) (simp_all add: fresh_Some del: remdups_adj.simps(3))

abbreviation measured :: "LocationLen list \<Rightarrow> (int \<times> int) list" where
  "measured locs \<equiv> map (\<lambda>l. (location l, loc_length l)) (filter (\<lambda>l. 0 \<le> loc_length l) locs)"

primrec const_marks :: "int \<Rightarrow> nat \<Rightarrow> const_gaps \<Rightarrow> (int \<times> int) list" where
  "const_marks ql p [] = []"
| "const_marks ql p (x # cs) =
     (ql + int p, int (length (fst x))) # const_marks ql (p + length (fst x) + length (snd x)) cs"

lemma fill_lengths_marks:
  assumes "fresh prev (map location locs) = map (\<lambda>p. ql + int p) (const_offsets (length pre + length g) cs)"
    and "lexes_constants toks (length pre + length g) cs"
    and "\<forall>(c, g)\<in>set cs. c \<noteq> [] \<and> NUL \<notin> set c"
    and "\<forall>l\<in>set locs. \<not> IsSquashedConstant lib l"
  shows "\<exists>locs'. fill_lengths lib (pre @ stmt_text g cs @ post) ql prev toks locs = Some locs' \<and>
           measured locs' = const_marks ql (length pre + length g) cs \<and>
           (\<forall>l\<in>set locs'. \<exists>m\<in>set locs. squashed l = squashed m \<and> extern_param l = extern_param m)"
  using assms
proof (induction locs arbitrary: prev toks pre g cs)
  case Nil
  then show ?case by (cases cs) auto
next
  case (Cons l locs)
  show ?case
  proof (cases "prev = Some (location l)")
    case True
    then show ?thesis using Cons.IH [of prev pre g cs toks] Cons.prems by fastforce
  next
    case False
    then obtain c h cs' where cs: "cs = (c, h) # cs'" and loc: "location l = ql + int (length pre + length g)"
      and fr: "fresh (Some (location l)) (map location locs)
         = map (\<lambda>p. ql + int p) (const_offsets (length pre + length g + length c + length h) cs')"
      using Cons.prems(1) by (cases cs) auto
    let ?pre = "pre @ g @ c"
    have q: "pre @ stmt_text g cs @ post = (pre @ g) @ c @ (stmt_text h cs' @ post)"
        "pre @ stmt_text g cs @ post = ?pre @ stmt_text h cs' @ post"
      by (simp_all add: cs stmt_text_def)
    have lc: "lexes_constants toks (length (pre @ g)) ((c, h) # cs')" "c \<noteq> []" "NUL \<notin> set c"
      using Cons.prems(2,3) cs by auto
    obtain toks' where lex: "lex_constant (pre @ stmt_text g cs @ post) (length pre + length g) toks
          = (Some (int (length c)), toks')"
        "lexes_constants toks' (length pre + length g + length c + length h) cs'"
      using lex_constant_const [OF lc, of "stmt_text h cs' @ post"] unfolding q(1) by auto
    obtain locs' where locs': "fill_lengths lib (?pre @ stmt_text h cs' @ post) ql (Some (location l)) toks' locs
          = Some locs'"
        "measured locs' = const_marks ql (length ?pre + length h) cs'"
        "\<forall>l\<in>set locs'. \<exists>m\<in>set locs. squashed l = squashed m \<and> extern_param l = extern_param m"
      using Cons.IH [of "Some (location l)" ?pre h cs' toks'] fr lex(2) Cons.prems(3,4)
      by (auto simp: cs add.assoc)
    have "fill_lengths lib (pre @ stmt_text g cs @ post) ql prev toks (l # locs)
        = Some (l\<lparr>loc_length := int (length c)\<rparr> # locs')"
      using False Cons.prems(4) loc lex(1) locs'(1) [folded q(2)] by (simp add: nat_add_distrib)
    then show ?thesis using locs'(2,3) loc by (auto simp: cs add.assoc)
  qed
qed

lemma replace_constants_marks:
  assumes "measured locs = const_marks ql (length pre + length g) cs"
    and "\<forall>l\<in>set locs. \<not> (pg18 lib \<and> (squashed l \<or> extern_param l))"
    and "loff + ltok = int (length pre)"
  shows "\<exists>out' pos. replace_constants lib js (pre @ stmt_text g cs @ post) ql locs out
             (int (length pre)) loff ltok nrep = Some (out', pos) \<and>
           append_slice out' (pre @ stmt_text g cs @ post) pos
             (int (length (pre @ stmt_text g cs)) - pos)
           = Some (out @ g @ placeholders (nrep + 1 + highest_extern_param_id js) cs)"
  using assms
proof (induction locs arbitrary: pre g cs out loff ltok nrep)
  case Nil
  then show ?case by (cases cs) (auto simp: stmt_text_def)
next
  case (Cons l locs)
  have keep: "\<not> ShouldPreserveExternalParam lib js l" "\<not> IsSquashedConstant lib l"
    using Cons.prems(2) by (auto simp: ShouldPreserveExternalParam_def IsSquashedConstant_def)
  show ?case
  proof (cases "loc_length l < 0")
    case True
    then show ?thesis using Cons.IH [of pre g cs loff ltok out nrep] Cons.prems keep by simp
  next
    case False
    then obtain c h cs' where cs: "cs = (c, h) # cs'"
      and l: "location l = ql + int (length pre + length g)" "loc_length l = int (length c)"
      and m: "measured locs = const_marks ql (length (pre @ g @ c) + length h) cs'"
      using Cons.prems(1) by (cases cs) (auto simp: add.assoc)
    let ?pre = "pre @ g @ c" and ?out = "out @ g @ placeholder (nrep + 1 + highest_extern_param_id js) False"
    have q: "pre @ stmt_text g cs @ post = pre @ g @ (c @ stmt_text h cs' @ post)"
        "pre @ stmt_text g cs @ post = ?pre @ stmt_text h cs' @ post"
        "pre @ stmt_text g cs = ?pre @ stmt_text h cs'"
      by (simp_all add: cs stmt_text_def)
    have app: "append_slice out (pre @ stmt_text g cs @ post) (int (length pre)) (int (length g))
        = Some (out @ g)"
      unfolding q(1) by (rule append_slice_Some)
    have off: "int (length pre) + int (length g) - loff - ltok = int (length g)"
      using Cons.prems(3) by simp
    have step: "replace_constants lib js (pre @ stmt_text g cs @ post) ql (l # locs) out
          (int (length pre)) loff ltok nrep
        = replace_constants lib js (pre @ stmt_text g cs @ post) ql locs ?out
          (int (length ?pre)) (int (length pre + length g)) (int (length c)) (nrep + 1)"
      using keep l by (simp add: Let_def off app add.assoc [of "int (length pre)"])
    have ll: "int (length pre + length g) + int (length c) = int (length ?pre)" by simp
    have res: "?out @ h @ placeholders (nrep + 1 + 1 + highest_extern_param_id js) cs'
        = out @ g @ placeholders (nrep + 1 + highest_extern_param_id js) cs"
      by (simp add: cs add_ac)
    show ?thesis
      using Cons.IH [OF m _ ll, of ?out "nrep + 1"] Cons.prems(2)
      unfolding step res q(2) [symmetric] q(3) [symmetric] by simp
  qed
qed

lemma CompLocation_le: "CompLocation a b \<le> 0 \<longleftrightarrow> location a \<le> location b"
  by (simp add: CompLocation_def Let_def)

lemma remdups_adj_strict: "sorted xs \<Longrightarrow> sorted_wrt (<) (remdups_adj (xs :: int list))"
proof (induction xs rule: remdups_adj.induct)
  case (3 x y xs)
  then show ?case
    using remdups_adj_set [of "y # xs"] by (auto simp: order.strict_iff_order)
qed simp_all

lemma const_offsets_ge: "x \<in> set (const_offsets p cs) \<Longrightarrow> p \<le> x"
  by (induction cs arbitrary: p) fastforce+

lemma const_offsets_strict:
  "\<forall>x\<in>set cs. fst x \<noteq> [] \<Longrightarrow> sorted_wrt (<) (const_offsets p cs)"
proof (induction cs arbitrary: p)
  case (Cons x cs)
  have "p < y" if "y \<in> set (const_offsets (p + length (fst x) + length (snd x)) cs)" for y
    using const_offsets_ge [OF that] Cons.prems by (cases "fst x") auto
  then show ?case using Cons by simp
qed simp

lemma fresh_locations:
  assumes ok: "qsort_ok lib" and loc: "locates lib js ql (const_offsets p cs)"
    and ne: "\<forall>x\<in>set cs. fst x \<noteq> []"
  defines "ls \<equiv> (if length (clocations js) > 1 then qsort lib (clocations js) else clocations js)"
  shows "set ls = set (clocations js)"
    and "fresh None (map location ls) = map (\<lambda>p. ql + int p) (const_offsets p cs)"
proof -
  have ms: "mset ls = mset (clocations js)" using ok by (auto simp: ls_def qsort_ok_def)
  then show set: "set ls = set (clocations js)" by (rule mset_eq_setD)
  have "sorted (map location ls)"
  proof (cases "length (clocations js) > 1")
    case True
    then show ?thesis using ok by (simp add: ls_def qsort_ok_def sorted_map CompLocation_le)
  next
    case False
    then show ?thesis by (cases "clocations js") (auto simp: ls_def)
  qed
  then have a: "sorted_wrt (<) (remdups_adj (map location ls))" by (rule remdups_adj_strict)
  have b: "sorted_wrt (<) (map (\<lambda>p. ql + int p) (const_offsets p cs))"
    using const_offsets_strict [OF ne, of p] by (simp add: sorted_wrt_map)
  have "set (remdups_adj (map location ls)) = set (map (\<lambda>p. ql + int p) (const_offsets p cs))"
    using loc set by (simp add: locates_def)
  then show "fresh None (map location ls) = map (\<lambda>p. ql + int p) (const_offsets p cs)"
    unfolding fresh_None using strict_sorted_equal [OF b a] by simp
qed

text \<open>The statement is what the jumbler and the scanner say it is.\<close>

definition statement_of :: "norm_lib \<Rightarrow> JumbleState \<Rightarrow> int \<Rightarrow> char list \<Rightarrow> const_gaps \<Rightarrow> char list \<Rightarrow> bool" where
  "statement_of lib js ql g cs post \<longleftrightarrow>
     cs \<noteq> [] \<and> (\<forall>x\<in>set cs. fst x \<noteq> [] \<and> NUL \<notin> set (fst x)) \<and>
     locates lib js ql (const_offsets (length g) cs) \<and>
     lexes_constants (scanner_init lib (stmt_text g cs @ post)) (length g) cs"

lemma normalize_spec:
  assumes ok: "qsort_ok lib" and st: "statement_of lib js ql g cs post"
  shows "PschNormalizeQuery lib (stmt_text g cs @ post) ql (int (length (stmt_text g cs))) (Some js)
     = (let out = g @ placeholders (1 + highest_extern_param_id js) cs
        in Some (Some (out, int (length out))))"
proof -
  define ls where "ls = (if length (clocations js) > 1 then qsort lib (clocations js) else clocations js)"
  have st': "cs \<noteq> []" "\<forall>(c, g)\<in>set cs. c \<noteq> [] \<and> NUL \<notin> set c" "\<forall>x\<in>set cs. fst x \<noteq> []"
      "locates lib js ql (const_offsets (length g) cs)"
      "lexes_constants (scanner_init lib (stmt_text g cs @ post)) (length g) cs"
    using st by (auto simp: statement_of_def)
  note fr = fresh_locations [OF ok st'(4,3), folded ls_def]
  have plain: "\<forall>l\<in>set ls. \<not> (pg18 lib \<and> (squashed l \<or> extern_param l))"
    using st'(4) fr(1) by (simp add: locates_def)
  have "clocations js \<noteq> []" using st'(1,4) by (cases cs) (auto simp: locates_def)
  moreover obtain locs' where locs':
      "fill_lengths lib (stmt_text g cs @ post) ql None (scanner_init lib (stmt_text g cs @ post)) ls
         = Some locs'"
      "measured locs' = const_marks ql (length g) cs"
      "\<forall>l\<in>set locs'. \<exists>m\<in>set ls. squashed l = squashed m \<and> extern_param l = extern_param m"
    using fill_lengths_marks [of None ls ql "[]" g cs "scanner_init lib (stmt_text g cs @ post)" lib post]
      fr(2) st'(2,5) plain by (auto simp: IsSquashedConstant_def)
  moreover from this have "FillInConstantLengths lib (stmt_text g cs @ post) ql js
      = Some (js\<lparr>clocations := locs'\<rparr>)"
    by (simp add: FillInConstantLengths_def ls_def)
  moreover have "\<forall>l\<in>set locs'. \<not> (pg18 lib \<and> (squashed l \<or> extern_param l))"
    using locs'(3) plain by metis
  then obtain out pos where
      "replace_constants lib (js\<lparr>clocations := locs'\<rparr>) (stmt_text g cs @ post) ql locs' [] 0 0 0 0
         = Some (out, pos)"
      "append_slice out (stmt_text g cs @ post) pos (int (length (stmt_text g cs)) - pos)
         = Some (g @ placeholders (1 + highest_extern_param_id js) cs)"
    using replace_constants_marks [of locs' ql "[]" g cs lib 0 0 "js\<lparr>clocations := locs'\<rparr>" post "[]" 0]
      locs'(2) by auto
  ultimately show ?thesis by (simp add: PschNormalizeQuery_def Let_def)
qed

subsection \<open>Properties\<close>

text \<open>The statement \<^verbatim>\<open>SELECT -1, 42\<close>, as its scanner and the jumbler describe it.\<close>

definition norm_sample_lib :: norm_lib where
  "norm_sample_lib =
     \<lparr>pg18 = False, qsort = sort_key location,
      scanner_init = (\<lambda>_. [(0, 6), (7, 8), (8, 9), (9, 10), (11, 13)])\<rparr>"

definition norm_sample_jstate :: JumbleState where
  "norm_sample_jstate =
     \<lparr>clocations = map (\<lambda>p. \<lparr>location = p, loc_length = -1, squashed = False, extern_param = False\<rparr>)
                     [11, 7, 7],
      highest_extern_param_id = 0, has_squashed_lists = False\<rparr>"

lemma norm_sample_ok:
  "qsort_ok norm_sample_lib"
  "statement_of norm_sample_lib norm_sample_jstate 0 ''SELECT '' [(''-1'', '', ''), (''42'', [])] []"
  "statement_of norm_sample_lib norm_sample_jstate 0 ''SELECT '' [(''-7'', '', ''), (''99'', [])] []"
proof -
  show "qsort_ok norm_sample_lib"
    using sorted_sort_key [of location]
    by (auto simp: qsort_ok_def norm_sample_lib_def CompLocation_le sorted_map)
qed (auto simp: statement_of_def norm_sample_lib_def norm_sample_jstate_def locates_def)

text \<open>
  C24. Given a sorting routine and a scanner that keep their contracts, the normalized text is
  the statement with every constant replaced by \<^verbatim>\<open>$n\<close>, numbered from the highest external
  parameter on, and every other byte kept; the new length is its length, and nothing outside
  the statement is read. Locations may come in any order and more than once, and a negative
  number counts as one constant. The statement has neither a squashed list nor an external
  parameter among its locations, the two cases that PostgreSQL 18 adds.
\<close>

theorem normalize_replaces_constants:
  assumes "qsort_ok lib" and "statement_of lib js ql g cs post"
  shows "PschNormalizeQuery lib (stmt_text g cs @ post) ql (int (length (stmt_text g cs))) (Some js)
     = (let out = g @ placeholders (1 + highest_extern_param_id js) cs
        in Some (Some (out, int (length out))))"
  using normalize_spec [OF assms] .

theorem normalize_replaces_constants_witness:
  "PschNormalizeQuery norm_sample_lib ''SELECT -1, 42'' 0 13 (Some norm_sample_jstate)
     = Some (Some (''SELECT $1, $2'', 13))"
proof -
  have "digit_char 1 = CHR ''1''" "digit_char 2 = CHR ''2''" by code_simp+
  then have "''SELECT '' @ placeholders 1 [(''-1'', '', ''), (''42'', [])] = ''SELECT $1, $2''"
    by (simp add: placeholder_def show_int_def show_nat_digit)
  then show ?thesis
    using normalize_replaces_constants [OF norm_sample_ok(1,2)]
    by (simp add: stmt_text_def norm_sample_jstate_def Let_def)
qed

text \<open>
  C25. Literals are not exported: two statements that differ only in their constants, without
  squashed lists or external parameters, have the same normalized text.
\<close>

theorem normalize_hides_literals:
  assumes "qsort_ok lib" and "statement_of lib js ql g cs post"
    and "qsort_ok lib'" and "statement_of lib' js' ql' g cs' post'"
    and "map snd cs = map snd cs'" and "highest_extern_param_id js = highest_extern_param_id js'"
  shows "PschNormalizeQuery lib (stmt_text g cs @ post) ql (int (length (stmt_text g cs))) (Some js)
       = PschNormalizeQuery lib' (stmt_text g cs' @ post') ql' (int (length (stmt_text g cs'))) (Some js')"
proof -
  have "placeholders i cs = placeholders i cs'" if "map snd cs = map snd cs'" for i and cs cs' :: const_gaps
    using that by (induction cs cs' arbitrary: i rule: list_induct2') auto
  then show ?thesis
    using normalize_spec [OF assms(1,2)] normalize_spec [OF assms(3,4)] assms(5,6) by metis
qed

theorem normalize_hides_literals_witness:
  "PschNormalizeQuery norm_sample_lib ''SELECT -1, 42'' 0 13 (Some norm_sample_jstate)
   = PschNormalizeQuery norm_sample_lib ''SELECT -7, 99'' 0 13 (Some norm_sample_jstate)"
  using normalize_hides_literals [OF norm_sample_ok(1,2) norm_sample_ok(1,3)]
  by (simp add: stmt_text_def)

end
