(* ===== verification/Psch_Arrow.thy ===== *)
theory Psch_Arrow
  imports Psch_Boot Psch_String_Utils Psch_Normalize "HOL-Library.Monad_Syntax"
begin

section \<open>Arrow batches (\<^verbatim>\<open>arrow_batch.cc\<close>)\<close>

text \<open>
  \<^verbatim>\<open>ArrowBatchBuilder::Impl\<close>: 56 column builders, the schema, and the extra attributes that
  are appended to every row. A builder is the list of the values appended to it, under the
  name of its member without \<^verbatim>\<open>_builder\<close>. The Arrow library is a parameter: which calls fail,
  and the bytes that it writes for a record batch. \<^verbatim>\<open>None\<close> is undefined behaviour: a text
  view outside its buffer, or a timestamp that overflows. Log messages are left out.
\<close>

datatype arrow_type = timestamp_ns_utc | dictionary_utf8 | utf8 | int32 | uint64 | uint32

datatype cell =
    Int64Cell i64 | StrCell "char list" | Int32Cell i32 | UInt64Cell u64 | UInt32Cell u32

type_synonym record_batch =
  "(string \<times> arrow_type) list \<times> nat \<times> (arrow_type \<times> cell list) list"

record arrow_lib =
  append_ok :: "string \<Rightarrow> cell list \<Rightarrow> bool"
  finish_ok :: "string \<Rightarrow> bool"
  sink_create_ok :: bool
  codec_create_ok :: bool
  writer_create_ok :: bool
  write_ok :: "record_batch \<Rightarrow> bool"
  close_ok :: "record_batch \<Rightarrow> bool"
  ipc_buffer :: "record_batch \<Rightarrow> char list option"

subsection \<open>Helpers\<close>

definition kPostgresEpochOffsetUs :: int where
  "kPostgresEpochOffsetUs = 946684800000000"

definition kFixedBytesPerRow :: nat where
  "kFixedBytesPerRow = 512"

definition kIpcEnvelopeBytes :: nat where
  "kIpcEnvelopeBytes = 1024"

definition ClampFieldLen :: "'a::len word \<Rightarrow> 'a word \<Rightarrow> 'a word" where
  "ClampFieldLen len mx = (if len \<le> mx then len else mx)"

definition ClampSignedToUint64 :: "i64 \<Rightarrow> u64" where
  "ClampSignedToUint64 value = (if sint value < 0 then 0 else value)"

definition ClampSignedToUint32 :: "i32 \<Rightarrow> u32" where
  "ClampSignedToUint32 value = (if sint value < 0 then 0 else value)"

fun trim_front :: "char list \<Rightarrow> char list" where
  "trim_front (c # cs) = (if isspace c then trim_front cs else c # cs)"
| "trim_front [] = []"

function trim_back :: "char list \<Rightarrow> char list" where
  "trim_back cs = (if cs \<noteq> [] \<and> isspace (last cs) then trim_back (butlast cs) else cs)"
  by pat_completeness auto
termination by (relation "measure length") auto

declare trim_back.simps [simp del]

definition TrimAsciiWhitespace :: "char list \<Rightarrow> char list" where
  "TrimAsciiWhitespace input = trim_back (trim_front input)"

text \<open>\<^verbatim>\<open>std::string_view(buf, len)\<close>, read in full later on.\<close>

definition string_view :: "char list \<Rightarrow> nat \<Rightarrow> char list option" where
  "string_view buf n = (if n \<le> length buf then Some (take n buf) else None)"

text \<open>\<^verbatim>\<open>(ts_start + kPostgresEpochOffsetUs) * 1000LL\<close> in signed 64-bit arithmetic.\<close>

definition unix_ns :: "TimestampTz \<Rightarrow> i64 option" where
  "unix_ns ts =
     (let us = sint ts + kPostgresEpochOffsetUs; ns = us * 1000
      in if us < 2 ^ 63 \<and> - (2 ^ 63) \<le> ns \<and> ns < 2 ^ 63 then Some (word_of_int ns) else None)"

subsection \<open>The builder\<close>

record Impl =
  schema :: "(string \<times> arrow_type) list option"
  builders :: "string \<Rightarrow> cell list"
  extra_attrs :: "string \<rightharpoonup> string"
  service_version :: string
  num_rows :: nat
  estimated_bytes :: u64

text \<open>The members that are builders, with the type of the array each of them builds.\<close>

definition Impl_builders :: "(string \<times> arrow_type) list" where
  "Impl_builders =
     [(''ts'', timestamp_ns_utc), (''severity'', dictionary_utf8), (''body'', utf8),
      (''trace_id'', utf8), (''span_id'', utf8), (''query_id'', dictionary_utf8),
      (''db_name'', dictionary_utf8), (''db_user'', dictionary_utf8),
      (''db_operation'', dictionary_utf8), (''app'', dictionary_utf8),
      (''client_addr'', dictionary_utf8), (''query_text'', utf8), (''pid'', utf8),
      (''err_message'', utf8), (''err_sqlstate'', dictionary_utf8), (''err_elevel'', int32),
      (''duration_us'', uint64), (''rows'', uint64), (''shared_blks_hit'', uint64),
      (''shared_blks_read'', uint64), (''shared_blks_written'', uint64),
      (''shared_blks_dirtied'', uint64), (''shared_blk_read_time_us'', uint64),
      (''shared_blk_write_time_us'', uint64), (''local_blks_hit'', uint64),
      (''local_blks_read'', uint64), (''local_blks_written'', uint64),
      (''local_blks_dirtied'', uint64), (''local_blk_read_time_us'', uint64),
      (''local_blk_write_time_us'', uint64), (''temp_blks_read'', uint64),
      (''temp_blks_written'', uint64), (''temp_blk_read_time_us'', uint64),
      (''temp_blk_write_time_us'', uint64), (''wal_records'', uint64), (''wal_bytes'', uint64),
      (''wal_fpi'', uint64), (''cpu_user_time_us'', uint64), (''cpu_sys_time_us'', uint64),
      (''jit_functions'', uint64), (''jit_generation_time_us'', uint64),
      (''jit_inlining_time_us'', uint64), (''jit_optimization_time_us'', uint64),
      (''jit_emission_time_us'', uint64), (''jit_deform_time_us'', uint64),
      (''parallel_workers_planned'', uint32), (''parallel_workers_launched'', uint32),
      (''instance_ubid'', utf8), (''server_ubid'', utf8), (''server_role'', dictionary_utf8),
      (''read_replica_type'', dictionary_utf8), (''region'', dictionary_utf8),
      (''cell'', dictionary_utf8), (''service_version'', dictionary_utf8), (''host_id'', utf8),
      (''pod_name'', utf8)]"

definition arrow_schema :: "(string \<times> arrow_type) list" where
  "arrow_schema =
     [(''ts'', timestamp_ns_utc), (''severity'', dictionary_utf8), (''body'', utf8),
      (''trace_id'', utf8), (''span_id'', utf8), (''query_id'', dictionary_utf8),
      (''db_name'', dictionary_utf8), (''db_user'', dictionary_utf8),
      (''db_operation'', dictionary_utf8), (''app'', dictionary_utf8),
      (''client_addr'', dictionary_utf8), (''query_text'', utf8), (''pid'', utf8),
      (''err_message'', utf8), (''err_sqlstate'', dictionary_utf8), (''err_elevel'', int32),
      (''duration_us'', uint64), (''rows'', uint64), (''shared_blks_hit'', uint64),
      (''shared_blks_read'', uint64), (''shared_blks_written'', uint64),
      (''shared_blks_dirtied'', uint64), (''shared_blk_read_time_us'', uint64),
      (''shared_blk_write_time_us'', uint64), (''local_blks_hit'', uint64),
      (''local_blks_read'', uint64), (''local_blks_written'', uint64),
      (''local_blks_dirtied'', uint64), (''local_blk_read_time_us'', uint64),
      (''local_blk_write_time_us'', uint64), (''temp_blks_read'', uint64),
      (''temp_blks_written'', uint64), (''temp_blk_read_time_us'', uint64),
      (''temp_blk_write_time_us'', uint64), (''wal_records'', uint64), (''wal_bytes'', uint64),
      (''wal_fpi'', uint64), (''cpu_user_time_us'', uint64), (''cpu_sys_time_us'', uint64),
      (''jit_functions'', uint64), (''jit_generation_time_us'', uint64),
      (''jit_inlining_time_us'', uint64), (''jit_optimization_time_us'', uint64),
      (''jit_emission_time_us'', uint64), (''jit_deform_time_us'', uint64),
      (''parallel_workers_planned'', uint32), (''parallel_workers_launched'', uint32),
      (''instance_ubid'', utf8), (''server_ubid'', utf8), (''server_role'', dictionary_utf8),
      (''read_replica_type'', dictionary_utf8), (''region'', dictionary_utf8),
      (''cell'', dictionary_utf8), (''service_version'', dictionary_utf8), (''host_id'', utf8),
      (''pod_name'', utf8)]"

definition Impl_new :: Impl where
  "Impl_new =
     \<lparr>schema = None, builders = (\<lambda>_. []), extra_attrs = Map.empty, service_version = [],
      num_rows = 0, estimated_bytes = 0\<rparr>"

definition reset_builders :: "string list" where
  "reset_builders =
     [''ts'', ''severity'', ''body'', ''trace_id'', ''span_id'', ''query_id'', ''db_name'',
      ''db_user'', ''db_operation'', ''app'', ''client_addr'', ''query_text'', ''pid'',
      ''err_message'', ''err_sqlstate'', ''err_elevel'', ''duration_us'', ''rows'',
      ''shared_blks_hit'', ''shared_blks_read'', ''shared_blks_written'',
      ''shared_blks_dirtied'', ''shared_blk_read_time_us'', ''shared_blk_write_time_us'',
      ''local_blks_hit'', ''local_blks_read'', ''local_blks_written'', ''local_blks_dirtied'',
      ''local_blk_read_time_us'', ''local_blk_write_time_us'', ''temp_blks_read'',
      ''temp_blks_written'', ''temp_blk_read_time_us'', ''temp_blk_write_time_us'',
      ''wal_records'', ''wal_bytes'', ''wal_fpi'', ''cpu_user_time_us'', ''cpu_sys_time_us'',
      ''jit_functions'', ''jit_generation_time_us'', ''jit_inlining_time_us'',
      ''jit_optimization_time_us'', ''jit_emission_time_us'', ''jit_deform_time_us'',
      ''parallel_workers_planned'', ''parallel_workers_launched'', ''instance_ubid'',
      ''server_ubid'', ''server_role'', ''read_replica_type'', ''region'', ''cell'',
      ''service_version'', ''host_id'', ''pod_name'']"

definition Reset :: "Impl \<Rightarrow> Impl" where
  "Reset im =
     im\<lparr>builders := (\<lambda>b. if b \<in> set reset_builders then [] else builders im b),
        num_rows := 0, estimated_bytes := of_nat kIpcEnvelopeBytes\<rparr>"

definition ExtraAttr :: "Impl \<Rightarrow> string \<Rightarrow> char list" where
  "ExtraAttr im key = (case extra_attrs im key of None \<Rightarrow> [] | Some v \<Rightarrow> v)"

text \<open>One \<^verbatim>\<open>key:value\<close> token. \<^verbatim>\<open>emplace\<close> keeps an earlier value of the same key.\<close>

definition parse_token :: "char list \<Rightarrow> (string \<rightharpoonup> string) \<Rightarrow> (string \<rightharpoonup> string)" where
  "parse_token token attrs =
     (if CHR '':'' \<in> set token then
        let key = TrimAsciiWhitespace (takeWhile (\<lambda>c. c \<noteq> CHR '':'') token);
            val = TrimAsciiWhitespace (tl (dropWhile (\<lambda>c. c \<noteq> CHR '':'') token))
        in if key \<noteq> [] \<and> attrs key = None then attrs(key \<mapsto> val) else attrs
      else attrs)"

function parse_tokens :: "char list \<Rightarrow> (string \<rightharpoonup> string) \<Rightarrow> (string \<rightharpoonup> string)" where
  "parse_tokens input attrs =
     (if input = [] then attrs
      else
        let attrs = parse_token (takeWhile (\<lambda>c. c \<noteq> CHR '';'') input) attrs
        in if CHR '';'' \<notin> set input then attrs
           else parse_tokens (tl (dropWhile (\<lambda>c. c \<noteq> CHR '';'') input)) attrs)"
  by pat_completeness auto
termination
proof (relation "measure (length \<circ> fst)", goal_cases)
  case (2 input attrs x)
  have "length (dropWhile (\<lambda>c. c \<noteq> CHR '';'') input) \<le> length input" by (rule length_dropWhile_le)
  with 2 show ?case by (cases input) auto
qed simp

declare parse_tokens.simps [simp del]

definition ParseExtraAttributes :: "char list option \<Rightarrow> Impl \<Rightarrow> Impl" where
  "ParseExtraAttributes raw_attrs im =
     im\<lparr>extra_attrs :=
          parse_tokens (case raw_attrs of None \<Rightarrow> [] | Some s \<Rightarrow> cstr s) Map.empty\<rparr>"

definition Init :: "char list option \<Rightarrow> char list option \<Rightarrow> Impl \<Rightarrow> Impl \<times> bool" where
  "Init extra_attrs_input service_version_input im =
     (let im = im\<lparr>service_version := (case service_version_input of None \<Rightarrow> [] | Some s \<Rightarrow> cstr s)\<rparr>;
          im = ParseExtraAttributes extra_attrs_input im;
          im = im\<lparr>schema := Some arrow_schema\<rparr>
      in (Reset im, True))"

subsection \<open>Appending a row\<close>

record event_views =
  db_name :: "char list"
  db_user :: "char list"
  app :: "char list"
  addr :: "char list"
  text_view :: "char list"
  message_view :: "char list"
  sqlstate :: "char list"

definition views_of :: "PschEvent \<Rightarrow> event_views option" where
  "views_of ev =
     do {
       db_name \<leftarrow> string_view (datname ev) (unat (ClampFieldLen (datname_len ev) (of_nat (NAMEDATALEN - 1))));
       db_user \<leftarrow> string_view (username ev) (unat (ClampFieldLen (username_len ev) (of_nat (NAMEDATALEN - 1))));
       app \<leftarrow> string_view (application_name ev)
                (unat (ClampFieldLen (application_name_len ev) (of_nat PSCH_MAX_APP_NAME_LEN)));
       addr \<leftarrow> string_view (client_addr ev)
                 (unat (ClampFieldLen (client_addr_len ev) (of_nat PSCH_MAX_CLIENT_ADDR_LEN)));
       txt_view \<leftarrow> string_view (query ev) (unat (ClampFieldLen (query_len ev) (of_nat PSCH_MAX_QUERY_LEN)));
       msg_view \<leftarrow> string_view (err_message ev)
                     (unat (ClampFieldLen (err_message_len ev) (of_nat PSCH_MAX_ERR_MSG_LEN)));
       state \<leftarrow> string_view (err_sqlstate ev) (length (cstr (take 5 (err_sqlstate ev))));
       Some \<lparr>db_name = db_name, db_user = db_user, app = app, addr = addr, text_view = txt_view,
             message_view = msg_view, sqlstate = state\<rparr>
     }"

text \<open>\<^verbatim>\<open>AppendScalar\<close> and \<^verbatim>\<open>AppendString\<close>, joined by \<^verbatim>\<open>||\<close>: the first failure ends the row.\<close>

fun append_all :: "arrow_lib \<Rightarrow> (string \<times> cell) list \<Rightarrow> Impl \<Rightarrow> Impl \<times> bool" where
  "append_all lib [] im = (im, True)"
| "append_all lib ((b, v) # cells) im =
     (if append_ok lib b (builders im b)
      then append_all lib cells (im\<lparr>builders := (builders im)(b := builders im b @ [v])\<rparr>)
      else (im, False))"

definition row_header :: "i64 \<Rightarrow> (string \<times> cell) list" where
  "row_header ns =
     [(''ts'', Int64Cell ns), (''severity'', StrCell []), (''body'', StrCell []),
      (''trace_id'', StrCell []), (''span_id'', StrCell [])]"

definition row_texts :: "PschEvent \<Rightarrow> event_views \<Rightarrow> (string \<times> cell) list" where
  "row_texts ev v =
     [(''query_id'', StrCell (take 23 (show_nat (unat (queryid ev))))),
      (''db_name'', StrCell (db_name v)), (''db_user'', StrCell (db_user v)),
      (''db_operation'', StrCell (PschCmdTypeToString (cmd_type ev))), (''app'', StrCell (app v)),
      (''client_addr'', StrCell (addr v)), (''query_text'', StrCell (text_view v)),
      (''pid'', StrCell (take 11 (show_int (sint (pid ev))))),
      (''err_message'', StrCell (message_view v)), (''err_sqlstate'', StrCell (sqlstate v))]"

definition row_numbers :: "PschEvent \<Rightarrow> (string \<times> cell) list" where
  "row_numbers ev =
     [(''err_elevel'', Int32Cell (ucast (err_elevel ev))),
      (''duration_us'', UInt64Cell (duration_us ev)),
      (''rows'', UInt64Cell (rows ev)),
      (''shared_blks_hit'', UInt64Cell (ClampSignedToUint64 (shared_blks_hit ev))),
      (''shared_blks_read'', UInt64Cell (ClampSignedToUint64 (shared_blks_read ev))),
      (''shared_blks_written'', UInt64Cell (ClampSignedToUint64 (shared_blks_written ev))),
      (''shared_blks_dirtied'', UInt64Cell (ClampSignedToUint64 (shared_blks_dirtied ev))),
      (''shared_blk_read_time_us'', UInt64Cell (ClampSignedToUint64 (shared_blk_read_time_us ev))),
      (''shared_blk_write_time_us'', UInt64Cell (ClampSignedToUint64 (shared_blk_write_time_us ev))),
      (''local_blks_hit'', UInt64Cell (ClampSignedToUint64 (local_blks_hit ev))),
      (''local_blks_read'', UInt64Cell (ClampSignedToUint64 (local_blks_read ev))),
      (''local_blks_written'', UInt64Cell (ClampSignedToUint64 (local_blks_written ev))),
      (''local_blks_dirtied'', UInt64Cell (ClampSignedToUint64 (local_blks_dirtied ev))),
      (''local_blk_read_time_us'', UInt64Cell (ClampSignedToUint64 (local_blk_read_time_us ev))),
      (''local_blk_write_time_us'', UInt64Cell (ClampSignedToUint64 (local_blk_write_time_us ev))),
      (''temp_blks_read'', UInt64Cell (ClampSignedToUint64 (temp_blks_read ev))),
      (''temp_blks_written'', UInt64Cell (ClampSignedToUint64 (temp_blks_written ev))),
      (''temp_blk_read_time_us'', UInt64Cell (ClampSignedToUint64 (temp_blk_read_time_us ev))),
      (''temp_blk_write_time_us'', UInt64Cell (ClampSignedToUint64 (temp_blk_write_time_us ev))),
      (''wal_records'', UInt64Cell (ClampSignedToUint64 (wal_records ev))),
      (''wal_bytes'', UInt64Cell (wal_bytes ev)),
      (''wal_fpi'', UInt64Cell (ClampSignedToUint64 (wal_fpi ev))),
      (''cpu_user_time_us'', UInt64Cell (ClampSignedToUint64 (cpu_user_time_us ev))),
      (''cpu_sys_time_us'', UInt64Cell (ClampSignedToUint64 (cpu_sys_time_us ev))),
      (''jit_functions'', UInt64Cell (ClampSignedToUint64 (scast (jit_functions ev)))),
      (''jit_generation_time_us'', UInt64Cell (ClampSignedToUint64 (scast (jit_generation_time_us ev)))),
      (''jit_inlining_time_us'', UInt64Cell (ClampSignedToUint64 (scast (jit_inlining_time_us ev)))),
      (''jit_optimization_time_us'', UInt64Cell (ClampSignedToUint64 (scast (jit_optimization_time_us ev)))),
      (''jit_emission_time_us'', UInt64Cell (ClampSignedToUint64 (scast (jit_emission_time_us ev)))),
      (''jit_deform_time_us'', UInt64Cell (ClampSignedToUint64 (scast (jit_deform_time_us ev)))),
      (''parallel_workers_planned'', UInt32Cell (ClampSignedToUint32 (scast (parallel_workers_planned ev)))),
      (''parallel_workers_launched'', UInt32Cell (ClampSignedToUint32 (scast (parallel_workers_launched ev))))]"

definition row_attrs :: "Impl \<Rightarrow> (string \<times> cell) list" where
  "row_attrs im =
     [(''instance_ubid'', StrCell (ExtraAttr im ''instance_ubid'')),
      (''server_ubid'', StrCell (ExtraAttr im ''server_ubid'')),
      (''server_role'', StrCell (ExtraAttr im ''server_role'')),
      (''read_replica_type'', StrCell (ExtraAttr im ''read_replica_type'')),
      (''region'', StrCell (ExtraAttr im ''region'')), (''cell'', StrCell (ExtraAttr im ''cell'')),
      (''service_version'', StrCell (service_version im)),
      (''host_id'', StrCell (ExtraAttr im ''host_id'')),
      (''pod_name'', StrCell (ExtraAttr im ''pod_name''))]"

definition row_bytes :: "Impl \<Rightarrow> event_views \<Rightarrow> nat" where
  "row_bytes im v =
     kFixedBytesPerRow + length (db_name v) + length (db_user v) + length (app v) +
     length (addr v) + length (text_view v) + length (message_view v) + length (sqlstate v) +
     length (service_version im) + length (ExtraAttr im ''instance_ubid'') +
     length (ExtraAttr im ''server_ubid'') + length (ExtraAttr im ''server_role'') +
     length (ExtraAttr im ''read_replica_type'') + length (ExtraAttr im ''region'') +
     length (ExtraAttr im ''cell'') + length (ExtraAttr im ''host_id'') +
     length (ExtraAttr im ''pod_name'')"

definition Append :: "arrow_lib \<Rightarrow> PschEvent \<Rightarrow> Impl \<Rightarrow> (Impl \<times> bool) option" where
  "Append lib ev im =
     do {
       ns \<leftarrow> unix_ns (ts_start ev);
       let (im, ok) = append_all lib (row_header ns) im;
       if \<not> ok then Some (im, False) else
       do {
         v \<leftarrow> views_of ev;
         let (im, ok) = append_all lib (row_texts ev v) im;
         if \<not> ok then Some (im, False) else
         do {
           let (im, ok) = append_all lib (row_numbers ev) im;
           if \<not> ok then Some (im, False) else
           do {
             let (im, ok) = append_all lib (row_attrs im) im;
             if \<not> ok then Some (im, False) else
             Some (im\<lparr>estimated_bytes := estimated_bytes im + of_nat (row_bytes im v),
                      num_rows := num_rows im + 1\<rparr>, True)
           }
         }
       }
     }"

subsection \<open>Finishing a batch\<close>

datatype finish_step = add_array string | add_dict_array string

definition finish_steps :: "finish_step list" where
  "finish_steps =
     [add_array ''ts'', add_dict_array ''severity'', add_array ''body'', add_array ''trace_id'',
      add_array ''span_id'', add_dict_array ''query_id'', add_dict_array ''db_name'',
      add_dict_array ''db_user'', add_dict_array ''db_operation'', add_dict_array ''app'',
      add_dict_array ''client_addr'', add_array ''query_text'', add_array ''pid'',
      add_array ''err_message'', add_dict_array ''err_sqlstate'', add_array ''err_elevel'',
      add_array ''duration_us'', add_array ''rows'', add_array ''shared_blks_hit'',
      add_array ''shared_blks_read'', add_array ''shared_blks_written'',
      add_array ''shared_blks_dirtied'', add_array ''shared_blk_read_time_us'',
      add_array ''shared_blk_write_time_us'', add_array ''local_blks_hit'',
      add_array ''local_blks_read'', add_array ''local_blks_written'',
      add_array ''local_blks_dirtied'', add_array ''local_blk_read_time_us'',
      add_array ''local_blk_write_time_us'', add_array ''temp_blks_read'',
      add_array ''temp_blks_written'', add_array ''temp_blk_read_time_us'',
      add_array ''temp_blk_write_time_us'', add_array ''wal_records'', add_array ''wal_bytes'',
      add_array ''wal_fpi'', add_array ''cpu_user_time_us'', add_array ''cpu_sys_time_us'',
      add_array ''jit_functions'', add_array ''jit_generation_time_us'',
      add_array ''jit_inlining_time_us'', add_array ''jit_optimization_time_us'',
      add_array ''jit_emission_time_us'', add_array ''jit_deform_time_us'',
      add_array ''parallel_workers_planned'', add_array ''parallel_workers_launched'',
      add_array ''instance_ubid'', add_array ''server_ubid'', add_dict_array ''server_role'',
      add_dict_array ''read_replica_type'', add_dict_array ''region'', add_dict_array ''cell'',
      add_dict_array ''service_version'', add_array ''host_id'', add_array ''pod_name'']"

fun step_builder :: "finish_step \<Rightarrow> string" where
  "step_builder (add_array b) = b"
| "step_builder (add_dict_array b) = b"

text \<open>Finishing an array takes the values out of its builder.\<close>

fun finish_all ::
    "arrow_lib \<Rightarrow> finish_step list \<Rightarrow> (arrow_type \<times> cell list) list \<Rightarrow> Impl \<Rightarrow>
       Impl \<times> (arrow_type \<times> cell list) list option" where
  "finish_all lib [] cols im = (im, Some cols)"
| "finish_all lib (step # steps) cols im =
     (let b = step_builder step
      in if finish_ok lib b
         then finish_all lib steps (cols @ [(the (map_of Impl_builders b), builders im b)])
                (im\<lparr>builders := (builders im)(b := [])\<rparr>)
         else (im, None))"

text \<open>The record batch as bytes of the IPC stream format.\<close>

definition write_batch :: "arrow_lib \<Rightarrow> record_batch \<Rightarrow> char list option" where
  "write_batch lib batch =
     (if sink_create_ok lib \<and> codec_create_ok lib \<and> writer_create_ok lib \<and>
         write_ok lib batch \<and> close_ok lib batch
      then ipc_buffer lib batch else None)"

text \<open>\<^verbatim>\<open>FinishResult\<close>: the buffer, and the number of rows.\<close>

definition Finish :: "arrow_lib \<Rightarrow> Impl \<Rightarrow> Impl \<times> char list option \<times> nat" where
  "Finish lib im =
     (case schema im of
        None \<Rightarrow> (im, None, num_rows im)
      | Some sch \<Rightarrow>
          if num_rows im = 0 then (im, None, 0)
          else
            (case finish_all lib finish_steps [] im of
               (im, None) \<Rightarrow> (im, None, 0)
             | (im, Some cols) \<Rightarrow>
                 (case write_batch lib (sch, num_rows im, cols) of
                    None \<Rightarrow> (im, None, 0)
                  | Some buf \<Rightarrow> (im, Some buf, num_rows im))))"


subsection \<open>Reference definitions\<close>

fun split_on :: "char \<Rightarrow> char list \<Rightarrow> char list list" where
  "split_on c [] = [[]]"
| "split_on c (x # xs) =
     (if x = c then [] # split_on c xs
      else (x # hd (split_on c xs)) # tl (split_on c xs))"

definition attr_of :: "char list \<Rightarrow> (string \<times> string) option" where
  "attr_of token =
     (let key = strip (takeWhile (\<lambda>c. c \<noteq> CHR '':'') token)
      in if CHR '':'' \<in> set token \<and> key \<noteq> []
         then Some (key, strip (tl (dropWhile (\<lambda>c. c \<noteq> CHR '':'') token))) else None)"

text \<open>The cells of the row of an event, and the columns of a batch of events.\<close>

definition row_of :: "Impl \<Rightarrow> PschEvent \<Rightarrow> (string \<times> cell) list option" where
  "row_of im ev =
     do {
       ns \<leftarrow> unix_ns (ts_start ev);
       v \<leftarrow> views_of ev;
       Some (row_header ns @ row_texts ev v @ row_numbers ev @ row_attrs im)
     }"

definition field_cell :: "Impl \<Rightarrow> string \<Rightarrow> PschEvent \<Rightarrow> cell" where
  "field_cell im f ev = the (map_of (the (row_of im ev)) f)"

definition arrow_columns :: "Impl \<Rightarrow> PschEvent list \<Rightarrow> (arrow_type \<times> cell list) list" where
  "arrow_columns im evs = map (\<lambda>(f, t). (t, map (field_cell im f) evs)) arrow_schema"

definition same_attrs :: "Impl \<Rightarrow> Impl \<Rightarrow> bool" where
  "same_attrs im im' \<longleftrightarrow>
     schema im' = schema im \<and> extra_attrs im' = extra_attrs im \<and> service_version im' = service_version im"

text \<open>The builders hold the rows of these events, and nothing else.\<close>

definition batch_rows :: "Impl \<Rightarrow> PschEvent list \<Rightarrow> bool" where
  "batch_rows im evs \<longleftrightarrow>
     schema im = Some arrow_schema \<and> num_rows im = length evs \<and>
     (\<forall>f\<in>fst ` set arrow_schema. builders im f = map (field_cell im f) evs)"

fun append_events :: "arrow_lib \<Rightarrow> PschEvent list \<Rightarrow> Impl \<Rightarrow> (Impl \<times> bool) option" where
  "append_events lib [] im = Some (im, True)"
| "append_events lib (ev # evs) im =
     (case Append lib ev im of
        Some (im, True) \<Rightarrow> append_events lib evs im
      | r \<Rightarrow> r)"

subsection \<open>Parsing the extra attributes\<close>

lemma trim_front_eq: "trim_front s = ltrim s"
  by (induction s) (simp_all add: ltrim_def)

lemma trim_back_eq: "trim_back s = rtrim s"
proof (induction s rule: rev_induct)
  case (snoc c s)
  then show ?case by (subst trim_back.simps) (simp add: rtrim_def)
qed (simp add: trim_back.simps)

lemma TrimAsciiWhitespace_eq: "TrimAsciiWhitespace s = strip s"
  by (simp add: TrimAsciiWhitespace_def trim_front_eq trim_back_eq strip_def)

lemma split_on_find:
  "split_on c s =
     (if c \<in> set s then takeWhile (\<lambda>x. x \<noteq> c) s # split_on c (tl (dropWhile (\<lambda>x. x \<noteq> c) s))
      else [s])"
  by (induction s) auto

lemma parse_token_eq:
  "parse_token t m = (case attr_of t of None \<Rightarrow> m | Some (k, v) \<Rightarrow> [k \<mapsto> v] ++ m)"
  by (auto simp: parse_token_def attr_of_def TrimAsciiWhitespace_eq Let_def map_add_def fun_eq_iff
      split: option.splits)

lemma attr_of_Nil [simp]: "attr_of [] = None"
  by (simp add: attr_of_def)

lemma parse_tokens_eq:
  "parse_tokens s m = map_of (List.map_filter attr_of (split_on CHR '';'' s)) ++ m"
proof (induction s m rule: parse_tokens.induct)
  case (1 s m)
  let ?t = "takeWhile (\<lambda>c. c \<noteq> CHR '';'') s" and ?r = "tl (dropWhile (\<lambda>c. c \<noteq> CHR '';'') s)"
  have step: "map_of (List.map_filter attr_of (x # xs)) ++ m
       = map_of (List.map_filter attr_of xs) ++ parse_token x m" for x xs
    by (auto simp: parse_token_eq map_filter_simps map_add_def fun_eq_iff split: option.splits)
  show ?case
  proof (cases "s = []")
    case True
    then show ?thesis by (simp add: parse_tokens.simps map_filter_simps)
  next
    case ne: False
    show ?thesis
    proof (cases "CHR '';'' \<in> set s")
      case True
      then show ?thesis
        using 1 [OF ne refl] ne
        by (subst parse_tokens.simps, subst split_on_find) (simp only: step if_True if_False Let_def not_not not_True_eq_False)
    next
      case False
      have "takeWhile (\<lambda>c. c \<noteq> CHR '';'') s = s"
        by (subst takeWhile_eq_all_conv) (use False in auto)
      then have pt: "parse_token ?t m = parse_token s m" by (rule arg_cong)
      with False ne show ?thesis
        using step [of s "[]"]
        by (subst parse_tokens.simps, subst split_on_find) (simp add: map_filter_simps)
    qed
  qed
qed

text \<open>
  C36. The extra attributes are those of the \<^verbatim>\<open>key:value\<close> tokens between semicolons: a token
  without a colon or with a blank key is ignored, blanks around key and value are dropped, a
  value may contain colons, and the first of several tokens with the same key counts.
\<close>

theorem parse_extra_attributes_spec:
  "extra_attrs (ParseExtraAttributes (Some s) im)
     = map_of (List.map_filter attr_of (split_on CHR '';'' (cstr s)))"
  by (simp add: ParseExtraAttributes_def parse_tokens_eq)

subsection \<open>Rows and columns\<close>

abbreviation arrow_fields :: "string list" where
  "arrow_fields \<equiv> map fst arrow_schema"

lemma distinct_arrow_fields: "distinct arrow_fields"
  by code_simp

lemma finish_steps_fields:
  "map step_builder finish_steps = arrow_fields"
  by code_simp

lemma Impl_builders_schema:
  "map (\<lambda>f. the (map_of Impl_builders f)) arrow_fields = map snd arrow_schema"
  by code_simp

lemma set_reset_builders: "set reset_builders = set arrow_fields"
  by code_simp

lemma row_fields: "row_of im ev = Some cells \<Longrightarrow> map fst cells = arrow_fields"
  by (auto simp: row_of_def bind_eq_Some_conv row_header_def row_texts_def row_numbers_def row_attrs_def arrow_schema_def)

lemma same_attrs_refl [simp]: "same_attrs im im"
  by (simp add: same_attrs_def)

lemma same_attrs_trans: "same_attrs a b \<Longrightarrow> same_attrs b c \<Longrightarrow> same_attrs a c"
  by (simp add: same_attrs_def)

lemma row_attrs_cong: "same_attrs im im' \<Longrightarrow> row_attrs im' = row_attrs im"
  by (simp add: same_attrs_def row_attrs_def ExtraAttr_def)

lemma field_cell_cong: "same_attrs im im' \<Longrightarrow> field_cell im' = field_cell im"
  by (simp add: field_cell_def row_of_def row_attrs_cong fun_eq_iff)

lemma arrow_columns_cong: "same_attrs im im' \<Longrightarrow> arrow_columns im' = arrow_columns im"
  by (simp add: arrow_columns_def field_cell_cong fun_eq_iff)

lemma append_all_same:
  "append_all lib cells im = (im', ok) \<Longrightarrow>
     same_attrs im im' \<and> num_rows im' = num_rows im \<and> estimated_bytes im' = estimated_bytes im"
proof (induction lib cells im rule: append_all.induct)
  case (2 lib b v cells im)
  then show ?case by (auto simp: same_attrs_def split: if_splits)
qed simp

lemma append_all_append:
  "append_all lib (xs @ ys) im =
     (case append_all lib xs im of (im, ok) \<Rightarrow> if ok then append_all lib ys im else (im, False))"
  by (induction lib xs im rule: append_all.induct) auto

lemma append_all_builders:
  "append_all lib cells im = (im', True) \<Longrightarrow> distinct (map fst cells) \<Longrightarrow>
     builders im' b = builders im b @ (case map_of cells b of None \<Rightarrow> [] | Some v \<Rightarrow> [v])"
proof (induction lib cells im rule: append_all.induct)
  case (2 lib b' v cells im)
  then have "map_of cells b' = None" by (simp add: map_of_eq_None_iff)
  with 2 show ?case by (auto split: if_splits)
qed simp

text \<open>A library of which no call fails.\<close>

definition arrow_lib_ok :: "arrow_lib \<Rightarrow> bool" where
  "arrow_lib_ok lib \<longleftrightarrow>
     (\<forall>b c. append_ok lib b c) \<and> (\<forall>b. finish_ok lib b) \<and> sink_create_ok lib \<and> codec_create_ok lib \<and>
     writer_create_ok lib \<and> (\<forall>r. write_ok lib r \<and> close_ok lib r \<and> ipc_buffer lib r \<noteq> None)"

lemma arrow_lib_okD:
  "arrow_lib_ok lib \<Longrightarrow> append_ok lib b c" "arrow_lib_ok lib \<Longrightarrow> finish_ok lib b"
  "arrow_lib_ok lib \<Longrightarrow> sink_create_ok lib \<and> codec_create_ok lib \<and> writer_create_ok lib"
  "arrow_lib_ok lib \<Longrightarrow> write_ok lib r" "arrow_lib_ok lib \<Longrightarrow> close_ok lib r"
  "arrow_lib_ok lib \<Longrightarrow> ipc_buffer lib r \<noteq> None"
  unfolding arrow_lib_ok_def by blast+

lemma append_all_total: "arrow_lib_ok lib \<Longrightarrow> snd (append_all lib cells im)"
  by (induction lib cells im rule: append_all.induct) (simp_all add: arrow_lib_okD)

lemma Append_row:
  assumes "row_of im ev = Some cells"
  shows "Append lib ev im =
     (case append_all lib cells im of (im', ok) \<Rightarrow>
        Some (if ok then im'\<lparr>estimated_bytes := estimated_bytes im' + of_nat (row_bytes im' (the (views_of ev))),
                              num_rows := num_rows im + 1\<rparr> else im', ok))"
proof -
  obtain ns v where nv: "unix_ns (ts_start ev) = Some ns" "views_of ev = Some v"
    and cells: "cells = row_header ns @ row_texts ev v @ row_numbers ev @ row_attrs im"
    using assms by (auto simp: row_of_def bind_eq_Some_conv)
  obtain i1 b1 where a1: "append_all lib (row_header ns) im = (i1, b1)" by (cases "append_all lib (row_header ns) im")
  obtain i2 b2 where a2: "append_all lib (row_texts ev v) i1 = (i2, b2)" by (cases "append_all lib (row_texts ev v) i1")
  obtain i3 b3 where a3: "append_all lib (row_numbers ev) i2 = (i3, b3)" by (cases "append_all lib (row_numbers ev) i2")
  obtain i4 b4 where a4: "append_all lib (row_attrs i3) i3 = (i4, b4)" by (cases "append_all lib (row_attrs i3) i3")
  have s: "same_attrs im i3" "num_rows i4 = num_rows im"
    using append_all_same [OF a1] append_all_same [OF a2] append_all_same [OF a3] append_all_same [OF a4]
    by (auto intro: same_attrs_trans)
  then have a5: "append_all lib (row_attrs im) i3 = (i4, b4)" using a4 by (simp add: row_attrs_cong)
  show ?thesis
    using s(2) unfolding cells
    by (cases b1; cases b2; cases b3; cases b4) (simp_all add: append_all_append a1 a2 a3 a4 a5 Append_def nv)
qed

lemma Append_rows:
  assumes "batch_rows im evs" and "row_of im ev = Some cells"
  obtains im' ok where "Append lib ev im = Some (im', ok)" "same_attrs im im'"
    "ok \<Longrightarrow> batch_rows im' (evs @ [ev])" "arrow_lib_ok lib \<Longrightarrow> ok"
proof -
  obtain im1 ok where a: "append_all lib cells im = (im1, ok)" by (cases "append_all lib cells im")
  have s: "same_attrs im im1" using append_all_same [OF a] by simp
  show ?thesis
  proof (cases ok)
    case True
    define n where "n = estimated_bytes im1 + of_nat (row_bytes im1 (the (views_of ev)))"
    have n: "Append lib ev im = Some (im1\<lparr>estimated_bytes := n, num_rows := num_rows im + 1\<rparr>, True)"
      using Append_row [OF assms(2), of lib] True a by (simp add: n_def)
    let ?im = "im1\<lparr>estimated_bytes := n, num_rows := num_rows im + 1\<rparr>"
    have s': "same_attrs im ?im" using s by (simp add: same_attrs_def)
    have d: "distinct (map fst cells)" using row_fields [OF assms(2)] distinct_arrow_fields by simp
    have "builders ?im f = map (field_cell ?im f) (evs @ [ev])" if "f \<in> fst ` set arrow_schema" for f
    proof -
      have "f \<in> set (map fst cells)" using that row_fields [OF assms(2)] by simp
      then obtain v where v: "map_of cells f = Some v" by (auto simp: map_of_eq_None_iff dest!: weak_map_of_SomeI)
      then have "builders im1 f = builders im f @ [v]"
        using append_all_builders [of lib cells im im1 f] a True d by simp
      moreover have bf: "builders im f = map (field_cell im f) evs"
        using assms(1) that unfolding batch_rows_def by blast
      moreover have "field_cell im f ev = v" using v assms(2) by (simp add: field_cell_def)
      ultimately show ?thesis
        using bf unfolding field_cell_cong [OF s'] by simp
    qed
    then have "batch_rows ?im (evs @ [ev])"
      using assms(1) s by (simp add: batch_rows_def same_attrs_def)
    with n s' show ?thesis by (intro that) simp_all
  next
    case False
    then show ?thesis using that [of im1 False] s a Append_row [OF assms(2), of lib] append_all_total [of lib cells im] by auto
  qed
qed

lemma append_events_rows:
  assumes "batch_rows im evs" and "\<forall>ev\<in>set evs'. row_of im ev \<noteq> None"
  shows "\<exists>im' ok. append_events lib evs' im = Some (im', ok) \<and> same_attrs im im' \<and>
     (ok \<longrightarrow> batch_rows im' (evs @ evs')) \<and> (arrow_lib_ok lib \<longrightarrow> ok)"
  using assms
proof (induction evs' arbitrary: im evs)
  case (Cons ev evs')
  then obtain cells where "row_of im ev = Some cells" by auto
  from Append_rows [OF Cons.prems(1) this, of lib] obtain im1 ok where
    A: "Append lib ev im = Some (im1, ok)" "same_attrs im im1" "ok \<Longrightarrow> batch_rows im1 (evs @ [ev])"
    "arrow_lib_ok lib \<Longrightarrow> ok"
    by metis
  show ?case
  proof (cases ok)
    case True
    have "row_of im1 = row_of im" using A(2) by (simp add: row_of_def row_attrs_cong fun_eq_iff)
    then have "\<forall>ev\<in>set evs'. row_of im1 ev \<noteq> None" using Cons.prems(2) by simp
    from Cons.IH [OF A(3) [OF True] this] obtain im2 ok2 where
      "append_events lib evs' im1 = Some (im2, ok2)" "same_attrs im1 im2"
      "ok2 \<longrightarrow> batch_rows im2 ((evs @ [ev]) @ evs')" "arrow_lib_ok lib \<longrightarrow> ok2" by blast
    then show ?thesis using A True by (auto intro: same_attrs_trans)
  next
    case False
    then show ?thesis using A by (intro exI [of _ im1] exI [of _ False]) auto
  qed
qed auto

lemma Reset_rows: "schema im = Some arrow_schema \<Longrightarrow> batch_rows (Reset im) []"
  by (simp add: batch_rows_def Reset_def set_reset_builders)

lemma Init_rows: "batch_rows (fst (Init a v im)) []"
  by (simp add: Init_def Let_def Reset_rows)

lemma finish_all_columns:
  "finish_all lib steps cols im = (im', Some cols') \<Longrightarrow>
   distinct (map step_builder steps) \<Longrightarrow>
     cols' = cols @ map (\<lambda>b. (the (map_of Impl_builders b), builders im b))
               (map step_builder steps) \<and>
     num_rows im' = num_rows im \<and> same_attrs im im'"
proof (induction lib steps cols im rule: finish_all.induct)
  case (2 lib step steps cols im)
  let ?b = "step_builder step"
  let ?im = "im\<lparr>builders := (builders im)(?b := [])\<rparr>"
  have ok: "finish_ok lib ?b"
    and r: "finish_all lib steps (cols @ [(the (map_of Impl_builders ?b), builders im ?b)]) ?im = (im', Some cols')"
    using "2.prems"(1) by (auto simp: Let_def split: if_splits)
  have d: "distinct (map step_builder steps)" "?b \<notin> set (map step_builder steps)" using "2.prems"(2) by auto
  have "map (\<lambda>b. (the (map_of Impl_builders b), builders ?im b)) (map step_builder steps)
      = map (\<lambda>b. (the (map_of Impl_builders b), builders im b)) (map step_builder steps)"
    by (rule map_cong [OF refl]) (use d(2) in \<open>auto simp: image_iff\<close>)
  moreover have "same_attrs ?im im' = same_attrs im im'" by (simp add: same_attrs_def)
  ultimately show ?case using "2.IH" [OF refl ok r d(1)] by simp
qed simp

lemma map_schema_columns:
  "map (\<lambda>b. (the (map_of Impl_builders b), g b)) arrow_fields = map (\<lambda>(f, t). (t, g f)) arrow_schema"
proof -
  have "map (\<lambda>b. (the (map_of Impl_builders b), g b)) arrow_fields
      = zip (map (\<lambda>f. the (map_of Impl_builders f)) arrow_fields) (map g arrow_fields)"
    by (simp add: zip_map_map zip_same_conv_map)
  also have "\<dots> = zip (map snd arrow_schema) (map (g \<circ> fst) arrow_schema)"
    unfolding Impl_builders_schema by simp
  also have "\<dots> = map (\<lambda>(f, t). (t, g f)) arrow_schema"
    by (simp add: zip_map_map zip_same_conv_map split_def)
  finally show ?thesis .
qed

lemma Finish_rows:
  assumes "batch_rows im evs" and "Finish lib im = (im', Some buf, n)"
  shows "n = length evs \<and> evs \<noteq> [] \<and> same_attrs im im' \<and>
     ipc_buffer lib (arrow_schema, length evs, arrow_columns im evs) = Some buf"
proof -
  have sch: "schema im = Some arrow_schema" and nr: "num_rows im = length evs"
    and bs: "\<And>f. f \<in> fst ` set arrow_schema \<Longrightarrow> builders im f = map (field_cell im f) evs"
    using assms(1) by (auto simp: batch_rows_def)
  obtain im1 r where f: "finish_all lib finish_steps [] im = (im1, r)"
    by (cases "finish_all lib finish_steps [] im")
  have ne: "evs \<noteq> []" using assms(2) by (auto simp: Finish_def sch nr)
  then obtain cols where r: "r = Some cols" using assms(2) by (cases r) (simp_all add: Finish_def sch nr f)
  then obtain w where w: "write_batch lib (arrow_schema, num_rows im1, cols) = Some w"
    using assms(2) ne
    by (cases "write_batch lib (arrow_schema, num_rows im1, cols)") (simp_all add: Finish_def sch nr f)
  have f: "finish_all lib finish_steps [] im = (im', Some cols)" and n: "n = num_rows im'"
    and buf: "ipc_buffer lib (arrow_schema, num_rows im', cols) = Some buf"
    using assms(2) ne w r f by (auto simp: Finish_def sch nr write_batch_def split: if_splits)
  have c: "cols = map (\<lambda>b. (the (map_of Impl_builders b), builders im b)) arrow_fields"
      "num_rows im' = num_rows im" "same_attrs im im'"
    using finish_all_columns [OF f] distinct_arrow_fields unfolding finish_steps_fields by simp_all
  have "cols = map (\<lambda>(f, t). (t, builders im f)) arrow_schema"
    unfolding c(1) by (rule map_schema_columns)
  also have "\<dots> = arrow_columns im evs"
    unfolding arrow_columns_def by (rule map_cong [OF refl]) (auto intro!: bs rev_image_eqI)
  finally show ?thesis using buf n nr ne c by simp
qed

subsection \<open>Nothing is read outside a buffer\<close>

lemma ClampFieldLen_le: "unat (ClampFieldLen n m) \<le> unat m"
  by (simp add: ClampFieldLen_def word_le_nat_alt)

lemma views_of_shape:
  assumes "event_shape ev"
  shows "views_of ev \<noteq> None"
proof -
  note le = ClampFieldLen_le [THEN order_trans]
  have "unat (ClampFieldLen (datname_len ev) (of_nat (NAMEDATALEN - 1))) \<le> length (datname ev)"
    "unat (ClampFieldLen (username_len ev) (of_nat (NAMEDATALEN - 1))) \<le> length (username ev)"
    "unat (ClampFieldLen (application_name_len ev) (of_nat PSCH_MAX_APP_NAME_LEN)) \<le> length (application_name ev)"
    "unat (ClampFieldLen (client_addr_len ev) (of_nat PSCH_MAX_CLIENT_ADDR_LEN)) \<le> length (client_addr ev)"
    "unat (ClampFieldLen (query_len ev) (of_nat PSCH_MAX_QUERY_LEN)) \<le> length (query ev)"
    "unat (ClampFieldLen (err_message_len ev) (of_nat PSCH_MAX_ERR_MSG_LEN)) \<le> length (err_message ev)"
    by (rule le; use assms in \<open>simp add: event_shape_def\<close>)+
  moreover have "length (cstr (take 5 (err_sqlstate ev))) \<le> length (err_sqlstate ev)"
    using length_takeWhile_le [of "\<lambda>c. c \<noteq> NUL" "take 5 (err_sqlstate ev)"] by (simp add: cstr_def)
  ultimately show ?thesis by (simp add: views_of_def string_view_def)
qed

lemma row_of_shape:
  "event_shape ev \<Longrightarrow> unix_ns (ts_start ev) \<noteq> None \<Longrightarrow> row_of im ev \<noteq> None"
  using views_of_shape [of ev] by (auto simp: row_of_def)

lemma finish_all_total: "arrow_lib_ok lib \<Longrightarrow> snd (finish_all lib steps cols im) \<noteq> None"
  by (induction lib steps cols im rule: finish_all.induct) (simp_all add: arrow_lib_okD Let_def)

lemma Finish_total:
  assumes "arrow_lib_ok lib" and "batch_rows im evs" and "evs \<noteq> []"
  shows "\<exists>im' buf n. Finish lib im = (im', Some buf, n)"
proof -
  obtain im1 cols where f: "finish_all lib finish_steps [] im = (im1, Some cols)"
    using finish_all_total [OF assms(1), of finish_steps "[]" im]
    by (cases "finish_all lib finish_steps [] im") auto
  obtain w where "write_batch lib (arrow_schema, num_rows im1, cols) = Some w"
    using arrow_lib_okD [OF assms(1)] by (fastforce simp: write_batch_def)
  then show ?thesis using assms(2,3) f by (simp add: Finish_def batch_rows_def)
qed

text \<open>
  C37. A finished batch fits its schema. Appending the rows of events, whose timestamps do not
  overflow, never reads outside a buffer; when every append succeeds and the batch is
  finished, what is written is a record batch with one column per field of the schema, in the
  order of the schema and of the field's type, and each column has the field's value of
  every event, in order. It is always written when no call of the library fails and there is
  a row.
\<close>

theorem arrow_batch_matches_schema:
  assumes "\<forall>ev\<in>set evs. event_shape ev \<and> unix_ns (ts_start ev) \<noteq> None"
  shows "\<exists>im ok. append_events lib evs (fst (Init a v Impl_new)) = Some (im, ok) \<and>
     (\<forall>im' buf n. ok \<and> Finish lib im = (im', Some buf, n) \<longrightarrow>
        n = length evs \<and>
        ipc_buffer lib (arrow_schema, n, arrow_columns (fst (Init a v Impl_new)) evs) = Some buf) \<and>
     (arrow_lib_ok lib \<and> evs \<noteq> [] \<longrightarrow> ok \<and> (\<exists>im' buf n. Finish lib im = (im', Some buf, n)))"
proof -
  let ?im = "fst (Init a v Impl_new)"
  obtain im ok where r: "append_events lib evs ?im = Some (im, ok)" "same_attrs ?im im"
      "ok \<longrightarrow> batch_rows im ([] @ evs)" "arrow_lib_ok lib \<longrightarrow> ok"
    using append_events_rows [OF Init_rows, of evs a v Impl_new lib] assms row_of_shape by blast
  have fin: "n = length evs \<and> ipc_buffer lib (arrow_schema, n, arrow_columns ?im evs) = Some buf"
    if "ok" "Finish lib im = (im', Some buf, n)" for im' buf n
    using Finish_rows [OF _ that(2), of evs] r(3) that(1) by (simp add: arrow_columns_cong [OF r(2)])
  have tot: "ok \<and> (\<exists>im' buf n. Finish lib im = (im', Some buf, n))" if "arrow_lib_ok lib" "evs \<noteq> []"
    using that(1) r(4) Finish_total [OF that(1) _ that(2), of im] r(3) by simp
  show ?thesis using r(1) fin tot by (intro exI [of _ im] exI [of _ ok]) simp
qed

text \<open>
  A sample library with an encoding of its own that can be read back: every value is written
  so that its end is known, and a list after its length.
\<close>

definition codec :: "('a \<Rightarrow> char list) \<Rightarrow> (char list \<Rightarrow> 'a \<times> char list) \<Rightarrow> bool" where
  "codec enc dec \<longleftrightarrow> (\<forall>x rest. dec (enc x @ rest) = (x, rest))"

definition enc_nat :: "nat \<Rightarrow> char list" where
  "enc_nat n = replicate n CHR ''1'' @ [CHR ''0'']"

definition dec_nat :: "char list \<Rightarrow> nat \<times> char list" where
  "dec_nat s = (length (takeWhile (\<lambda>c. c = CHR ''1'') s), tl (dropWhile (\<lambda>c. c = CHR ''1'') s))"

definition enc_word :: "'a::len word \<Rightarrow> char list" where
  "enc_word w = map (\<lambda>i. if bit w i then CHR ''1'' else CHR ''0'') [0..<LENGTH('a)]"

definition dec_word :: "char list \<Rightarrow> 'a::len word \<times> char list" where
  "dec_word s =
     (horner_sum of_bool 2 (map (\<lambda>c. c = CHR ''1'') (take LENGTH('a) s)), drop LENGTH('a) s)"

definition enc_list :: "('a \<Rightarrow> char list) \<Rightarrow> 'a list \<Rightarrow> char list" where
  "enc_list enc xs = enc_nat (length xs) @ concat (map enc xs)"

primrec dec_times :: "(char list \<Rightarrow> 'a \<times> char list) \<Rightarrow> nat \<Rightarrow> char list \<Rightarrow> 'a list \<times> char list" where
  "dec_times dec 0 s = ([], s)"
| "dec_times dec (Suc n) s = (let (x, s) = dec s; (xs, s) = dec_times dec n s in (x # xs, s))"

definition dec_list :: "(char list \<Rightarrow> 'a \<times> char list) \<Rightarrow> char list \<Rightarrow> 'a list \<times> char list" where
  "dec_list dec s = (let (n, s) = dec_nat s in dec_times dec n s)"

definition enc_pair :: "('a \<Rightarrow> char list) \<Rightarrow> ('b \<Rightarrow> char list) \<Rightarrow> 'a \<times> 'b \<Rightarrow> char list" where
  "enc_pair e1 e2 p = e1 (fst p) @ e2 (snd p)"

definition dec_pair ::
    "(char list \<Rightarrow> 'a \<times> char list) \<Rightarrow> (char list \<Rightarrow> 'b \<times> char list) \<Rightarrow> char list \<Rightarrow> ('a \<times> 'b) \<times> char list" where
  "dec_pair d1 d2 s = (let (x, s) = d1 s; (y, s) = d2 s in ((x, y), s))"

definition enc_text :: "char list \<Rightarrow> char list" where
  "enc_text = enc_list (\<lambda>c. [c])"

definition dec_text :: "char list \<Rightarrow> char list \<times> char list" where
  "dec_text = dec_list (\<lambda>s. (hd s, tl s))"

fun enc_type :: "arrow_type \<Rightarrow> char list" where
  "enc_type timestamp_ns_utc = ''t''"
| "enc_type dictionary_utf8 = ''d''"
| "enc_type utf8 = ''s''"
| "enc_type int32 = ''i''"
| "enc_type uint64 = ''U''"
| "enc_type uint32 = ''u''"

definition dec_type :: "char list \<Rightarrow> arrow_type \<times> char list" where
  "dec_type s =
     (the (map_of [(CHR ''t'', timestamp_ns_utc), (CHR ''d'', dictionary_utf8), (CHR ''s'', utf8), (CHR ''i'', int32),
                   (CHR ''U'', uint64), (CHR ''u'', uint32)] (hd s)), tl s)"

fun enc_cell :: "cell \<Rightarrow> char list" where
  "enc_cell (Int64Cell w) = CHR ''L'' # enc_word w"
| "enc_cell (StrCell t) = CHR ''s'' # enc_text t"
| "enc_cell (Int32Cell w) = CHR ''i'' # enc_word w"
| "enc_cell (UInt64Cell w) = CHR ''U'' # enc_word w"
| "enc_cell (UInt32Cell w) = CHR ''u'' # enc_word w"

definition dec_cell :: "char list \<Rightarrow> cell \<times> char list" where
  "dec_cell s =
     (if hd s = CHR ''L'' then map_prod Int64Cell id (dec_word (tl s))
      else if hd s = CHR ''s'' then map_prod StrCell id (dec_text (tl s))
      else if hd s = CHR ''i'' then map_prod Int32Cell id (dec_word (tl s))
      else if hd s = CHR ''U'' then map_prod UInt64Cell id (dec_word (tl s))
      else map_prod UInt32Cell id (dec_word (tl s)))"

definition enc_batch :: "record_batch \<Rightarrow> char list" where
  "enc_batch = enc_pair (enc_list (enc_pair enc_text enc_type))
     (enc_pair enc_nat (enc_list (enc_pair enc_type (enc_list enc_cell))))"

definition dec_batch :: "char list \<Rightarrow> record_batch \<times> char list" where
  "dec_batch = dec_pair (dec_list (dec_pair dec_text dec_type))
     (dec_pair dec_nat (dec_list (dec_pair dec_type (dec_list dec_cell))))"

lemma codec_nat: "codec enc_nat dec_nat"
proof -
  have "takeWhile (\<lambda>c. c = CHR ''1'') (replicate n CHR ''1'' @ CHR ''0'' # rest) = replicate n CHR ''1'' \<and>
        dropWhile (\<lambda>c. c = CHR ''1'') (replicate n CHR ''1'' @ CHR ''0'' # rest) = CHR ''0'' # rest" for n rest
    by (induction n) simp_all
  then show ?thesis by (simp add: codec_def enc_nat_def dec_nat_def)
qed

lemma codec_word: "codec (enc_word :: 'a::len word \<Rightarrow> char list) dec_word"
proof -
  have "horner_sum of_bool 2 (map (bit w) [0..<LENGTH('a)]) = w" for w :: "'a word"
    by (simp add: horner_sum_bit_eq_take_bit)
  moreover have "map (\<lambda>c. c = CHR ''1'') (enc_word w) = map (bit w) [0..<LENGTH('a)]" for w :: "'a word"
    by (simp add: enc_word_def)
  moreover have "length (enc_word w) = LENGTH('a)" for w :: "'a word" by (simp add: enc_word_def)
  ultimately show ?thesis by (simp add: codec_def dec_word_def)
qed

lemma codec_list: "codec e d \<Longrightarrow> codec (enc_list e) (dec_list d)"
proof -
  assume "codec e d"
  then have "dec_times d (length xs) (concat (map e xs) @ rest) = (xs, rest)" for xs rest
    by (induction xs) (simp_all add: codec_def)
  with codec_nat show ?thesis by (simp add: codec_def enc_list_def dec_list_def)
qed

lemma codec_pair: "codec e1 d1 \<Longrightarrow> codec e2 d2 \<Longrightarrow> codec (enc_pair e1 e2) (dec_pair d1 d2)"
  by (simp add: codec_def enc_pair_def dec_pair_def)

lemma codec_text: "codec enc_text dec_text"
  unfolding enc_text_def dec_text_def by (rule codec_list) (simp add: codec_def)

lemma codec_type: "codec enc_type dec_type"
  unfolding codec_def
proof (intro allI)
  fix t rest show "dec_type (enc_type t @ rest) = (t, rest)" by (cases t) (simp_all add: dec_type_def)
qed

lemma codec_cell: "codec enc_cell dec_cell"
  unfolding codec_def
proof (intro allI)
  fix c rest show "dec_cell (enc_cell c @ rest) = (c, rest)"
    by (cases c) (simp_all add: dec_cell_def codec_word [unfolded codec_def, rule_format]
        codec_text [unfolded codec_def, rule_format])
qed

lemma codec_batch: "codec enc_batch dec_batch"
  unfolding enc_batch_def dec_batch_def
  by (intro codec_pair codec_list codec_nat codec_text codec_type codec_cell)

lemma dec_enc_batch: "fst (dec_batch (enc_batch r)) = r"
  using codec_batch [unfolded codec_def, rule_format, of r "[]"] by simp

lemma enc_batch_not_Nil: "enc_batch r \<noteq> []"
  by (simp add: enc_batch_def enc_pair_def enc_list_def enc_nat_def)

definition arrow_sample_lib :: arrow_lib where
  "arrow_sample_lib =
     \<lparr>append_ok = (\<lambda>_ _. True), finish_ok = (\<lambda>_. True), sink_create_ok = True, codec_create_ok = True,
      writer_create_ok = True, write_ok = (\<lambda>_. True), close_ok = (\<lambda>_. True),
      ipc_buffer = (\<lambda>r. Some (enc_batch r))\<rparr>"

lemma arrow_sample_lib_ok [simp]: "arrow_lib_ok arrow_sample_lib"
  by (simp add: arrow_lib_ok_def arrow_sample_lib_def)

lemma zero_event_arrow [simp]: "unix_ns (ts_start zero_event) \<noteq> None"
  by (simp add: unix_ns_def zero_event_def zero_fixed_def PschEvent.defs psch_fixed.defs
      kPostgresEpochOffsetUs_def)

theorem arrow_batch_matches_schema_witness:
  "\<exists>im. append_events arrow_sample_lib [zero_event] (fst (Init (Some ''region: eu'') None Impl_new)) = Some (im, True)
     \<and> (\<exists>im' buf n. Finish arrow_sample_lib im = (im', Some buf, n))"
  using arrow_batch_matches_schema [of "[zero_event]" arrow_sample_lib "Some ''region: eu''" None] by auto

end
