(* ===== verification/Psch_Exporter_Iface.thy ===== *)
theory Psch_Exporter_Iface
  imports Psch_Arrow
begin

section \<open>The exporter interface (\<^verbatim>\<open>exporter_interface.h\<close>, \<^verbatim>\<open>stats_exporter.cc\<close>)\<close>

text \<open>
  The columns of \<^verbatim>\<open>ExportEventStatsInternal\<close> and the value that each of them gets for an
  event. The calls that the function makes on a \<^verbatim>\<open>StatsExporter\<close> are values of
  \<open>exporter_call\<close>, so that a backend is a function of calls; a column handle is the factory
  call that made it. \<^const>\<open>None\<close> is undefined behaviour: a text outside its buffer, or a
  timestamp that overflows. Note that the lengths of the database and user names are not
  clamped here.
\<close>

datatype stat_col =
    StatLCString string | StatLCUInt8 string | StatLCInt16 string | StatLCInt32 string
  | StatHCString string | StatHCInt64 string | StatHCUInt64 string | StatTimestamp string
  | DbNameColumn | DbUserColumn | DbDurationColumn | DbOperationColumn | DbQueryTextColumn

datatype col_value =
    is_str: VString "char list" | is_u8: VUInt8 u8 | is_i16: VInt16 i16 | is_i32: VInt32 i32
  | is_i64: VInt64 i64 | is_u64: VUInt64 u64

datatype exporter_call =
    BeginBatch | MakeColumn stat_col | BeginRow | AppendValue stat_col col_value

type_synonym stat_row = "(stat_col \<times> col_value) list"

definition stat_columns :: "stat_col list" where
  "stat_columns =
     [StatTimestamp ''ts'',
      DbDurationColumn,
      DbNameColumn,
      DbUserColumn,
      StatLCInt32 ''pid'',
      StatHCInt64 ''query_id'',
      DbOperationColumn,
      StatHCUInt64 ''rows'',
      DbQueryTextColumn,
      StatHCInt64 ''shared_blks_hit'',
      StatHCInt64 ''shared_blks_read'',
      StatHCInt64 ''shared_blks_dirtied'',
      StatHCInt64 ''shared_blks_written'',
      StatHCInt64 ''local_blks_hit'',
      StatHCInt64 ''local_blks_read'',
      StatHCInt64 ''local_blks_dirtied'',
      StatHCInt64 ''local_blks_written'',
      StatHCInt64 ''temp_blks_read'',
      StatHCInt64 ''temp_blks_written'',
      StatHCInt64 ''shared_blk_read_time_us'',
      StatHCInt64 ''shared_blk_write_time_us'',
      StatHCInt64 ''local_blk_read_time_us'',
      StatHCInt64 ''local_blk_write_time_us'',
      StatHCInt64 ''temp_blk_read_time_us'',
      StatHCInt64 ''temp_blk_write_time_us'',
      StatHCInt64 ''wal_records'',
      StatHCInt64 ''wal_fpi'',
      StatHCUInt64 ''wal_bytes'',
      StatHCInt64 ''cpu_user_time_us'',
      StatHCInt64 ''cpu_sys_time_us'',
      StatLCInt32 ''jit_functions'',
      StatLCInt32 ''jit_generation_time_us'',
      StatLCInt32 ''jit_deform_time_us'',
      StatLCInt32 ''jit_inlining_time_us'',
      StatLCInt32 ''jit_optimization_time_us'',
      StatLCInt32 ''jit_emission_time_us'',
      StatLCInt16 ''parallel_workers_planned'',
      StatLCInt16 ''parallel_workers_launched'',
      StatLCString ''err_sqlstate'',
      StatLCUInt8 ''err_elevel'',
      StatHCString ''err_message'',
      StatLCString ''app'',
      StatHCString ''client_addr'']"

text \<open>\<^verbatim>\<open>ev.ts_start + kPostgresEpochOffsetUs\<close> in signed 64-bit arithmetic.\<close>

definition unix_us :: "TimestampTz \<Rightarrow> i64 option" where
  "unix_us ts =
     (let us = sint ts + kPostgresEpochOffsetUs
      in if us < 2 ^ 63 then Some (word_of_int us) else None)"

definition event_row :: "PschEvent \<Rightarrow> stat_row option" where
  "event_row ev =
     do {
       us \<leftarrow> unix_us (ts_start ev);
       nm \<leftarrow> string_view (datname ev) (unat (datname_len ev));
       usr \<leftarrow> string_view (username ev) (unat (username_len ev));
       qtxt \<leftarrow> string_view (query ev) (unat (ClampFieldLen (query_len ev) (of_nat PSCH_MAX_QUERY_LEN)));
       state \<leftarrow> string_view (err_sqlstate ev) (length (cstr (take 5 (err_sqlstate ev))));
       msg \<leftarrow> string_view (err_message ev)
                (unat (ClampFieldLen (err_message_len ev) (of_nat PSCH_MAX_ERR_MSG_LEN)));
       appl \<leftarrow> string_view (application_name ev)
                 (unat (ClampFieldLen (application_name_len ev) (of_nat PSCH_MAX_APP_NAME_LEN)));
       addr \<leftarrow> string_view (client_addr ev)
                 (unat (ClampFieldLen (client_addr_len ev) (of_nat PSCH_MAX_CLIENT_ADDR_LEN)));
       Some
        [(StatTimestamp ''ts'', VInt64 us),
         (DbDurationColumn, VUInt64 (duration_us ev)),
         (DbNameColumn, VString nm),
         (DbUserColumn, VString usr),
         (StatLCInt32 ''pid'', VInt32 (pid ev)),
         (StatHCInt64 ''query_id'', VInt64 (queryid ev)),
         (DbOperationColumn, VString (PschCmdTypeToString (cmd_type ev))),
         (StatHCUInt64 ''rows'', VUInt64 (rows ev)),
         (DbQueryTextColumn, VString qtxt),
         (StatHCInt64 ''shared_blks_hit'', VInt64 (shared_blks_hit ev)),
         (StatHCInt64 ''shared_blks_read'', VInt64 (shared_blks_read ev)),
         (StatHCInt64 ''shared_blks_dirtied'', VInt64 (shared_blks_dirtied ev)),
         (StatHCInt64 ''shared_blks_written'', VInt64 (shared_blks_written ev)),
         (StatHCInt64 ''local_blks_hit'', VInt64 (local_blks_hit ev)),
         (StatHCInt64 ''local_blks_read'', VInt64 (local_blks_read ev)),
         (StatHCInt64 ''local_blks_dirtied'', VInt64 (local_blks_dirtied ev)),
         (StatHCInt64 ''local_blks_written'', VInt64 (local_blks_written ev)),
         (StatHCInt64 ''temp_blks_read'', VInt64 (temp_blks_read ev)),
         (StatHCInt64 ''temp_blks_written'', VInt64 (temp_blks_written ev)),
         (StatHCInt64 ''shared_blk_read_time_us'', VInt64 (shared_blk_read_time_us ev)),
         (StatHCInt64 ''shared_blk_write_time_us'', VInt64 (shared_blk_write_time_us ev)),
         (StatHCInt64 ''local_blk_read_time_us'', VInt64 (local_blk_read_time_us ev)),
         (StatHCInt64 ''local_blk_write_time_us'', VInt64 (local_blk_write_time_us ev)),
         (StatHCInt64 ''temp_blk_read_time_us'', VInt64 (temp_blk_read_time_us ev)),
         (StatHCInt64 ''temp_blk_write_time_us'', VInt64 (temp_blk_write_time_us ev)),
         (StatHCInt64 ''wal_records'', VInt64 (wal_records ev)),
         (StatHCInt64 ''wal_fpi'', VInt64 (wal_fpi ev)),
         (StatHCUInt64 ''wal_bytes'', VUInt64 (wal_bytes ev)),
         (StatHCInt64 ''cpu_user_time_us'', VInt64 (cpu_user_time_us ev)),
         (StatHCInt64 ''cpu_sys_time_us'', VInt64 (cpu_sys_time_us ev)),
         (StatLCInt32 ''jit_functions'', VInt32 (jit_functions ev)),
         (StatLCInt32 ''jit_generation_time_us'', VInt32 (jit_generation_time_us ev)),
         (StatLCInt32 ''jit_deform_time_us'', VInt32 (jit_deform_time_us ev)),
         (StatLCInt32 ''jit_inlining_time_us'', VInt32 (jit_inlining_time_us ev)),
         (StatLCInt32 ''jit_optimization_time_us'', VInt32 (jit_optimization_time_us ev)),
         (StatLCInt32 ''jit_emission_time_us'', VInt32 (jit_emission_time_us ev)),
         (StatLCInt16 ''parallel_workers_planned'', VInt16 (parallel_workers_planned ev)),
         (StatLCInt16 ''parallel_workers_launched'', VInt16 (parallel_workers_launched ev)),
         (StatLCString ''err_sqlstate'', VString state),
         (StatLCUInt8 ''err_elevel'', VUInt8 (err_elevel ev)),
         (StatHCString ''err_message'', VString msg),
         (StatLCString ''app'', VString appl),
         (StatHCString ''client_addr'', VString addr)]
     }"

definition row_calls :: "stat_row \<Rightarrow> exporter_call list" where
  "row_calls r = BeginRow # map (\<lambda>(c, v). AppendValue c v) r"

text \<open>The calls of \<^verbatim>\<open>ExportEventStatsInternal\<close>, in their order.\<close>

definition export_calls :: "stat_row list \<Rightarrow> exporter_call list" where
  "export_calls rs = BeginBatch # map MakeColumn stat_columns @ concat (map row_calls rs)"

text \<open>
  The virtual methods of a backend whose members are an \<open>'x\<close>. The calls of the batch may
  raise a C++ exception (\<^const>\<open>Throw\<close>); the other methods catch theirs.
\<close>

record 'x StatsExporter =
  vt_call :: "exporter_call \<Rightarrow> 'x \<times> world \<Rightarrow> ('x \<times> world, unit) pgres"
  vt_CommitBatch :: "'x \<times> world \<Rightarrow> (('x \<times> world) \<times> bool) option"
  vt_EstablishNewConnection :: "'x \<Rightarrow> 'x \<times> bool"
  vt_IsConnected :: "'x \<Rightarrow> bool"
  vt_NumConsecutiveFailures :: "'x \<Rightarrow> int"
  vt_ResetFailures :: "'x \<Rightarrow> 'x"
  vt_NumExported :: "'x \<Rightarrow> int"
  vt_SendArrowBatch :: "char list \<Rightarrow> nat \<Rightarrow> 'x \<times> world \<Rightarrow> (('x \<times> world) \<times> bool) option"

text \<open>\<open>throws i\<close>: the \<open>i\<close>-th call of the batch runs out of memory.\<close>

fun run_calls ::
    "(nat \<Rightarrow> bool) \<Rightarrow> 'x StatsExporter \<Rightarrow> nat \<Rightarrow> exporter_call list \<Rightarrow> 'x \<times> world \<Rightarrow> ('x \<times> world, unit) pgres"
  where
  "run_calls throws vt i [] s = pg_ret s ()"
| "run_calls throws vt i (c # cs) s =
     (if throws i then Some (s, Throw)
      else pg_bind (vt_call vt c s) (\<lambda>s _. run_calls throws vt (i + 1) cs s))"

lemma ok_conj:
  "ok_res T Q m \<Longrightarrow> (\<And>s x. m = Some (s, Ret x) \<Longrightarrow> R s x) \<Longrightarrow> ok_res T (\<lambda>s x. Q s x \<and> R s x) m"
  by (erule ok_resE) auto

lemma run_calls_append:
  "run_calls throws vt i (xs @ ys) s =
     pg_bind (run_calls throws vt i xs s) (\<lambda>s _. run_calls throws vt (i + length xs) ys s)"
proof (induction xs arbitrary: i s)
  case (Cons x xs)
  then show ?case by (auto simp: pg_bind_def split: option.splits prod.splits outcome.splits)
qed simp

subsection \<open>Rows\<close>

text \<open>What the events in the queue satisfy besides the array bounds.\<close>

definition exportable :: "PschEvent \<Rightarrow> bool" where
  "exportable ev \<longleftrightarrow>
     event_shape ev \<and> unat (datname_len ev) \<le> NAMEDATALEN \<and> unat (username_len ev) \<le> NAMEDATALEN \<and>
     unix_us (ts_start ev) \<noteq> None"

primrec value_fits :: "stat_col \<Rightarrow> col_value \<Rightarrow> bool" where
  "value_fits (StatLCString _) = is_str"
| "value_fits (StatLCUInt8 _) = is_u8"
| "value_fits (StatLCInt16 _) = is_i16"
| "value_fits (StatLCInt32 _) = is_i32"
| "value_fits (StatHCString _) = is_str"
| "value_fits (StatHCInt64 _) = is_i64"
| "value_fits (StatHCUInt64 _) = is_u64"
| "value_fits (StatTimestamp _) = is_i64"
| "value_fits DbNameColumn = is_str"
| "value_fits DbUserColumn = is_str"
| "value_fits DbDurationColumn = is_u64"
| "value_fits DbOperationColumn = is_str"
| "value_fits DbQueryTextColumn = is_str"

definition row_ok :: "stat_row \<Rightarrow> bool" where
  "row_ok r \<longleftrightarrow> map fst r = stat_columns \<and> (\<forall>(c, v)\<in>set r. value_fits c v)"

lemma distinct_stat_columns: "distinct stat_columns"
  by code_simp

lemma event_row_ok: "event_row ev = Some r \<Longrightarrow> row_ok r"
  by (auto simp: event_row_def bind_eq_Some_conv row_ok_def stat_columns_def)

lemma event_row_exportable:
  assumes "exportable ev"
  shows "\<exists>r. event_row ev = Some r"
proof -
  note le = ClampFieldLen_le [THEN order_trans]
  have "unat (ClampFieldLen (application_name_len ev) (of_nat PSCH_MAX_APP_NAME_LEN)) \<le> length (application_name ev)"
    "unat (ClampFieldLen (client_addr_len ev) (of_nat PSCH_MAX_CLIENT_ADDR_LEN)) \<le> length (client_addr ev)"
    "unat (ClampFieldLen (query_len ev) (of_nat PSCH_MAX_QUERY_LEN)) \<le> length (query ev)"
    "unat (ClampFieldLen (err_message_len ev) (of_nat PSCH_MAX_ERR_MSG_LEN)) \<le> length (err_message ev)"
    by (rule le; use assms in \<open>simp add: exportable_def event_shape_def\<close>)+
  moreover have "length (cstr (take 5 (err_sqlstate ev))) \<le> length (err_sqlstate ev)"
    using length_takeWhile_le [of "\<lambda>c. c \<noteq> NUL" "take 5 (err_sqlstate ev)"] by (simp add: cstr_def)
  ultimately show ?thesis
    using assms by (auto simp: event_row_def string_view_def exportable_def event_shape_def)
qed

subsection \<open>What an export may change in the shared segment\<close>

definition stats_only :: "world \<Rightarrow> world \<Rightarrow> bool" where
  "stats_only w w' \<longleftrightarrow>
     snd w' = snd w \<and>
     (case (fst w, fst w') of (sh, sh') \<Rightarrow>
        lock sh' = lock sh \<and> raw_dsa_area sh' = raw_dsa_area sh \<and> dsa_oom_count sh' = dsa_oom_count sh \<and>
        capacity sh' = capacity sh \<and> head sh' = head sh \<and> enqueued sh' = enqueued sh \<and>
        dropped sh' = dropped sh \<and> overflow_logged sh' = overflow_logged sh \<and> tail sh' = tail sh \<and>
        length (last_error_text sh') = length (last_error_text sh) \<and>
        exported sh' = exported sh \<and> bgworker_pid sh' = bgworker_pid sh \<and> ring_buffer sh' = ring_buffer sh \<and>
        dsa_area sh' = dsa_area sh \<and> dsa_refcnt sh' = dsa_refcnt sh \<and> intern_tab sh' = intern_tab sh \<and>
        server_log sh' = server_log sh)"

text \<open>The worker holds no lock and nobody else does.\<close>

definition idle :: "pg_env \<Rightarrow> world \<Rightarrow> bool" where
  "idle penv w \<longleftrightarrow> lwlock_ok penv \<and> \<not> holds_lock (snd w) \<and> \<not> lock (fst w)"

lemma stats_only_refl [simp]: "stats_only w w"
  by (simp add: stats_only_def)

lemma stats_only_trans: "stats_only u v \<Longrightarrow> stats_only v w \<Longrightarrow> stats_only u w"
  by (simp add: stats_only_def)

lemma stats_only_idle: "stats_only w w' \<Longrightarrow> idle penv w' = idle penv w"
  by (simp add: stats_only_def idle_def)

lemma stats_only_queue:
  assumes "stats_only w w'"
  shows "queue_inv (fst w') = queue_inv (fst w)" "abs_queue (fst w') = abs_queue (fst w)"
    "proc_ready (fst w') p = proc_ready (fst w) p"
proof -
  have eq: "dsa_area (fst w') = dsa_area (fst w)" "intern_tab (fst w') = intern_tab (fst w)"
      "live (fst w') = live (fst w)"
    using assms by (simp_all add: stats_only_def live_def)
  show "queue_inv (fst w') = queue_inv (fst w)"
    using assms by (simp add: queue_inv_def heap_inv_cong [OF eq(1,2)] eq(3)) (simp add: stats_only_def)
  show "abs_queue (fst w') = abs_queue (fst w)"
    by (simp add: abs_queue_def abs_slot_cong [OF eq(1)] eq(3))
  show "proc_ready (fst w') p = proc_ready (fst w) p"
    using assms by (simp add: proc_ready_def stats_only_def)
qed

lemma LWLockAcquire_idle:
  "idle penv (sh, p) \<Longrightarrow> LWLockAcquire penv (sh, p) = Some (sh\<lparr>lock := True\<rparr>, p\<lparr>holds_lock := True\<rparr>)"
  by (simp add: idle_def LWLockAcquire_def Let_def lwlock_okD(1))

lemma length_strlcpy [simp]: "length (fst (strlcpy dst src (length dst))) = length dst"
  by (cases dst) (auto simp: strlcpy_def Let_def)

lemma LWLock_round:
  assumes "idle penv (sh, p)"
  shows "LWLockRelease (sh', p\<lparr>holds_lock := True\<rparr>) = (sh'\<lparr>lock := False\<rparr>, p)"
  using assms by (cases p) (simp add: idle_def LWLockRelease_def)

lemma record_failure_idle:
  assumes "idle penv w"
  shows "\<exists>w'. PschRecordExportFailure penv m w = Some w' \<and> stats_only w w'"
proof (cases "psch_shared_state (snd w)")
  case True
  obtain sh p where w: "w = (sh, p)" by (cases w)
  define sh1 where "sh1 = sh\<lparr>send_failures := send_failures sh + 1\<rparr>"
  define sh2 where "sh2 = sh1\<lparr>lock := True, last_error_ts := GetCurrentTimestamp penv\<rparr>"
  define sh3 where "sh3 = (case m of None \<Rightarrow> sh2
     | Some t \<Rightarrow> sh2\<lparr>last_error_text := fst (strlcpy (last_error_text sh2) t (length (last_error_text sh2)))\<rparr>)"
  have i: "idle penv (sh1, p)" and l: "lock sh = False" using assms by (simp_all add: w idle_def sh1_def)
  have "PschRecordExportFailure penv m w = Some (sh3\<lparr>lock := False\<rparr>, p)"
    using True LWLockAcquire_idle [OF i] LWLock_round [OF i]
    by (cases m) (simp_all add: w PschRecordExportFailure_def sh1_def [symmetric] sh3_def sh2_def Let_def)
  moreover have "stats_only w (sh3\<lparr>lock := False\<rparr>, p)"
    using l by (cases m) (simp_all add: w stats_only_def sh3_def sh2_def sh1_def)
  ultimately show ?thesis by blast
qed (auto simp: PschRecordExportFailure_def)

lemma record_success_idle:
  assumes "idle penv w"
  shows "\<exists>w'. PschRecordExportSuccess penv w = Some w' \<and> stats_only w w' \<and> exported (fst w') = exported (fst w)"
proof (cases "psch_shared_state (snd w)")
  case True
  obtain sh p where w: "w = (sh, p)" by (cases w)
  have i: "idle penv (sh, p)" and l: "lock sh = False" using assms by (simp_all add: w idle_def)
  let ?w = "(sh\<lparr>lock := True, last_success_ts := GetCurrentTimestamp penv, lock := False\<rparr>, p)"
  have "PschRecordExportSuccess penv w = Some ?w"
    using True LWLockAcquire_idle [OF i] LWLock_round [OF i] by (simp add: w PschRecordExportSuccess_def)
  moreover have "stats_only w ?w" using l by (simp add: w stats_only_def)
  ultimately show ?thesis by (intro exI [of _ ?w]) (simp add: w)
qed (auto simp: PschRecordExportSuccess_def)

subsection \<open>A sample row\<close>

lemma sample_idle [simp]: "idle sample_env (boot_world guc_init)"
  using boot_world_facts(1,3) sample_env_ok by (simp add: idle_def producer_ok_def env_ok_def)

definition sample_row :: stat_row where
  "sample_row = the (event_row zero_event)"

lemma zero_event_exportable [simp]: "exportable zero_event"
  by (simp add: exportable_def unix_us_def zero_event_def zero_fixed_def PschEvent.defs psch_fixed.defs
      kPostgresEpochOffsetUs_def event_shape_def)

lemma sample_row_ok [simp]: "row_ok sample_row"
  using event_row_exportable [OF zero_event_exportable] event_row_ok by (auto simp: sample_row_def)

subsection \<open>The contract of a backend\<close>

text \<open>
  What \<^verbatim>\<open>PschExportBatch\<close> relies on. \<open>begun x rs x'\<close>: in \<open>x'\<close> the batch that was begun in \<open>x\<close>
  has the rows \<open>rs\<close>. \<open>delivered\<close> is what the server has confirmed, \<open>image\<close> what it gets for a
  row. A batch leaves only statistics in the segment; a committed batch has delivered
  exactly its rows, in order; a failed one has delivered a prefix and counts as a failure.
  \<open>arrow_blocks\<close> are the Arrow blocks the server has confirmed, with their numbers of rows.
\<close>

locale stats_exporter =
  fixes vt :: "'x StatsExporter" and penv :: pg_env
    and inv :: "'x \<Rightarrow> bool" and begun :: "'x \<Rightarrow> stat_row list \<Rightarrow> 'x \<Rightarrow> bool"
    and delivered :: "'x \<Rightarrow> 'r list" and image :: "stat_row \<Rightarrow> 'r"
    and arrow_blocks :: "'x \<Rightarrow> (char list \<times> nat) list"
  assumes connect_law: "inv x \<Longrightarrow> vt_EstablishNewConnection vt x = (x', ok) \<Longrightarrow>
      inv x' \<and> vt_IsConnected vt x' = ok \<and> delivered x' = delivered x \<and> arrow_blocks x' = arrow_blocks x \<and>
      vt_NumConsecutiveFailures vt x' = vt_NumConsecutiveFailures vt x"
    and rows_law: "inv x \<Longrightarrow> vt_IsConnected vt x \<Longrightarrow> idle penv w \<Longrightarrow> list_all row_ok rs \<Longrightarrow>
      ok_res (\<lambda>(x', w'). inv x' \<and> stats_only w w' \<and>
                (\<exists>k\<le>length rs. delivered x' = delivered x @ map image (take k rs)))
        (\<lambda>(x', w') _. begun x rs x' \<and> stats_only w w')
        (run_calls throws vt 0 (export_calls rs) (x, w))"
    and commit_law: "begun x rs x' \<Longrightarrow> idle penv w \<Longrightarrow>
      \<exists>x'' w' ok. vt_CommitBatch vt (x', w) = Some ((x'', w'), ok) \<and> inv x'' \<and> stats_only w w' \<and>
        (ok \<longrightarrow> delivered x'' = delivered x @ map image rs \<and> vt_NumExported vt x'' = int (length rs) \<and>
               vt_NumConsecutiveFailures vt x'' = 0) \<and>
        (\<not> ok \<longrightarrow> (\<exists>k\<le>length rs. delivered x'' = delivered x @ map image (take k rs)) \<and>
               vt_NumExported vt x'' \<le> int (length rs) \<and>
               0 < vt_NumConsecutiveFailures vt x'')"
    and arrow_law: "inv x \<Longrightarrow> idle penv w \<Longrightarrow>
      \<exists>x' w' ok. vt_SendArrowBatch vt ipc_data n (x, w) = Some ((x', w'), ok) \<and> inv x' \<and> stats_only w w' \<and>
        delivered x' = delivered x \<and> vt_IsConnected vt x' = vt_IsConnected vt x \<and>
        arrow_blocks x' = arrow_blocks x @ (if ok then [(ipc_data, n)] else [])"
    and failures_law: "inv x \<Longrightarrow> 0 \<le> vt_NumConsecutiveFailures vt x"
    and reset_law: "inv x \<Longrightarrow> inv (vt_ResetFailures vt x) \<and> vt_NumConsecutiveFailures vt (vt_ResetFailures vt x) = 0 \<and>
      delivered (vt_ResetFailures vt x) = delivered x"

end
