(* ===== verification/Psch_Clickhouse.thy ===== *)
theory Psch_Clickhouse
  imports Psch_Exporter_Iface
begin

section \<open>The ClickHouse exporter (\<^verbatim>\<open>clickhouse_exporter.cc\<close>)\<close>

text \<open>
  \<^verbatim>\<open>ClickHouseExporter\<close>: its columns, its connection, and the commit of a batch. A pointer
  member is the truth value of its being non-NULL. What the network, OpenSSL and the
  clickhouse-c library answer is \<open>chc_env\<close>; where C++ code may run out of memory it also
  says so. Two members are not in the code: \<open>open_socks\<close> counts the sockets that the process
  holds, and \<open>acked\<close> lists the blocks whose INSERT the server has confirmed. The bounded
  \<^verbatim>\<open>connect\<close> of one address is a parameter. Log messages are left out.
\<close>

datatype ch_kind = FixedCol_u8 | FixedCol_i16 | FixedCol_i32 | FixedCol_i64 | FixedCol_u64
  | StringCol_string | StringCol_view

record ch_col =
  cname :: string
  ckind :: ch_kind
  ctype :: string
  cdata :: "col_value list"
  cbytes :: "char list"
  coffsets :: "nat list"

datatype ch_payload = FixedData "col_value list" | StringData "nat list" "char list"

type_synonym ch_block = "(string \<times> string \<times> ch_payload) list"

datatype chc_packet =
    CHC_PKT_DATA | CHC_PKT_END_OF_STREAM | CHC_PKT_EXCEPTION "char list option" | CHC_PKT_OTHER

record chc_env =
  conn_create_ok :: bool
  batch_create_ok :: bool
  tcp_addrs :: "(bool \<times> bool) list option"
  ssl_ctx_new_ok :: bool
  verify_paths_ok :: bool
  ssl_new_ok :: bool
  ssl_sni_ok :: bool
  ssl_host_ok :: bool
  ssl_fd_ok :: bool
  ssl_connect_ok :: bool
  client_init_ok :: bool
  builder_init :: "char list option"
  crunch_throws :: bool
  type_parse :: "string \<Rightarrow> char list option"
  append_column :: "string \<Rightarrow> ch_payload \<Rightarrow> char list option"
  insert_throws :: bool
  send_query :: "char list \<Rightarrow> char list option"
  recv_header :: "nat \<Rightarrow> char list + chc_packet"
  send_data :: "ch_block \<Rightarrow> char list option"
  send_end :: "char list option"
  recv_end :: "nat \<Rightarrow> char list + chc_packet"

record ch_state =
  conn_cxt :: bool
  batch_cxt :: bool
  client :: bool
  sock :: bool
  ssl_ctx :: bool
  ssl :: bool
  types :: "string set"
  columns :: "ch_col list"
  ch_failures :: int
  ch_exported :: int
  open_socks :: nat
  acked :: "(char list \<times> ch_block) list"

definition ch_new :: ch_state where
  "ch_new =
     \<lparr>conn_cxt = False, batch_cxt = False, client = False, sock = False, ssl_ctx = False, ssl = False,
      types = {}, columns = [], ch_failures = 0, ch_exported = 0, open_socks = 0, acked = []\<rparr>"

subsection \<open>Columns\<close>

text \<open>The factories: name, class and ClickHouse type of each column.\<close>

primrec ch_decl :: "stat_col \<Rightarrow> string \<times> ch_kind \<times> string" where
  "ch_decl (StatLCString nm) = (nm, StringCol_string, ''String'')"
| "ch_decl (StatLCUInt8 nm) = (nm, FixedCol_u8, ''UInt8'')"
| "ch_decl (StatLCInt16 nm) = (nm, FixedCol_i16, ''Int16'')"
| "ch_decl (StatLCInt32 nm) = (nm, FixedCol_i32, ''Int32'')"
| "ch_decl (StatHCString nm) = (nm, StringCol_view, ''String'')"
| "ch_decl (StatHCInt64 nm) = (nm, FixedCol_i64, ''Int64'')"
| "ch_decl (StatHCUInt64 nm) = (nm, FixedCol_u64, ''UInt64'')"
| "ch_decl (StatTimestamp nm) = (nm, FixedCol_i64, ''DateTime64(6)'')"
| "ch_decl DbNameColumn = (''db_name'', StringCol_string, ''String'')"
| "ch_decl DbUserColumn = (''db_user'', StringCol_string, ''String'')"
| "ch_decl DbDurationColumn = (''duration_us'', FixedCol_u64, ''UInt64'')"
| "ch_decl DbOperationColumn = (''db_operation'', StringCol_string, ''String'')"
| "ch_decl DbQueryTextColumn = (''query_text'', StringCol_view, ''String'')"

definition ch_Clear :: "ch_col \<Rightarrow> ch_col" where
  "ch_Clear c = c\<lparr>cdata := [], cbytes := [], coffsets := []\<rparr>"

fun find_col :: "string \<Rightarrow> ch_col list \<Rightarrow> nat option" where
  "find_col nm [] = None"
| "find_col nm (c # cs) = (if cname c = nm then Some 0 else map_option Suc (find_col nm cs))"

text \<open>A column that exists is used again; one of another class is a \<^verbatim>\<open>std::logic_error\<close>.\<close>

definition MakeCol :: "stat_col \<Rightarrow> ch_state \<Rightarrow> ch_state outcome" where
  "MakeCol c st =
     (case ch_decl c of (nm, k, ty) \<Rightarrow>
        case find_col nm (columns st) of
          Some i \<Rightarrow> if ckind (columns st ! i) = k then Ret st else Throw
        | None \<Rightarrow>
            Ret (st\<lparr>columns := columns st @
                   [\<lparr>cname = nm, ckind = k, ctype = ty, cdata = [], cbytes = [], coffsets = []\<rparr>]\<rparr>))"

definition ch_Append :: "ch_col \<Rightarrow> col_value \<Rightarrow> ch_col" where
  "ch_Append c v =
     (case v of
        VString s \<Rightarrow> c\<lparr>cbytes := cbytes c @ s, coffsets := coffsets c @ [length (cbytes c @ s)]\<rparr>
      | _ \<Rightarrow> c\<lparr>cdata := cdata c @ [v]\<rparr>)"

fun ch_call :: "exporter_call \<Rightarrow> ch_state \<times> world \<Rightarrow> (ch_state \<times> world, unit) pgres" where
  "ch_call BeginBatch (st, w) = pg_ret (st\<lparr>columns := map ch_Clear (columns st), ch_exported := 0\<rparr>, w) ()"
| "ch_call (MakeColumn c) (st, w) =
     (case MakeCol c st of Ret st \<Rightarrow> pg_ret (st, w) () | Throw \<Rightarrow> Some ((st, w), Throw))"
| "ch_call BeginRow (st, w) = pg_ret (st\<lparr>ch_exported := ch_exported st + 1\<rparr>, w) ()"
| "ch_call (AppendValue c v) (st, w) =
     (case find_col (fst (ch_decl c)) (columns st) of
        None \<Rightarrow> None
      | Some i \<Rightarrow> pg_ret (st\<lparr>columns := (columns st)[i := ch_Append (columns st ! i) v]\<rparr>, w) ())"

subsection \<open>The connection\<close>

text \<open>\<^verbatim>\<open>ResetConnectionContext\<close> drops the parsed types with the memory they are in.\<close>

definition CloseConnection :: "ch_state \<Rightarrow> ch_state" where
  "CloseConnection st =
     st\<lparr>client := False, ssl := False, ssl_ctx := False,
        open_socks := (if sock st then open_socks st - 1 else open_socks st),
        sock := False, types := {}\<rparr>"

definition EnsureMemoryContexts :: "chc_env \<Rightarrow> ch_state \<Rightarrow> ch_state \<times> bool" where
  "EnsureMemoryContexts env st =
     (if conn_cxt st \<and> batch_cxt st then (st, True)
      else if (conn_cxt st \<or> conn_create_ok env) \<and> (batch_cxt st \<or> batch_create_ok env)
      then (st\<lparr>conn_cxt := True, batch_cxt := True\<rparr>, True)
      else (st\<lparr>conn_cxt := False, batch_cxt := False\<rparr>, False))"

text \<open>The loop over the addresses: whether a socket is made, and whether it connects.\<close>

fun tcp_try :: "(bool \<times> bool) list \<Rightarrow> ch_state \<Rightarrow> ch_state \<times> bool" where
  "tcp_try [] st = (st, False)"
| "tcp_try ((made, connects) # addrs) st =
     (if \<not> made then tcp_try addrs st
      else
        let st = st\<lparr>open_socks := open_socks st + 1\<rparr>
        in if connects then (st, True)
           else tcp_try addrs (st\<lparr>open_socks := open_socks st - 1\<rparr>))"

definition TcpConnect :: "chc_env \<Rightarrow> ch_state \<Rightarrow> ch_state \<times> bool" where
  "TcpConnect env st =
     (case tcp_addrs env of
        None \<Rightarrow> (st, False)
      | Some addrs \<Rightarrow>
          (case tcp_try addrs st of
             (st, False) \<Rightarrow> (st, False)
           | (st, True) \<Rightarrow> (st\<lparr>sock := True\<rparr>, True)))"

definition TlsConnect :: "guc \<Rightarrow> chc_env \<Rightarrow> ch_state \<Rightarrow> ch_state \<times> bool" where
  "TlsConnect g env st =
     (if \<not> ssl_ctx_new_ok env then (st\<lparr>ssl_ctx := False\<rparr>, False)
      else
        let st = st\<lparr>ssl_ctx := True\<rparr>
        in if \<not> psch_clickhouse_skip_tls_verify g \<and> \<not> verify_paths_ok env then (st, False)
           else if \<not> ssl_new_ok env then (st\<lparr>ssl := False\<rparr>, False)
           else
             let st = st\<lparr>ssl := True\<rparr>
             in if \<not> ssl_sni_ok env then (st, False)
                else if \<not> psch_clickhouse_skip_tls_verify g \<and> \<not> ssl_host_ok env then (st, False)
                else if \<not> ssl_fd_ok env then (st, False)
                else (st, ssl_connect_ok env))"

definition ch_EstablishNewConnection :: "guc \<Rightarrow> chc_env \<Rightarrow> ch_state \<Rightarrow> ch_state \<times> bool" where
  "ch_EstablishNewConnection g env st =
     (case EnsureMemoryContexts env st of
        (st, False) \<Rightarrow> (st, False)
      | (st, True) \<Rightarrow>
          (case TcpConnect env (CloseConnection st) of
             (st, False) \<Rightarrow> (st, False)
           | (st, True) \<Rightarrow>
               (case (if psch_clickhouse_use_tls g then TlsConnect g env st else (st, True)) of
                  (st, False) \<Rightarrow> (CloseConnection st, False)
                | (st, True) \<Rightarrow>
                    if client_init_ok env then (st\<lparr>client := True\<rparr>, True)
                    else (CloseConnection st, False))))"

subsection \<open>Committing a batch\<close>

definition ch_RecordFailure ::
    "pg_env \<Rightarrow> char list \<Rightarrow> bool \<Rightarrow> ch_state \<times> world \<Rightarrow> ((ch_state \<times> world) \<times> bool) option" where
  "ch_RecordFailure penv msg close_conn sw =
     (case PschRecordExportFailure penv (Some msg) (snd sw) of
        None \<Rightarrow> None
      | Some w \<Rightarrow>
          let st = (fst sw)\<lparr>ch_failures := ch_failures (fst sw) + 1\<rparr>
          in Some ((if close_conn then CloseConnection st else st, w), False))"

text \<open>\<^verbatim>\<open>err.msg[0] ? err.msg : fallback\<close>.\<close>

definition msg_or :: "char list \<Rightarrow> char list \<Rightarrow> char list" where
  "msg_or m fallback = (if m = [] then fallback else m)"

text \<open>\<^verbatim>\<open>AppendFixed\<close> and \<^verbatim>\<open>AppendString\<close>: the first error stays, later columns are skipped.\<close>

definition AppendFixed ::
    "chc_env \<Rightarrow> ch_col \<Rightarrow> string set \<times> ch_block \<times> char list option \<Rightarrow> string set \<times> ch_block \<times> char list option"
  where
  "AppendFixed env c s =
     (case s of
        (tys, bb, Some e) \<Rightarrow> (tys, bb, Some e)
      | (tys, bb, None) \<Rightarrow>
          (case (if ctype c \<in> tys then None else type_parse env (ctype c)) of
             Some e \<Rightarrow> (tys, bb, Some e)
           | None \<Rightarrow>
               (case append_column env (cname c) (FixedData (cdata c)) of
                  Some e \<Rightarrow> (insert (ctype c) tys, bb, Some e)
                | None \<Rightarrow> (insert (ctype c) tys, bb @ [(cname c, ctype c, FixedData (cdata c))], None))))"

definition AppendString ::
    "chc_env \<Rightarrow> ch_col \<Rightarrow> string set \<times> ch_block \<times> char list option \<Rightarrow> string set \<times> ch_block \<times> char list option"
  where
  "AppendString env c s =
     (case s of
        (tys, bb, Some e) \<Rightarrow> (tys, bb, Some e)
      | (tys, bb, None) \<Rightarrow>
          (case append_column env (cname c) (StringData (coffsets c) (cbytes c)) of
             Some e \<Rightarrow> (tys, bb, Some e)
           | None \<Rightarrow> (tys, bb @ [(cname c, ''String'', StringData (coffsets c) (cbytes c))], None)))"

definition Crunch ::
    "chc_env \<Rightarrow> ch_col \<Rightarrow> string set \<times> ch_block \<times> char list option \<Rightarrow> string set \<times> ch_block \<times> char list option"
  where
  "Crunch env c =
     (if ckind c \<in> {StringCol_string, StringCol_view} then AppendString env c else AppendFixed env c)"

fun join_names :: "string list \<Rightarrow> char list" where
  "join_names [] = []"
| "join_names [n] = n"
| "join_names (n # ns) = n @ '', '' @ join_names ns"

definition BuildInsertQuery :: "ch_state \<Rightarrow> char list" where
  "BuildInsertQuery st = ''INSERT INTO events_raw ('' @ join_names (map cname (columns st)) @ '') VALUES''"

definition kMaxRecvPackets :: nat where
  "kMaxRecvPackets = 4096"

text \<open>The loop of \<^verbatim>\<open>RecvUntil\<close> with \<open>n\<close> rounds left, at packet \<open>i\<close>: the error, if any.\<close>

fun recv_loop :: "(nat \<Rightarrow> char list + chc_packet) \<Rightarrow> chc_packet \<Rightarrow> nat \<Rightarrow> nat \<Rightarrow> char list option" where
  "recv_loop recv target 0 i = Some ''too many packets awaiting response''"
| "recv_loop recv target (Suc n) i =
     (case recv i of
        Inl m \<Rightarrow> Some (msg_or m ''recv_packet failed'')
      | Inr (CHC_PKT_EXCEPTION (Some m)) \<Rightarrow> Some m
      | Inr (CHC_PKT_EXCEPTION None) \<Rightarrow> Some ''server exception''
      | Inr k \<Rightarrow> if k = target then None else recv_loop recv target n (i + 1))"

definition RecvUntil :: "(nat \<Rightarrow> char list + chc_packet) \<Rightarrow> chc_packet \<Rightarrow> char list option" where
  "RecvUntil recv target = recv_loop recv target kMaxRecvPackets 0"

definition SendInsert :: "chc_env \<Rightarrow> ch_state \<Rightarrow> ch_block \<Rightarrow> char list option" where
  "SendInsert env st bb =
     (case send_query env (BuildInsertQuery st) of
        Some m \<Rightarrow> Some (msg_or m ''send_query failed'')
      | None \<Rightarrow>
          (case RecvUntil (recv_header env) CHC_PKT_DATA of
             Some m \<Rightarrow> Some m
           | None \<Rightarrow>
               (case send_data env bb of
                  Some m \<Rightarrow> Some (msg_or m ''send_data failed'')
                | None \<Rightarrow>
                    (case send_end env of
                       Some m \<Rightarrow> Some (msg_or m ''send_data terminator failed'')
                     | None \<Rightarrow> RecvUntil (recv_end env) CHC_PKT_END_OF_STREAM))))"

definition ch_CommitBatch ::
    "guc \<Rightarrow> chc_env \<Rightarrow> pg_env \<Rightarrow> ch_state \<times> world \<Rightarrow> ((ch_state \<times> world) \<times> bool) option" where
  "ch_CommitBatch g env penv sw =
     (if \<not> (conn_cxt (fst sw) \<and> batch_cxt (fst sw))
      then ch_RecordFailure penv ''allocator not initialized'' False sw
      else
        (case builder_init env of
           Some m \<Rightarrow> ch_RecordFailure penv (msg_or m ''OOM'') False sw
         | None \<Rightarrow>
             (case (if client (fst sw) then (fst sw, True) else ch_EstablishNewConnection g env (fst sw)) of
                (st, False) \<Rightarrow> ch_RecordFailure penv ''connection not established'' False (st, snd sw)
              | (st, True) \<Rightarrow>
                  if crunch_throws env then ch_RecordFailure penv ''out of memory'' True (st, snd sw)
                  else
                    (case fold (Crunch env) (columns st) (types st, [], None) of
                       (tys, bb, Some m) \<Rightarrow>
                         ch_RecordFailure penv (msg_or m ''block build failed'') False
                           (st\<lparr>types := tys\<rparr>, snd sw)
                     | (tys, bb, None) \<Rightarrow>
                         let st = st\<lparr>types := tys\<rparr>
                         in if insert_throws env then ch_RecordFailure penv ''out of memory'' True (st, snd sw)
                            else
                              (case SendInsert env st bb of
                                 Some m \<Rightarrow> ch_RecordFailure penv m True (st, snd sw)
                               | None \<Rightarrow>
                                   Some ((st\<lparr>ch_failures := 0,
                                             acked := acked st @ [(BuildInsertQuery st, bb)]\<rparr>, snd sw), True))))))"

definition ch_SendArrowBatch ::
    "char list \<Rightarrow> nat \<Rightarrow> ch_state \<times> world \<Rightarrow> ((ch_state \<times> world) \<times> bool) option" where
  "ch_SendArrowBatch ipc_data n sw = Some (sw, False)"

definition MakeClickHouseExporter :: "guc \<Rightarrow> chc_env \<Rightarrow> pg_env \<Rightarrow> ch_state StatsExporter" where
  "MakeClickHouseExporter g env penv =
     \<lparr>vt_call = ch_call, vt_CommitBatch = ch_CommitBatch g env penv,
      vt_EstablishNewConnection = ch_EstablishNewConnection g env, vt_IsConnected = client,
      vt_NumConsecutiveFailures = ch_failures, vt_ResetFailures = (\<lambda>st. st\<lparr>ch_failures := 0\<rparr>),
      vt_NumExported = ch_exported, vt_SendArrowBatch = ch_SendArrowBatch\<rparr>"

subsection \<open>Invariant\<close>

definition col_sig :: "ch_col \<Rightarrow> string \<times> ch_kind \<times> string" where
  "col_sig c = (cname c, ckind c, ctype c)"

abbreviation ch_decls :: "(string \<times> ch_kind \<times> string) list" where
  "ch_decls \<equiv> map ch_decl stat_columns"

text \<open>
  The connection is either complete or not there: a client has a socket and its memory, no
  socket is open without a client, and TLS state hangs on the socket. The columns are
  those of the table, in its order, as far as they have been made.
\<close>

definition ch_inv :: "ch_state \<Rightarrow> bool" where
  "ch_inv st \<longleftrightarrow>
     client st = sock st \<and> open_socks st = (if sock st then 1 else 0) \<and>
     (ssl st \<longrightarrow> ssl_ctx st) \<and> (ssl_ctx st \<longrightarrow> sock st) \<and>
     (client st \<longrightarrow> conn_cxt st \<and> batch_cxt st) \<and> (types st \<noteq> {} \<longrightarrow> client st) \<and>
     0 \<le> ch_failures st \<and> (\<exists>n. map col_sig (columns st) = take n ch_decls)"

definition ch_closed :: "ch_state \<Rightarrow> bool" where
  "ch_closed st \<longleftrightarrow>
     \<not> client st \<and> \<not> sock st \<and> \<not> ssl st \<and> \<not> ssl_ctx st \<and> types st = {} \<and> open_socks st = 0"

text \<open>Only the connection differs.\<close>

definition conn_only :: "ch_state \<Rightarrow> ch_state \<Rightarrow> bool" where
  "conn_only st st' \<longleftrightarrow>
     columns st' = columns st \<and> ch_failures st' = ch_failures st \<and> ch_exported st' = ch_exported st \<and>
     acked st' = acked st"

lemma conn_only_trans: "conn_only a b \<Longrightarrow> conn_only b c \<Longrightarrow> conn_only a c"
  by (simp add: conn_only_def)

lemma ch_new_inv [simp]: "ch_inv ch_new"
  by (auto simp: ch_inv_def ch_new_def intro: exI [of _ 0])

lemma CloseConnection_simps [simp]:
  "conn_only st (CloseConnection st)"
  "conn_cxt (CloseConnection st) = conn_cxt st" "batch_cxt (CloseConnection st) = batch_cxt st"
  by (simp_all add: CloseConnection_def conn_only_def)

lemma CloseConnection_closed:
  "open_socks st = (if sock st then 1 else 0) \<Longrightarrow> ch_closed (CloseConnection st)"
  by (simp add: CloseConnection_def ch_closed_def)

lemma ch_inv_closed:
  "ch_closed st' \<Longrightarrow> conn_only st st' \<Longrightarrow> ch_inv st \<Longrightarrow> ch_inv st'"
  by (simp add: ch_inv_def ch_closed_def conn_only_def)

lemma tcp_try_spec:
  "tcp_try addrs st = (st', ok) \<Longrightarrow> st' = st\<lparr>open_socks := open_socks st + (if ok then 1 else 0)\<rparr>"
  by (induction addrs st rule: tcp_try.induct) (auto simp: Let_def split: if_splits)

lemma TcpConnect_spec:
  assumes "TcpConnect env st = (st', ok)" and "ch_closed st"
  shows "conn_only st st' \<and> conn_cxt st' = conn_cxt st \<and> batch_cxt st' = batch_cxt st \<and>
     (if ok then sock st' \<and> open_socks st' = 1 \<and> \<not> client st' \<and> \<not> ssl st' \<and> \<not> ssl_ctx st' \<and> types st' = {}
      else ch_closed st')"
proof (cases "tcp_addrs env")
  case (Some addrs)
  obtain st1 ok1 where t: "tcp_try addrs st = (st1, ok1)" by (cases "tcp_try addrs st")
  show ?thesis
    using tcp_try_spec [OF t] assms by (cases ok1) (auto simp: TcpConnect_def Some t conn_only_def ch_closed_def)
qed (use assms in \<open>simp add: TcpConnect_def conn_only_def\<close>)

lemma TlsConnect_spec:
  assumes "TlsConnect g env st = (st', ok)" and "\<not> ssl st" and "\<not> ssl_ctx st"
  shows "sock st' = sock st \<and> open_socks st' = open_socks st \<and> conn_cxt st' = conn_cxt st \<and>
     batch_cxt st' = batch_cxt st \<and> types st' = types st \<and> client st' = client st \<and> conn_only st st' \<and>
     (ssl st' \<longrightarrow> ssl_ctx st')"
  using assms by (auto simp: TlsConnect_def Let_def conn_only_def split: if_splits)

lemma EnsureMemoryContexts_spec:
  "EnsureMemoryContexts env st = (st', ok) \<Longrightarrow>
     st' = st\<lparr>conn_cxt := ok, batch_cxt := ok\<rparr> \<and> (conn_cxt st \<and> batch_cxt st \<longrightarrow> ok)"
  by (auto simp: EnsureMemoryContexts_def split: if_splits)

lemma EstablishNewConnection_spec:
  assumes "ch_inv st" and "ch_EstablishNewConnection g env st = (st', ok)"
  shows "ch_inv st' \<and> client st' = ok \<and> conn_only st st' \<and> (\<not> ok \<longrightarrow> ch_closed st')"
proof -
  obtain s1 b1 where e: "EnsureMemoryContexts env st = (s1, b1)" by (cases "EnsureMemoryContexts env st")
  have s1: "s1 = st\<lparr>conn_cxt := b1, batch_cxt := b1\<rparr>" "conn_cxt st \<and> batch_cxt st \<longrightarrow> b1"
    using EnsureMemoryContexts_spec [OF e] by simp_all
  have c1: "conn_only st s1" by (simp add: s1(1) conn_only_def)
  show ?thesis
  proof (cases b1)
    case False
    then have "\<not> client st" using s1(2) assms(1) by (auto simp: ch_inv_def)
    then have "ch_closed s1" using assms(1) by (auto simp: s1(1) ch_inv_def ch_closed_def)
    with False show ?thesis
      using assms(2) ch_inv_closed [OF _ c1 assms(1)] c1 by (auto simp: ch_EstablishNewConnection_def e ch_closed_def)
  next
    case True
    let ?s = "CloseConnection s1"
    have cl: "ch_closed ?s" using assms(1) by (intro CloseConnection_closed) (simp add: s1(1) ch_inv_def)
    obtain s2 b2 where t: "TcpConnect env ?s = (s2, b2)" by (cases "TcpConnect env ?s")
    note T = TcpConnect_spec [OF t cl]
    have c2: "conn_only st s2" using c1 T conn_only_trans CloseConnection_simps(1) by blast
    show ?thesis
    proof (cases b2)
      case False
      then show ?thesis
        using T assms True c2 ch_inv_closed [OF _ c2 assms(1)]
        by (auto simp: ch_EstablishNewConnection_def e t ch_closed_def)
    next
      case b2: True
      obtain s3 b3 where l: "(if psch_clickhouse_use_tls g then TlsConnect g env s2 else (s2, True)) = (s3, b3)"
        by (cases "if psch_clickhouse_use_tls g then TlsConnect g env s2 else (s2, True)")
      have f3: "sock s3 = sock s2" "open_socks s3 = open_socks s2" "conn_cxt s3 = conn_cxt s2"
          "batch_cxt s3 = batch_cxt s2" "types s3 = types s2" "client s3 = client s2" "conn_only s2 s3"
          "ssl s3 \<longrightarrow> ssl_ctx s3"
        using l TlsConnect_spec [of g env s2 s3 b3] T b2 by (auto simp: conn_only_def split: if_splits)
      have cc: "conn_cxt s2" "batch_cxt s2" using T True by (simp_all add: s1(1))
      have c3: "conn_only st s3" "conn_only st (CloseConnection s3)"
        using c2 f3(7) conn_only_trans CloseConnection_simps(1) by blast+
      have cl3: "ch_closed (CloseConnection s3)"
        using T b2 f3 by (intro CloseConnection_closed) simp
      consider "\<not> b3 \<or> \<not> client_init_ok env" "st' = CloseConnection s3" "\<not> ok"
        | "b3" "st' = s3\<lparr>client := True\<rparr>" "ok"
        using assms(2) True b2 by (auto simp: ch_EstablishNewConnection_def e t l split: if_splits bool.splits)
      then show ?thesis
      proof cases
        case 1
        then show ?thesis using cl3 c3 ch_inv_closed [OF cl3 c3(2) assms(1)] by (simp add: ch_closed_def)
      next
        case 2
        then show ?thesis
          using T b2 f3 cc c3(1) assms(1) by (auto simp: ch_inv_def conn_only_def)
      qed
    qed
  qed
qed

end
