(* ===== verification/Psch_Clickhouse_Batch.thy ===== *)
theory Psch_Clickhouse_Batch
  imports Psch_Clickhouse
begin

section \<open>Batches of the ClickHouse exporter\<close>

text \<open>
  What the columns hold while a batch is built, what the committed block stands for, and the
  contract of a backend for \<^verbatim>\<open>ClickHouseExporter\<close>.
\<close>

subsection \<open>Columns and rows\<close>

fun offs :: "nat \<Rightarrow> char list list \<Rightarrow> nat list" where
  "offs p [] = []"
| "offs p (s # ss) = (p + length s) # offs (p + length s) ss"

fun slices :: "nat \<Rightarrow> nat list \<Rightarrow> char list \<Rightarrow> char list list" where
  "slices p [] b = []"
| "slices p (q # qs) b = take (q - p) (drop p b) # slices q qs b"

lemma offs_snoc: "offs p (ss @ [s]) = offs p ss @ [p + length (concat ss) + length s]"
  by (induction ss arbitrary: p) (simp_all add: add.assoc)

lemma slices_offs: "length pre = p \<Longrightarrow> slices p (offs p ss) (pre @ concat ss) = ss"
proof (induction ss arbitrary: p pre)
  case (Cons s ss)
  then show ?case using Cons.IH [of "pre @ s" "p + length s"] by simp
qed simp

text \<open>The values that a column of a block stands for, and the rows of a block.\<close>

fun decode :: "ch_payload \<Rightarrow> col_value list" where
  "decode (FixedData vs) = vs"
| "decode (StringData qs b) = map VString (slices 0 qs b)"

definition block_rows :: "ch_block \<Rightarrow> (string \<times> col_value) list list" where
  "block_rows bb =
     map (\<lambda>i. map (\<lambda>(nm, ty, pl). (nm, decode pl ! i)) bb) [0..<length (decode (snd (snd (hd bb))))]"

definition ch_image :: "stat_row \<Rightarrow> (string \<times> col_value) list" where
  "ch_image r = map (\<lambda>(c, v). (fst (ch_decl c), v)) r"

definition ch_delivered :: "ch_state \<Rightarrow> (string \<times> col_value) list list" where
  "ch_delivered st = concat (map (block_rows \<circ> snd) (acked st))"

abbreviation str_kind :: "ch_kind \<Rightarrow> bool" where
  "str_kind k \<equiv> k \<in> {StringCol_string, StringCol_view}"

definition payload :: "ch_col \<Rightarrow> ch_payload" where
  "payload c = (if str_kind (ckind c) then StringData (coffsets c) (cbytes c) else FixedData (cdata c))"

text \<open>The column has the values \<open>vs\<close>.\<close>

definition col_holds :: "ch_col \<Rightarrow> col_value list \<Rightarrow> bool" where
  "col_holds c vs \<longleftrightarrow>
     (if str_kind (ckind c) then \<exists>ss. vs = map VString ss \<and> cbytes c = concat ss \<and> coffsets c = offs 0 ss
      else cdata c = vs)"

lemma col_holds_decode: "col_holds c vs \<Longrightarrow> decode (payload c) = vs"
  using slices_offs [of "[]" 0] by (auto simp: col_holds_def payload_def)

lemma col_holds_Clear [simp]: "col_holds (ch_Clear c) []"
  by (simp add: col_holds_def ch_Clear_def)

lemma col_sig_Clear [simp]: "col_sig (ch_Clear c) = col_sig c"
  by (simp add: col_sig_def ch_Clear_def)

lemma col_sig_Append [simp]: "col_sig (ch_Append c v) = col_sig c"
  by (simp add: col_sig_def ch_Append_def split: col_value.split)

lemma str_kind_fits: "value_fits c v \<Longrightarrow> str_kind (fst (snd (ch_decl c))) = is_str v"
  by (cases c; cases v) simp_all

lemma col_holds_Append:
  assumes "col_holds col vs" and "col_sig col = ch_decl c" and "value_fits c v"
  shows "col_holds (ch_Append col v) (vs @ [v])"
proof -
  have k: "ckind col = fst (snd (ch_decl c))" using arg_cong [OF assms(2), of "\<lambda>x. fst (snd x)"] by (simp add: col_sig_def)
  show ?thesis
  proof (cases v)
    case (VString s)
    then have "str_kind (ckind col)" using str_kind_fits [OF assms(3)] k by simp
    moreover from this obtain ss where "vs = map VString ss" "cbytes col = concat ss" "coffsets col = offs 0 ss"
      using assms(1) by (auto simp: col_holds_def)
    ultimately show ?thesis
      by (simp add: col_holds_def ch_Append_def VString) (intro exI [of _ "ss @ [s]"], simp add: offs_snoc)
  qed (use assms(1) str_kind_fits [OF assms(3)] k in \<open>simp_all add: col_holds_def ch_Append_def\<close>)
qed

text \<open>The columns have been made, and the column of \<open>c\<close> has the values \<open>f c\<close>.\<close>

definition cols_hold :: "ch_col list \<Rightarrow> (stat_col \<Rightarrow> col_value list) \<Rightarrow> bool" where
  "cols_hold cols f \<longleftrightarrow>
     map col_sig cols = ch_decls \<and> (\<forall>j<length cols. col_holds (cols ! j) (f (stat_columns ! j)))"

lemma distinct_ch_names: "distinct (map fst ch_decls)"
  by code_simp

lemma map_cname: "map cname cols = map fst (map col_sig cols)"
  by (simp add: col_sig_def)

lemma find_col_None: "find_col nm cols = None \<longleftrightarrow> nm \<notin> set (map cname cols)"
  by (induction cols) auto

lemma find_col_nth:
  "distinct (map cname cols) \<Longrightarrow> i < length cols \<Longrightarrow> find_col (cname (cols ! i)) cols = Some i"
proof (induction cols arbitrary: i)
  case (Cons c cols)
  then show ?case by (cases i) auto
qed simp

lemma find_col_decl:
  assumes "map col_sig cols = take n ch_decls" and "i < n" and "i < length stat_columns"
  shows "find_col (fst (ch_decl (stat_columns ! i))) cols = Some i" "col_sig (cols ! i) = ch_decl (stat_columns ! i)"
    "i < length cols"
proof -
  have len: "length cols = min n (length stat_columns)"
    using arg_cong [OF assms(1), of length] by (simp add: min.commute)
  then show i: "i < length cols" using assms(2,3) by simp
  have "map col_sig cols ! i = take n ch_decls ! i" using assms(1) by simp
  then show sig: "col_sig (cols ! i) = ch_decl (stat_columns ! i)" using i assms(2,3) by simp
  have "map cname cols = take n (map fst ch_decls)" unfolding map_cname assms(1) by (simp add: take_map)
  then have d: "distinct (map cname cols)" using distinct_take [OF distinct_ch_names, of n] by (simp only:)
  have "cname (cols ! i) = fst (ch_decl (stat_columns ! i))"
    using arg_cong [OF sig, of fst] by (simp add: col_sig_def)
  then show "find_col (fst (ch_decl (stat_columns ! i))) cols = Some i" using find_col_nth [OF d i] by simp
qed

lemma nth_notin_take: "distinct xs \<Longrightarrow> i < length xs \<Longrightarrow> xs ! i \<notin> set (take i xs)"
proof (induction xs arbitrary: i)
  case (Cons x xs)
  then show ?case by (cases i) auto
qed simp

lemma find_col_fresh:
  assumes "map col_sig cols = take i ch_decls" and "i < length stat_columns"
  shows "find_col (fst (ch_decl (stat_columns ! i))) cols = None"
proof -
  have "fst (ch_decl (stat_columns ! i)) = map fst ch_decls ! i" using assms(2) by simp
  moreover have "map fst ch_decls ! i \<notin> set (take i (map fst ch_decls))"
    by (rule nth_notin_take [OF distinct_ch_names]) (use assms(2) in simp)
  ultimately show ?thesis
    unfolding find_col_None map_cname assms(1) by (simp add: take_map)
qed

lemma cols_hold_Append:
  assumes "cols_hold cols f" and "c \<in> set stat_columns" and "value_fits c v"
  obtains i where "find_col (fst (ch_decl c)) cols = Some i"
    "cols_hold (cols[i := ch_Append (cols ! i) v]) (f(c := f c @ [v]))"
proof -
  obtain i where i: "i < length stat_columns" "c = stat_columns ! i" using assms(2) by (auto simp: in_set_conv_nth)
  have sig: "map col_sig cols = take (length stat_columns) ch_decls" using assms(1) by (simp add: cols_hold_def)
  note F = find_col_decl [OF sig i(1) i(1)]
  have len: "length cols = length stat_columns" using arg_cong [OF sig, of length] by simp
  have "map col_sig (cols[i := ch_Append (cols ! i) v]) = map col_sig cols"
    using F(3) by (simp add: map_update list_update_same_conv)
  then have "map col_sig (cols[i := ch_Append (cols ! i) v]) = ch_decls" using sig by simp
  moreover have "col_holds (cols[i := ch_Append (cols ! i) v] ! j) ((f(c := f c @ [v])) (stat_columns ! j))"
    if j: "j < length cols" for j
  proof (cases "j = i")
    case True
    then show ?thesis
      using assms(1) F(2,3) i j col_holds_Append [of "cols ! i" "f c" c v] assms(3) by (simp add: cols_hold_def)
  next
    case False
    then have "stat_columns ! j \<noteq> c"
      using i j len distinct_stat_columns by (simp add: nth_eq_iff_index_eq)
    with False show ?thesis using assms(1) j by (simp add: cols_hold_def)
  qed
  ultimately have "cols_hold (cols[i := ch_Append (cols ! i) v]) (f(c := f c @ [v]))"
    by (simp add: cols_hold_def)
  then show ?thesis using that F(1) i(2) by blast
qed

subsection \<open>Building a batch\<close>

text \<open>Only the columns and the row count differ.\<close>

definition batch_only :: "ch_state \<times> world \<Rightarrow> ch_state \<times> world \<Rightarrow> bool" where
  "batch_only s s' \<longleftrightarrow>
     snd s' = snd s \<and> (fst s')\<lparr>columns := [], ch_exported := 0\<rparr> = (fst s)\<lparr>columns := [], ch_exported := 0\<rparr>"

definition cols_made :: "ch_state \<times> world \<Rightarrow> bool" where
  "cols_made s \<longleftrightarrow> (\<exists>n. map col_sig (columns (fst s)) = take n ch_decls)"

definition ch_partial :: "ch_state \<times> world \<Rightarrow> ch_state \<times> world \<Rightarrow> bool" where
  "ch_partial s s' \<longleftrightarrow> batch_only s s' \<and> cols_made s'"

text \<open>The rows \<open>rs\<close> have been appended.\<close>

definition rows_held :: "ch_state \<times> world \<Rightarrow> int \<Rightarrow> (stat_col \<Rightarrow> col_value list) \<Rightarrow> ch_state \<times> world \<Rightarrow> bool" where
  "rows_held s n f s' \<longleftrightarrow> batch_only s s' \<and> ch_exported (fst s') = n \<and> cols_hold (columns (fst s')) f"

lemma batch_only_upd:
  "batch_only s (st, w) \<Longrightarrow> batch_only s (st\<lparr>columns := cols\<rparr>, w)"
  "batch_only s (st, w) \<Longrightarrow> batch_only s (st\<lparr>ch_exported := n\<rparr>, w)"
  by (simp_all add: batch_only_def)

lemma rows_held_partial: "rows_held s n f s' \<Longrightarrow> ch_partial s s'"
  by (auto simp: rows_held_def ch_partial_def cols_made_def cols_hold_def intro!: exI [of _ "length stat_columns"])

lemma append_values:
  assumes "rows_held s n f s'" and "\<forall>(c, v)\<in>set r. c \<in> set stat_columns \<and> value_fits c v"
    and "distinct (map fst r)" and "vt_call vt = ch_call"
  shows "ok_res (ch_partial s)
     (\<lambda>s'' _. rows_held s n (\<lambda>c. f c @ (case map_of r c of None \<Rightarrow> [] | Some v \<Rightarrow> [v])) s'')
     (run_calls throws vt i (map (\<lambda>(c, v). AppendValue c v) r) s')"
  using assms(1-3)
proof (induction r arbitrary: f s' i)
  case (Cons cv r)
  obtain c v where cv: "cv = (c, v)" by (cases cv)
  obtain st w where s': "s' = (st, w)" by (cases s')
  have c: "c \<in> set stat_columns" "value_fits c v" using Cons.prems(2) by (auto simp: cv)
  have h: "cols_hold (columns st) f" using Cons.prems(1) by (simp add: rows_held_def s')
  obtain j where j: "find_col (fst (ch_decl c)) (columns st) = Some j"
    "cols_hold ((columns st)[j := ch_Append (columns st ! j) v]) (f(c := f c @ [v]))"
    using cols_hold_Append [OF h c] by blast
  let ?s = "(st\<lparr>columns := (columns st)[j := ch_Append (columns st ! j) v]\<rparr>, w)"
  have held: "rows_held s n (f(c := f c @ [v])) ?s"
    using Cons.prems(1) j(2) batch_only_upd(1) by (simp add: rows_held_def s')
  have "map_of r c = None" using Cons.prems(3) by (simp add: cv map_of_eq_None_iff)
  then have fe: "(\<lambda>d. (f(c := f c @ [v])) d @ (case map_of r d of None \<Rightarrow> [] | Some v \<Rightarrow> [v]))
      = (\<lambda>d. f d @ (case map_of (cv # r) d of None \<Rightarrow> [] | Some v \<Rightarrow> [v]))"
    by (auto simp: cv)
  have "ok_res (ch_partial s)
     (\<lambda>s'' _. rows_held s n (\<lambda>d. f d @ (case map_of (cv # r) d of None \<Rightarrow> [] | Some v \<Rightarrow> [v])) s'')
     (run_calls throws vt (i + 1) (map (\<lambda>(c, v). AppendValue c v) r) ?s)"
    using Cons.IH [OF held] Cons.prems(2,3) unfolding fe by simp
  then show ?case
    using rows_held_partial [OF Cons.prems(1)] j(1) assms(4) by (simp add: cv s')
qed simp

lemma cols_hold_cong:
  assumes "cols_hold cols f" and "\<And>c. c \<in> set stat_columns \<Longrightarrow> f' c = f c"
  shows "cols_hold cols f'"
proof -
  have "map col_sig cols = ch_decls" using assms(1) by (simp add: cols_hold_def)
  from arg_cong [OF this, of length] have "length cols = length stat_columns" by simp
  then show ?thesis using assms by (simp add: cols_hold_def)
qed

definition row_values :: "stat_row list \<Rightarrow> stat_col \<Rightarrow> col_value list" where
  "row_values rs c = map (\<lambda>r. the (map_of r c)) rs"

lemma row_okD:
  assumes "row_ok r"
  shows "\<forall>(c, v)\<in>set r. c \<in> set stat_columns \<and> value_fits c v" "distinct (map fst r)"
    "c \<in> set stat_columns \<Longrightarrow> map_of r c = Some (the (map_of r c))"
proof -
  have m: "map fst r = stat_columns" using assms by (simp add: row_ok_def)
  then show "distinct (map fst r)" by (simp only: distinct_stat_columns)
  show "\<forall>(c, v)\<in>set r. c \<in> set stat_columns \<and> value_fits c v"
    using assms by (auto simp: row_ok_def simp flip: m intro: rev_image_eqI)
  show "map_of r c = Some (the (map_of r c))" if "c \<in> set stat_columns"
    using that by (simp flip: m) (metis map_of_eq_None_iff option.collapse set_map)
qed

lemma append_row:
  assumes "rows_held s (int (length rs)) (row_values rs) s'" and "row_ok r" and "vt_call vt = ch_call"
  shows "ok_res (ch_partial s) (\<lambda>s'' _. rows_held s (int (length (rs @ [r]))) (row_values (rs @ [r])) s'')
     (run_calls throws vt i (row_calls r) s')"
proof -
  obtain st w where s': "s' = (st, w)" by (cases s')
  let ?s = "(st\<lparr>ch_exported := ch_exported st + 1\<rparr>, w)"
  have "rows_held s (int (length rs) + 1) (row_values rs) ?s"
    using assms(1) batch_only_upd(2) by (simp add: rows_held_def s')
  from append_values [OF this row_okD(1,2) [OF assms(2)] assms(3)]
  have "ok_res (ch_partial s) (\<lambda>s'' _. rows_held s (int (length (rs @ [r]))) (row_values (rs @ [r])) s'')
     (run_calls throws vt (i + 1) (map (\<lambda>(c, v). AppendValue c v) r) ?s)"
  proof (rule ok_weaken)
    fix s'' and x :: unit
    assume "rows_held s (int (length rs) + 1)
        (\<lambda>c. row_values rs c @ (case map_of r c of None \<Rightarrow> [] | Some v \<Rightarrow> [v])) s''"
    moreover have "row_values (rs @ [r]) c = row_values rs c @ (case map_of r c of None \<Rightarrow> [] | Some v \<Rightarrow> [v])"
      if "c \<in> set stat_columns" for c
      using row_okD(3) [OF assms(2) that] by (cases "map_of r c") (simp_all add: row_values_def)
    ultimately show "rows_held s (int (length (rs @ [r]))) (row_values (rs @ [r])) s''"
      by (auto simp: rows_held_def add.commute intro: cols_hold_cong)
  qed
  then show ?thesis
    using rows_held_partial [OF assms(1)] assms(3) by (simp add: row_calls_def s')
qed

lemma append_rows:
  assumes "rows_held s (int (length rs0)) (row_values rs0) s'" and "list_all row_ok rs" and "vt_call vt = ch_call"
  shows "ok_res (ch_partial s) (\<lambda>s'' _. rows_held s (int (length (rs0 @ rs))) (row_values (rs0 @ rs)) s'')
     (run_calls throws vt i (concat (map row_calls rs)) s')"
  using assms(1,2)
proof (induction rs arbitrary: rs0 s' i)
  case (Cons r rs)
  have r: "row_ok r" "list_all row_ok rs" using Cons.prems(2) by simp_all
  show ?case
    using ok_bind [OF append_row [OF Cons.prems(1) r(1) assms(3), of throws i],
        of "\<lambda>s'' _. rows_held s (int (length (rs0 @ r # rs))) (row_values (rs0 @ r # rs)) s''"
           "\<lambda>s _. run_calls throws vt (i + length (row_calls r)) (concat (map row_calls rs)) s"]
      Cons.IH [of "rs0 @ [r]", OF _ r(2)]
    by (simp add: run_calls_append)
qed simp

subsection \<open>Making the columns\<close>

definition cols_empty :: "nat \<Rightarrow> ch_col list \<Rightarrow> bool" where
  "cols_empty n cols \<longleftrightarrow>
     map col_sig cols = take n ch_decls \<and> (\<forall>c\<in>set cols. col_holds c [])"

lemma MakeCol_spec:
  assumes "cols_empty n (columns st)" and "i < length stat_columns" and "i \<le> n"
  shows "\<exists>cols. MakeCol (stat_columns ! i) st = Ret (st\<lparr>columns := cols\<rparr>) \<and> cols_empty (max n (Suc i)) cols"
proof -
  obtain nm k ty where d: "ch_decl (stat_columns ! i) = (nm, k, ty)" by (cases "ch_decl (stat_columns ! i)")
  have sig: "map col_sig (columns st) = take n ch_decls" using assms(1) by (simp add: cols_empty_def)
  show ?thesis
  proof (cases "i < n")
    case True
    note F = find_col_decl [OF sig True assms(2)]
    have "ckind (columns st ! i) = k" using arg_cong [OF F(2), of "\<lambda>x. fst (snd x)"] d by (simp add: col_sig_def)
    then have "MakeCol (stat_columns ! i) st = Ret st" using F(1) d by (simp add: MakeCol_def)
    then show ?thesis using assms(1) True by (intro exI [of _ "columns st"]) (simp add: max_absorb1 Suc_leI)
  next
    case False
    then have n: "n = i" using assms(3) by simp
    let ?c = "\<lparr>cname = nm, ckind = k, ctype = ty, cdata = [], cbytes = [], coffsets = []\<rparr>"
    have "find_col nm (columns st) = None" using find_col_fresh [OF _ assms(2)] sig n d by simp
    then have "MakeCol (stat_columns ! i) st = Ret (st\<lparr>columns := columns st @ [?c]\<rparr>)"
      using d by (simp add: MakeCol_def)
    moreover have "map col_sig (columns st @ [?c]) = take (Suc i) ch_decls"
      using sig n assms(2) d by (simp add: take_Suc_conv_app_nth col_sig_def)
    moreover have "col_holds ?c []" by (simp add: col_holds_def)
    ultimately show ?thesis
      using assms(1) n by (intro exI [of _ "columns st @ [?c]"]) (simp add: cols_empty_def)
  qed
qed

lemma make_columns:
  assumes "batch_only s (st, w)" and "cols_empty n (columns st)" and "i \<le> n" and "i \<le> length stat_columns"
    and "vt_call vt = ch_call" and "\<And>j s'. throws j \<Longrightarrow> ch_partial s s' \<Longrightarrow> T s'"
  shows "ok_res T
     (\<lambda>s' _. batch_only s s' \<and> ch_exported (fst s') = ch_exported st \<and>
        cols_empty (length stat_columns) (columns (fst s')))
     (run_calls throws vt k (map MakeColumn (drop i stat_columns)) (st, w))"
  using assms(1-4)
proof (induction "length stat_columns - i" arbitrary: i n st k)
  case 0
  then have i: "i = length stat_columns" by simp
  then have "cols_empty (length stat_columns) (columns st)" using 0 by (simp add: cols_empty_def)
  then show ?case using i 0 by simp
next
  case (Suc m)
  then have i: "i < length stat_columns" by simp
  then have dr: "drop i stat_columns = stat_columns ! i # drop (Suc i) stat_columns" by (simp add: Cons_nth_drop_Suc)
  obtain cols where c: "MakeCol (stat_columns ! i) st = Ret (st\<lparr>columns := cols\<rparr>)" "cols_empty (max n (Suc i)) cols"
    using MakeCol_spec [OF Suc.prems(2) i Suc.prems(3)] by blast
  have b: "batch_only s (st\<lparr>columns := cols\<rparr>, w)" by (rule batch_only_upd(1) [OF Suc.prems(1)])
  have p: "ch_partial s (st, w)"
    using Suc.prems(1,2) by (auto simp: ch_partial_def cols_made_def cols_empty_def)
  have m: "m = length stat_columns - Suc i" using Suc.hyps(2) by simp
  show ?case
    using Suc.hyps(1) [OF m b, of "max n (Suc i)" "k + 1"] c i p assms(5,6) unfolding dr by simp
qed

text \<open>In \<open>x'\<close>, the batch that was begun in \<open>x\<close> has the rows \<open>rs\<close>.\<close>

definition ch_begun :: "ch_state \<Rightarrow> stat_row list \<Rightarrow> ch_state \<Rightarrow> bool" where
  "ch_begun x rs x' \<longleftrightarrow>
     ch_inv x \<and> client x \<and> list_all row_ok rs \<and>
     (\<exists>w. rows_held (x, w) (int (length rs)) (row_values rs) (x', w))"

lemma export_calls_spec:
  assumes "ch_inv st" and "list_all row_ok rs" and "vt_call vt = ch_call"
  shows "ok_res (ch_partial (st, w)) (\<lambda>s' _. rows_held (st, w) (int (length rs)) (row_values rs) s')
     (run_calls throws vt 0 (export_calls rs) (st, w))"
proof -
  obtain n where n: "map col_sig (columns st) = take n ch_decls" using assms(1) by (auto simp: ch_inv_def)
  let ?st = "st\<lparr>columns := map ch_Clear (columns st), ch_exported := 0\<rparr>"
  have p0: "ch_partial (st, w) (st, w)" using n by (auto simp: ch_partial_def batch_only_def cols_made_def)
  have b: "batch_only (st, w) (?st, w)" by (simp add: batch_only_def)
  have e: "cols_empty n (columns ?st)" using n by (auto simp: cols_empty_def comp_def)
  have mk: "ok_res (ch_partial (st, w))
     (\<lambda>s' _. rows_held (st, w) (int (length [])) (row_values []) s')
     (run_calls throws vt 1 (map MakeColumn stat_columns) (?st, w))"
  proof (rule ok_weaken)
    show "ok_res (ch_partial (st, w))
     (\<lambda>s' _. batch_only (st, w) s' \<and> ch_exported (fst s') = ch_exported ?st \<and>
        cols_empty (length stat_columns) (columns (fst s')))
     (run_calls throws vt 1 (map MakeColumn stat_columns) (?st, w))"
      using make_columns [OF b e, of 0 vt throws "ch_partial (st, w)" 1] assms(3) by simp
    fix s' and x :: unit
    assume "batch_only (st, w) s' \<and> ch_exported (fst s') = ch_exported ?st \<and>
        cols_empty (length stat_columns) (columns (fst s'))"
    then show "rows_held (st, w) (int (length [])) (row_values []) s'"
      by (simp add: rows_held_def cols_empty_def cols_hold_def row_values_def)
  qed
  have "ok_res (ch_partial (st, w)) (\<lambda>s' _. rows_held (st, w) (int (length rs)) (row_values rs) s')
     (run_calls throws vt 1 (map MakeColumn stat_columns @ concat (map row_calls rs)) (?st, w))"
    unfolding run_calls_append
    by (rule ok_bind [OF mk]) (use append_rows [of "(st, w)" "[]", OF _ assms(2,3)] in simp)
  then show ?thesis using p0 assms(3) by (simp add: export_calls_def)
qed

subsection \<open>Committing a batch\<close>

definition block_col :: "ch_col \<Rightarrow> string \<times> string \<times> ch_payload" where
  "block_col c = (cname c, if str_kind (ckind c) then ''String'' else ctype c, payload c)"

lemma fold_Crunch_err: "fold (Crunch env) cols (tys, bb, Some e) = (tys, bb, Some e)"
  by (induction cols) (simp_all add: Crunch_def AppendString_def AppendFixed_def)

lemma fold_Crunch:
  "fold (Crunch env) cols (tys, bb, None) = (tys', bb', None) \<Longrightarrow> bb' = bb @ map block_col cols"
proof (induction cols arbitrary: tys bb)
  case (Cons c cols)
  obtain t1 b1 e1 where c: "Crunch env c (tys, bb, None) = (t1, b1, e1)" by (cases "Crunch env c (tys, bb, None)")
  have e1: "e1 = None" using Cons.prems by (cases e1) (simp_all add: c fold_Crunch_err)
  have "b1 = bb @ [block_col c]"
    using c unfolding e1
    by (auto simp: Crunch_def AppendString_def AppendFixed_def block_col_def payload_def split: if_splits option.splits)
  with Cons.IH [of t1 b1] Cons.prems show ?case by (simp add: c e1)
qed simp

text \<open>What a failed commit leaves.\<close>

definition ch_failed :: "ch_state \<Rightarrow> ch_state \<Rightarrow> bool" where
  "ch_failed st st' \<longleftrightarrow>
     ch_inv st' \<and> columns st' = columns st \<and> ch_exported st' = ch_exported st \<and> acked st' = acked st \<and>
     ch_failures st' = ch_failures st + 1"

lemma RecordFailure_spec:
  assumes "ch_inv st" and "conn_only st0 st" and "idle penv w"
  shows "\<exists>st' w'. ch_RecordFailure penv m cl (st, w) = Some ((st', w'), False) \<and> stats_only w w' \<and>
     ch_failed st0 st' \<and> (cl \<longrightarrow> ch_closed st')"
proof -
  obtain w' where w': "PschRecordExportFailure penv (Some m) w = Some w'" "stats_only w w'"
    using record_failure_idle [OF assms(3)] by blast
  let ?st = "st\<lparr>ch_failures := ch_failures st + 1\<rparr>"
  have i: "ch_inv ?st" using assms(1) by (auto simp: ch_inv_def)
  have c: "ch_closed (CloseConnection ?st)" using i by (intro CloseConnection_closed) (simp add: ch_inv_def)
  have ic: "ch_inv (CloseConnection ?st)" by (rule ch_inv_closed [OF c _ i]) simp
  have co: "conn_only ?st (CloseConnection ?st)" by simp
  show ?thesis
    using w' i c ic co assms(2)
    by (cases cl) (auto simp: ch_RecordFailure_def Let_def ch_failed_def conn_only_def)
qed

lemma CommitBatch_spec:
  assumes "ch_inv st" and "idle penv w"
  shows "\<exists>st' w' ok. ch_CommitBatch g env penv (st, w) = Some ((st', w'), ok) \<and> stats_only w w' \<and>
     (if ok then ch_inv st' \<and> client st' \<and> ch_failures st' = 0 \<and> ch_exported st' = ch_exported st \<and>
              acked st' = acked st @ [(BuildInsertQuery st, map block_col (columns st))]
      else ch_failed st st')"
proof -
  have fail: "\<exists>st' w' ok. r = Some ((st', w'), ok) \<and> stats_only w w' \<and>
     (if ok then ch_inv st' \<and> client st' \<and> ch_failures st' = 0 \<and> ch_exported st' = ch_exported st \<and>
              acked st' = acked st @ [(BuildInsertQuery st, map block_col (columns st))]
      else ch_failed st st')"
    if "r = ch_RecordFailure penv m cl (st1, w)" "ch_inv st1" "conn_only st st1" for r m cl st1
    using RecordFailure_spec [OF that(2,3) assms(2), of m cl] that(1) by auto
  show ?thesis
  proof (cases "(conn_cxt st \<and> batch_cxt st) \<and> builder_init env = None")
    case False
    have co: "conn_only st st" by (simp add: conn_only_def)
    consider "\<not> (conn_cxt st \<and> batch_cxt st)" | m where "conn_cxt st" "batch_cxt st" "builder_init env = Some m"
      using False by (cases "builder_init env") auto
    then show ?thesis
    proof cases
      case 1
      then show ?thesis by (intro fail [OF _ assms(1) co]) (auto simp: ch_CommitBatch_def)
    next
      case 2
      then show ?thesis by (intro fail [OF _ assms(1) co]) (auto simp: ch_CommitBatch_def)
    qed
  next
    case ready: True
    obtain st1 b where c: "(if client st then (st, True) else ch_EstablishNewConnection g env st) = (st1, b)"
      by (cases "if client st then (st, True) else ch_EstablishNewConnection g env st")
    have s1: "ch_inv st1" "client st1 = b" "conn_only st st1"
      using EstablishNewConnection_spec [OF assms(1), of g env st1 b] c assms(1)
      by (auto simp: conn_only_def split: if_splits)
    obtain tys bb e where f: "fold (Crunch env) (columns st1) (types st1, [], None) = (tys, bb, e)"
      by (cases "fold (Crunch env) (columns st1) (types st1, [], None)")
    let ?st = "st1\<lparr>types := tys\<rparr>"
    have s2: "conn_only st ?st" "b \<Longrightarrow> ch_inv ?st" using s1 by (simp_all add: conn_only_def ch_inv_def)
    show ?thesis
    proof (cases "b \<and> \<not> crunch_throws env \<and> e = None \<and> \<not> insert_throws env \<and> SendInsert env ?st bb = None")
      case True
      then have bb: "bb = map block_col (columns st)" 
        using fold_Crunch [of env "columns st1" "types st1" "[]" tys bb] f s1(3) by (simp add: conn_only_def)
      have "BuildInsertQuery ?st = BuildInsertQuery st" using s1(3) by (simp add: BuildInsertQuery_def conn_only_def)
      then have r: "ch_CommitBatch g env penv (st, w)
          = Some ((?st\<lparr>ch_failures := 0, acked := acked st1 @ [(BuildInsertQuery st, bb)]\<rparr>, w), True)"
        using True ready f unfolding ch_CommitBatch_def fst_conv snd_conv c by (simp add: Let_def)
      have "ch_inv (?st\<lparr>ch_failures := 0, acked := acked st1 @ [(BuildInsertQuery st, bb)]\<rparr>)"
        using s2(2) True by (auto simp: ch_inv_def)
      then show ?thesis
        using True s1(2,3) bb unfolding r
        by (intro exI [of _ "?st\<lparr>ch_failures := 0, acked := acked st1 @ [(BuildInsertQuery st, bb)]\<rparr>"]
            exI [of _ w] exI [of _ True]) (simp add: conn_only_def)
    next
      case bad: False
      consider "\<not> b" | "b" "crunch_throws env" | m where "b" "\<not> crunch_throws env" "e = Some m"
        | "b" "\<not> crunch_throws env" "e = None" "insert_throws env"
        | m where "b" "\<not> crunch_throws env" "e = None" "\<not> insert_throws env" "SendInsert env ?st bb = Some m"
        using bad by (cases e; cases "SendInsert env ?st bb") auto
      then show ?thesis
      proof cases
        case 1
        then show ?thesis using ready c by (intro fail [OF _ s1(1,3)]) (auto simp: ch_CommitBatch_def)
      next
        case 2
        then show ?thesis using ready c by (intro fail [OF _ s1(1,3)]) (auto simp: ch_CommitBatch_def)
      next
        case 3
        then show ?thesis using ready c f by (intro fail [OF _ s2(2,1)]) (auto simp: ch_CommitBatch_def)
      next
        case 4
        then show ?thesis using ready c f by (intro fail [OF _ s2(2,1)]) (auto simp: ch_CommitBatch_def)
      next
        case 5
        then show ?thesis using ready c f by (intro fail [OF _ s2(2,1)]) (auto simp: ch_CommitBatch_def)
      qed
    qed
  qed
qed

subsection \<open>What a committed batch delivers\<close>

lemma ch_image_values: "row_ok r \<Longrightarrow> ch_image r = map (\<lambda>c. (fst (ch_decl c), the (map_of r c))) stat_columns"
proof -
  assume r: "row_ok r"
  have d: "distinct (map fst r)" by (rule row_okD(2) [OF r])
  have "ch_image r = map (\<lambda>cv. (fst (ch_decl (fst cv)), the (map_of r (fst cv)))) r"
    unfolding ch_image_def by (rule map_cong [OF refl]) (use d in \<open>auto simp: map_of_is_SomeI\<close>)
  also have "\<dots> = map (\<lambda>c. (fst (ch_decl c), the (map_of r c))) (map fst r)" by simp
  also have "map fst r = stat_columns" using r by (simp add: row_ok_def)
  finally show ?thesis .
qed

lemma block_rows_held:
  assumes "cols_hold cols (row_values rs)" and "list_all row_ok rs"
  shows "block_rows (map block_col cols) = map ch_image rs"
proof -
  have sig: "map col_sig cols = ch_decls" using assms(1) by (simp add: cols_hold_def)
  have len: "length cols = length stat_columns" using arg_cong [OF sig, of length] by simp
  have dec: "decode (payload (cols ! j)) = row_values rs (stat_columns ! j)" if "j < length cols" for j
    using assms(1) that col_holds_decode by (simp add: cols_hold_def)
  have nm: "cname (cols ! j) = fst (ch_decl (stat_columns ! j))" if "j < length cols" for j
  proof -
    have "map col_sig cols ! j = ch_decls ! j" by (simp add: sig)
    then show ?thesis using that len by (simp add: col_sig_def) (metis fst_conv)
  qed
  have ne: "0 < length cols" by (simp add: len stat_columns_def)
  have n: "length (decode (snd (snd (hd (map block_col cols))))) = length rs"
    using dec [OF ne] ne by (simp add: hd_conv_nth block_col_def row_values_def)
  have row: "map (\<lambda>(nm, ty, pl). (nm, decode pl ! i)) (map block_col cols) = ch_image (rs ! i)"
    if i: "i < length rs" for i
  proof (rule nth_equalityI)
    have r: "row_ok (rs ! i)" using assms(2) i by (simp add: list_all_length)
    show "length (map (\<lambda>(nm, ty, pl). (nm, decode pl ! i)) (map block_col cols)) = length (ch_image (rs ! i))"
      using len by (simp add: ch_image_values [OF r])
    fix j assume "j < length (map (\<lambda>(nm, ty, pl). (nm, decode pl ! i)) (map block_col cols))"
    then show "map (\<lambda>(nm, ty, pl). (nm, decode pl ! i)) (map block_col cols) ! j = ch_image (rs ! i) ! j"
      using len i by (simp add: ch_image_values [OF r] block_col_def nm dec row_values_def)
  qed
  show ?thesis
    unfolding block_rows_def n by (rule nth_equalityI) (simp_all add: row del: map_map)
qed

lemma ch_inv_partial:
  assumes "ch_inv x" and "ch_partial (x, w) (x', w')"
  shows "ch_inv x'" "acked x' = acked x" "ch_failures x' = ch_failures x" "w' = w"
    "client x' = client x"
proof -
  have eq: "x'\<lparr>columns := [], ch_exported := 0\<rparr> = x\<lparr>columns := [], ch_exported := 0\<rparr>"
    and made: "\<exists>n. map col_sig (columns x') = take n ch_decls" and "w' = w"
    using assms(2) by (simp_all add: ch_partial_def batch_only_def cols_made_def)
  note fields = arg_cong [OF eq, of client] arg_cong [OF eq, of sock] arg_cong [OF eq, of open_socks]
    arg_cong [OF eq, of ssl] arg_cong [OF eq, of ssl_ctx] arg_cong [OF eq, of conn_cxt]
    arg_cong [OF eq, of batch_cxt] arg_cong [OF eq, of types] arg_cong [OF eq, of ch_failures]
    arg_cong [OF eq, of acked]
  show "acked x' = acked x" "ch_failures x' = ch_failures x" "client x' = client x" using fields by simp_all
  show "w' = w" by fact
  show "ch_inv x'" using assms(1) made fields unfolding ch_inv_def by auto
qed

interpretation chx: stats_exporter "MakeClickHouseExporter g env penv" penv ch_inv ch_begun ch_delivered ch_image
    "\<lambda>_. []"
  for g env penv
proof
  let ?vt = "MakeClickHouseExporter g env penv"
  have calls: "vt_call ?vt = ch_call" by (simp add: MakeClickHouseExporter_def)
  show "ch_inv x' \<and> vt_IsConnected ?vt x' = ok \<and> ch_delivered x' = ch_delivered x \<and> [] = ([] :: (char list \<times> nat) list) \<and>
      vt_NumConsecutiveFailures ?vt x' = vt_NumConsecutiveFailures ?vt x"
    if "ch_inv x" "vt_EstablishNewConnection ?vt x = (x', ok)" for x x' ok
    using EstablishNewConnection_spec [OF that(1), of g env x' ok] that(2)
    by (simp add: MakeClickHouseExporter_def conn_only_def ch_delivered_def)
  show "ok_res (\<lambda>(x', w'). ch_inv x' \<and> stats_only w w' \<and>
                (\<exists>k\<le>length rs. ch_delivered x' = ch_delivered x @ map ch_image (take k rs)))
        (\<lambda>(x', w') _. ch_begun x rs x' \<and> stats_only w w')
        (run_calls throws ?vt 0 (export_calls rs) (x, w))"
    if x: "ch_inv x" "vt_IsConnected ?vt x" "idle penv w" "list_all row_ok rs" for x w rs throws
  proof (rule ok_weaken [OF export_calls_spec [OF x(1,4) calls]])
    fix s assume s: "ch_partial (x, w) s"
    obtain x' w' where s': "s = (x', w')" by (cases s)
    note P = ch_inv_partial [OF x(1) s [unfolded s']]
    have "ch_delivered x' = ch_delivered x" using P(2) by (simp add: ch_delivered_def)
    with P show "case s of (x', w') \<Rightarrow> ch_inv x' \<and> stats_only w w' \<and>
                (\<exists>k\<le>length rs. ch_delivered x' = ch_delivered x @ map ch_image (take k rs))"
      by (auto simp: s' intro!: exI [of _ 0])
  next
    fix s and u :: unit assume s: "rows_held (x, w) (int (length rs)) (row_values rs) s"
    obtain x' w' where s': "s = (x', w')" by (cases s)
    have "w' = w" using s by (simp add: s' rows_held_def batch_only_def)
    moreover have "client x" using x(2) by (simp add: MakeClickHouseExporter_def)
    ultimately have "ch_begun x rs x'"
      unfolding ch_begun_def using s x(1,4) by (intro conjI exI [of _ w]) (simp_all add: s')
    then show "(case s of (x', w') \<Rightarrow> \<lambda>_. ch_begun x rs x' \<and> stats_only w w') u"
      using \<open>w' = w\<close> by (simp add: s')
  qed
  show "\<exists>x'' w' ok. vt_CommitBatch ?vt (x', w) = Some ((x'', w'), ok) \<and> ch_inv x'' \<and> stats_only w w' \<and>
        (ok \<longrightarrow> ch_delivered x'' = ch_delivered x @ map ch_image rs \<and> vt_NumExported ?vt x'' = int (length rs) \<and>
               vt_NumConsecutiveFailures ?vt x'' = 0) \<and>
        (\<not> ok \<longrightarrow> (\<exists>k\<le>length rs. ch_delivered x'' = ch_delivered x @ map ch_image (take k rs)) \<and>
               vt_NumExported ?vt x'' \<le> int (length rs) \<and> 0 < vt_NumConsecutiveFailures ?vt x'')"
    if b: "ch_begun x rs x'" and w: "idle penv w" for x rs x' w
  proof -
    obtain v where h: "ch_inv x" "client x" "list_all row_ok rs"
        "rows_held (x, v) (int (length rs)) (row_values rs) (x', v)"
      using b by (auto simp: ch_begun_def)
    have hold: "cols_hold (columns x') (row_values rs)" "ch_exported x' = int (length rs)"
      using h(4) by (simp_all add: rows_held_def)
    note P = ch_inv_partial [OF h(1) rows_held_partial [OF h(4)]]
    have inv: "ch_inv x'" and ac: "acked x' = acked x" by (rule P(1), rule P(2))
    have fl: "0 \<le> ch_failures x'" using inv by (simp add: ch_inv_def)
    obtain x'' w' ok where c: "ch_CommitBatch g env penv (x', w) = Some ((x'', w'), ok)" "stats_only w w'"
      "if ok then ch_inv x'' \<and> client x'' \<and> ch_failures x'' = 0 \<and> ch_exported x'' = ch_exported x' \<and>
              acked x'' = acked x' @ [(BuildInsertQuery x', map block_col (columns x'))]
       else ch_failed x' x''"
      using CommitBatch_spec [OF inv w, of g env] by blast
    show ?thesis
    proof (cases ok)
      case True
      then have "ch_delivered x'' = ch_delivered x @ map ch_image rs"
        using c(3) ac block_rows_held [OF hold(1) h(3)] by (simp add: ch_delivered_def)
      with True c hold(2) show ?thesis
        by (intro exI [of _ x''] exI [of _ w'] exI [of _ ok]) (simp add: MakeClickHouseExporter_def)
    next
      case False
      then have f: "ch_failed x' x''" using c(3) by simp
      then have "ch_delivered x'' = ch_delivered x @ map ch_image (take 0 rs)"
        using ac by (simp add: ch_delivered_def ch_failed_def)
      with False f c hold(2) fl show ?thesis
        by (intro exI [of _ x''] exI [of _ w'] exI [of _ ok])
           (auto simp: MakeClickHouseExporter_def ch_failed_def intro!: exI [of _ 0])
    qed
  qed
qed (auto simp: MakeClickHouseExporter_def ch_SendArrowBatch_def ch_inv_def ch_delivered_def)

subsection \<open>A server that answers\<close>

definition chc_ok :: "chc_env \<Rightarrow> bool" where
  "chc_ok env \<longleftrightarrow>
     builder_init env = None \<and> \<not> crunch_throws env \<and> \<not> insert_throws env \<and>
     type_parse env = (\<lambda>_. None) \<and> append_column env = (\<lambda>_ _. None) \<and> send_query env = (\<lambda>_. None) \<and>
     send_data env = (\<lambda>_. None) \<and> send_end env = None \<and>
     RecvUntil (recv_header env) CHC_PKT_DATA = None \<and> RecvUntil (recv_end env) CHC_PKT_END_OF_STREAM = None"

lemma fold_Crunch_ok:
  "chc_ok env \<Longrightarrow> snd (snd (fold (Crunch env) cols (tys, bb, None))) = None"
proof (induction cols arbitrary: tys bb)
  case (Cons c cols)
  then have "\<exists>t b. Crunch env c (tys, bb, None) = (t, b, None)"
    by (auto simp: Crunch_def AppendString_def AppendFixed_def chc_ok_def)
  with Cons show ?case by auto
qed simp

lemma CommitBatch_ok:
  assumes "chc_ok env" and "ch_inv st" and "client st"
  shows "\<exists>st'. ch_CommitBatch g env penv (st, w) = Some ((st', w), True)"
proof -
  have cc: "conn_cxt st" "batch_cxt st" using assms(2,3) by (simp_all add: ch_inv_def)
  obtain tys bb where f: "fold (Crunch env) (columns st) (types st, [], None) = (tys, bb, None)"
    using fold_Crunch_ok [OF assms(1), of "columns st" "types st" "[]"]
    by (cases "fold (Crunch env) (columns st) (types st, [], None)") auto
  have "SendInsert env st' bb = None" for st' using assms(1) by (simp add: SendInsert_def chc_ok_def)
  then show ?thesis using assms(1,3) cc f by (simp add: ch_CommitBatch_def Let_def chc_ok_def)
qed

definition chc_sample :: chc_env where
  "chc_sample =
     \<lparr>conn_create_ok = True, batch_create_ok = True, tcp_addrs = Some [(True, False), (True, True)],
      ssl_ctx_new_ok = True, verify_paths_ok = True, ssl_new_ok = True, ssl_sni_ok = True, ssl_host_ok = True,
      ssl_fd_ok = True, ssl_connect_ok = True, client_init_ok = True, builder_init = None,
      crunch_throws = False, type_parse = (\<lambda>_. None), append_column = (\<lambda>_ _. None), insert_throws = False,
      send_query = (\<lambda>_. None), recv_header = (\<lambda>_. Inr CHC_PKT_DATA), send_data = (\<lambda>_. None),
      send_end = None, recv_end = (\<lambda>i. Inr (if i = 0 then CHC_PKT_OTHER else CHC_PKT_END_OF_STREAM))\<rparr>"

lemma recv_loop_first: "recv i = Inr CHC_PKT_DATA \<Longrightarrow> 0 < n \<Longrightarrow> recv_loop recv CHC_PKT_DATA n i = None"
  by (cases n) simp_all

lemma chc_sample_ok [simp]: "chc_ok chc_sample"
proof -
  have "recv_loop recv t (Suc (Suc n)) i = None"
    if "recv i = Inr CHC_PKT_OTHER" "recv (Suc i) = Inr t" "t = CHC_PKT_END_OF_STREAM" for recv t n i
    using that by simp
  from this [of "recv_end chc_sample" 0 _ 4094] show ?thesis
    by (simp add: chc_ok_def chc_sample_def RecvUntil_def kMaxRecvPackets_def recv_loop_first)
qed

text \<open>
  C38. A batch for ClickHouse. Whatever the server, the network and the allocator do, building
  and committing the rows of a batch on an open connection keeps the invariant: no socket and
  no TLS state is left without a client. A confirmed INSERT has the rows of the batch, in
  order, every value under the name of its column, and counts exactly them; a failure
  leaves what was delivered before and is counted. When the server answers, the commit
  succeeds.
\<close>

theorem clickhouse_batch_delivered:
  assumes "ch_inv st" and "client st" and "idle penv w" and "list_all row_ok rs"
  shows "ok_res (\<lambda>(st', w'). ch_inv st' \<and> stats_only w w' \<and> ch_delivered st' = ch_delivered st)
     (\<lambda>(st', w') _. \<exists>st'' w'' ok. ch_CommitBatch g env penv (st', w') = Some ((st'', w''), ok) \<and>
        ch_inv st'' \<and> stats_only w w'' \<and> (chc_ok env \<longrightarrow> ok) \<and>
        (if ok then ch_delivered st'' = ch_delivered st @ map ch_image rs \<and> ch_exported st'' = int (length rs) \<and>
                    ch_failures st'' = 0
         else ch_delivered st'' = ch_delivered st \<and> ch_failures st'' = ch_failures st + 1))
     (run_calls throws (MakeClickHouseExporter g env penv) 0 (export_calls rs) (st, w))"
proof (rule ok_weaken [OF export_calls_spec [OF assms(1,4)]])
  show "vt_call (MakeClickHouseExporter g env penv) = ch_call" by (simp add: MakeClickHouseExporter_def)
next
  fix s assume s: "ch_partial (st, w) s"
  obtain st' w' where s': "s = (st', w')" by (cases s)
  show "case s of (st', w') \<Rightarrow> ch_inv st' \<and> stats_only w w' \<and> ch_delivered st' = ch_delivered st"
    using ch_inv_partial [OF assms(1) s [unfolded s']] by (simp add: s' ch_delivered_def)
next
  fix s and u :: unit assume s: "rows_held (st, w) (int (length rs)) (row_values rs) s"
  obtain st' w' where s': "s = (st', w')" by (cases s)
  note P = ch_inv_partial [OF assms(1) rows_held_partial [OF s [unfolded s']]]
  have h: "cols_hold (columns st') (row_values rs)" "ch_exported st' = int (length rs)"
    using s by (simp_all add: rows_held_def s')
  have cl: "client st'"
    using P(5) assms(2) by simp
  have i: "idle penv w'" using assms(3) P(4) by simp
  obtain st'' w'' ok where c: "ch_CommitBatch g env penv (st', w') = Some ((st'', w''), ok)" "stats_only w' w''"
    "if ok then ch_inv st'' \<and> client st'' \<and> ch_failures st'' = 0 \<and> ch_exported st'' = ch_exported st' \<and>
            acked st'' = acked st' @ [(BuildInsertQuery st', map block_col (columns st'))]
     else ch_failed st' st''"
    using CommitBatch_spec [OF P(1) i, of g env] by blast
  have ok: "chc_ok env \<longrightarrow> ok" using CommitBatch_ok [OF _ P(1) cl, of env g penv w'] c(1) by auto
  show "(case s of (st', w') \<Rightarrow> \<lambda>_. \<exists>st'' w'' ok. ch_CommitBatch g env penv (st', w') = Some ((st'', w''), ok) \<and>
        ch_inv st'' \<and> stats_only w w'' \<and> (chc_ok env \<longrightarrow> ok) \<and>
        (if ok then ch_delivered st'' = ch_delivered st @ map ch_image rs \<and> ch_exported st'' = int (length rs) \<and>
                    ch_failures st'' = 0
         else ch_delivered st'' = ch_delivered st \<and> ch_failures st'' = ch_failures st + 1)) u"
    unfolding s' prod.case
  proof (intro exI [of _ st''] exI [of _ w''] exI [of _ ok] conjI)
    show "ch_inv st''" using c(3) by (simp add: ch_failed_def split: if_splits)
    show "stats_only w w''" using c(2) P(4) by simp
    show "if ok then ch_delivered st'' = ch_delivered st @ map ch_image rs \<and> ch_exported st'' = int (length rs) \<and>
                    ch_failures st'' = 0
         else ch_delivered st'' = ch_delivered st \<and> ch_failures st'' = ch_failures st + 1"
      using c(3) P(2,3) h(2) block_rows_held [OF h(1) assms(4)]
      by (simp add: ch_delivered_def ch_failed_def split: if_splits)
  qed (use c(1) ok in simp_all)
qed

definition ch_sample_conn :: ch_state where
  "ch_sample_conn = fst (ch_EstablishNewConnection guc_init chc_sample ch_new)"

lemma ch_sample_conn [simp]: "ch_inv ch_sample_conn" "client ch_sample_conn"
proof -
  have "ch_EstablishNewConnection guc_init chc_sample ch_new = (ch_sample_conn, True)"
    by (simp add: ch_sample_conn_def ch_EstablishNewConnection_def EnsureMemoryContexts_def TcpConnect_def
        chc_sample_def ch_new_def guc_init_def CloseConnection_def)
  from EstablishNewConnection_spec [OF ch_new_inv this] show "ch_inv ch_sample_conn" "client ch_sample_conn"
    by simp_all
qed

theorem clickhouse_batch_delivered_witness:
  "ok_res (\<lambda>(st', w'). ch_inv st')
     (\<lambda>(st', w') _. \<exists>st'' w''. ch_CommitBatch guc_init chc_sample sample_env (st', w') = Some ((st'', w''), True) \<and>
        ch_delivered st'' = ch_delivered ch_sample_conn @ [ch_image sample_row])
     (run_calls (\<lambda>_. False) (MakeClickHouseExporter guc_init chc_sample sample_env) 0 (export_calls [sample_row])
        (ch_sample_conn, boot_world guc_init))"
  by (rule ok_weaken [OF clickhouse_batch_delivered [OF ch_sample_conn sample_idle]]) auto

end
