(* ===== verification/Psch_Otel.thy ===== *)
theory Psch_Otel
  imports Psch_Exporter_Iface
begin

section \<open>The OpenTelemetry exporter (\<^verbatim>\<open>otel_exporter.cc\<close>)\<close>

text \<open>
  \<^verbatim>\<open>OTelExporter\<close>: log records are collected into a chunk, and a chunk is one gRPC call. A
  pointer member is the truth value of its being non-NULL, and the request is the list of
  its records; a request whose arena was lost to an exception is \<^const>\<open>None\<close>. What gRPC and the
  host answer is \<open>otel_env\<close>. Three members are not in the code: \<open>rpcs\<close> numbers the calls,
  \<open>sent\<close> lists the requests that were confirmed, and \<open>blocks\<close> the confirmed Arrow blocks with
  their number of rows. Byte counts stay far below \<^verbatim>\<open>SIZE_MAX\<close> and are
  natural numbers; the duration in seconds is a real number. Log messages, the resource and
  scope of a request and the settings of the channel are left out.
\<close>

datatype attr_value = AttrString "char list" | AttrInt i64 | AttrDouble real

record log_record =
  time_unix_nano :: u64
  attributes :: "(string \<times> attr_value) list"

definition new_record :: log_record where
  "new_record = \<lparr>time_unix_nano = 0, attributes = []\<rparr>"

datatype grpc_result = GrpcOk | GrpcError "char list" | GrpcThrows "char list"

record otel_env =
  channel_ok :: bool
  grpc :: "nat \<Rightarrow> grpc_result"
  env_hostname :: "char list option"
  os_hostname :: "char list option"

record otel_state =
  stub :: bool
  max_chunk_records :: nat
  max_chunk_bytes :: nat
  otel_failures :: int
  otel_exported :: int
  batch_failed :: bool
  request :: "log_record list option"
  current_record :: bool
  chunk_count :: nat
  chunk_bytes :: nat
  rpcs :: nat
  sent :: "log_record list list"
  blocks :: "(char list \<times> nat) list"

definition kMinBytesPerRecord :: nat where "kMinBytesPerRecord = 1200"
definition kRequestOverheadBytes :: nat where "kRequestOverheadBytes = 512"
definition kLogRecordOverheadBytes :: nat where "kLogRecordOverheadBytes = 128"
definition kAttrOverheadBytes :: nat where "kAttrOverheadBytes = 24"

definition otel_new :: otel_state where
  "otel_new =
     \<lparr>stub = False, max_chunk_records = 1, max_chunk_bytes = kMinBytesPerRecord, otel_failures = 0,
      otel_exported = 0, batch_failed = False, request = None, current_record = False, chunk_count = 0,
      chunk_bytes = 0, rpcs = 0, sent = [], blocks = []\<rparr>"

definition GetAHostname :: "guc \<Rightarrow> otel_env \<Rightarrow> char list \<Rightarrow> char list" where
  "GetAHostname g env fallback =
     (case psch_hostname g of
        Some (c # cs) \<Rightarrow> c # cs
      | _ \<Rightarrow>
          (case env_hostname env of
             Some (c # cs) \<Rightarrow> c # cs
           | _ \<Rightarrow> (case os_hostname env of Some buf \<Rightarrow> cstr (take 255 buf) | None \<Rightarrow> fallback)))"

definition EstimateStringAttrBytes :: "char list \<Rightarrow> char list \<Rightarrow> nat" where
  "EstimateStringAttrBytes key val = kAttrOverheadBytes + length key + length val"

definition EstimateScalarAttrBytes :: "char list \<Rightarrow> nat" where
  "EstimateScalarAttrBytes key = kAttrOverheadBytes + length key + 8"

subsection \<open>Columns\<close>

text \<open>The name of the attribute of a column.\<close>

primrec otel_name :: "stat_col \<Rightarrow> string" where
  "otel_name (StatLCString nm) = nm"
| "otel_name (StatLCUInt8 nm) = nm"
| "otel_name (StatLCInt16 nm) = nm"
| "otel_name (StatLCInt32 nm) = nm"
| "otel_name (StatHCString nm) = nm"
| "otel_name (StatHCInt64 nm) = nm"
| "otel_name (StatHCUInt64 nm) = nm"
| "otel_name (StatTimestamp nm) = nm"
| "otel_name DbNameColumn = ''db.name''"
| "otel_name DbUserColumn = ''db.user''"
| "otel_name DbDurationColumn = ''duration_us''"
| "otel_name DbOperationColumn = ''db.operation.name''"
| "otel_name DbQueryTextColumn = ''db.query.text''"

definition add_attr :: "string \<Rightarrow> attr_value \<Rightarrow> log_record \<Rightarrow> log_record" where
  "add_attr nm v rec = rec\<lparr>attributes := attributes rec @ [(nm, v)]\<rparr>"

definition IntColumn_Append :: "string \<Rightarrow> i64 \<Rightarrow> log_record \<Rightarrow> log_record \<times> nat" where
  "IntColumn_Append nm v rec =
     (if v = 0 then (rec, 0) else (add_attr nm (AttrInt v) rec, EstimateScalarAttrBytes nm))"

definition StrColumn_Append :: "string \<Rightarrow> char list \<Rightarrow> log_record \<Rightarrow> log_record \<times> nat" where
  "StrColumn_Append nm s rec = (add_attr nm (AttrString s) rec, EstimateStringAttrBytes nm s)"

definition DateTimeCol_Append :: "string \<Rightarrow> i64 \<Rightarrow> log_record \<Rightarrow> log_record \<times> nat" where
  "DateTimeCol_Append nm v rec =
     (add_attr nm (AttrInt v) (rec\<lparr>time_unix_nano := v * 1000\<rparr>), EstimateScalarAttrBytes nm + 8)"

definition DurationCol_Append :: "u64 \<Rightarrow> log_record \<Rightarrow> log_record \<times> nat" where
  "DurationCol_Append v rec =
     (add_attr ''duration_us'' (AttrInt v)
        (add_attr ''db.client.operation.duration'' (AttrDouble (of_nat (unat v) / 1000000)) rec),
      EstimateScalarAttrBytes ''db.client.operation.duration'' + EstimateScalarAttrBytes ''duration_us'')"

text \<open>\<^verbatim>\<open>Append\<close> of the column: the record, and the bytes it is estimated to grow by.\<close>

definition column_Append :: "stat_col \<Rightarrow> col_value \<Rightarrow> log_record \<Rightarrow> log_record \<times> nat" where
  "column_Append c v rec =
     (case v of
        VString s \<Rightarrow> StrColumn_Append (otel_name c) s rec
      | VUInt8 n \<Rightarrow> IntColumn_Append (otel_name c) (ucast n) rec
      | VInt16 n \<Rightarrow> IntColumn_Append (otel_name c) (scast n) rec
      | VInt32 n \<Rightarrow> IntColumn_Append (otel_name c) (scast n) rec
      | VInt64 n \<Rightarrow>
          (case c of
             StatTimestamp nm \<Rightarrow> DateTimeCol_Append nm n rec
           | _ \<Rightarrow> IntColumn_Append (otel_name c) n rec)
      | VUInt64 n \<Rightarrow>
          (case c of
             DbDurationColumn \<Rightarrow> DurationCol_Append n rec
           | _ \<Rightarrow> IntColumn_Append (otel_name c) n rec))"

subsection \<open>Chunks\<close>

definition ChunkFull :: "otel_state \<Rightarrow> bool" where
  "ChunkFull st \<longleftrightarrow> max_chunk_records st \<le> chunk_count st \<or> max_chunk_bytes st \<le> chunk_bytes st"

definition ResetChunk :: "otel_state \<Rightarrow> otel_state" where
  "ResetChunk st =
     st\<lparr>request := Some [], chunk_count := 0, chunk_bytes := kRequestOverheadBytes, current_record := False\<rparr>"

definition otel_failure ::
    "pg_env \<Rightarrow> char list \<Rightarrow> otel_state \<times> world \<Rightarrow> (otel_state \<times> world) option" where
  "otel_failure penv msg sw =
     map_option (\<lambda>w. ((fst sw)\<lparr>otel_failures := otel_failures (fst sw) + 1\<rparr>, w))
       (PschRecordExportFailure penv (Some msg) (snd sw))"

definition FlushChunk ::
    "otel_env \<Rightarrow> pg_env \<Rightarrow> otel_state \<times> world \<Rightarrow> (otel_state \<times> world, bool) pgres" where
  "FlushChunk env penv sw =
     (case sw of (st, w) \<Rightarrow>
        if \<not> stub st \<or> chunk_count st = 0 then pg_ret (st, w) True
        else
          (case request st of
             None \<Rightarrow> None
           | Some recs \<Rightarrow>
               let st = st\<lparr>request := None, rpcs := rpcs st + 1\<rparr>
               in (case grpc env (rpcs st) of
                     GrpcThrows m \<Rightarrow> Some ((st, w), Throw)
                   | GrpcOk \<Rightarrow>
                       pg_ret (st\<lparr>current_record := False, otel_exported := otel_exported st + int (chunk_count st),
                                  chunk_count := 0, chunk_bytes := 0, sent := sent st @ [recs]\<rparr>, w) True
                   | GrpcError m \<Rightarrow>
                       (case otel_failure penv m (st\<lparr>current_record := False\<rparr>, w) of
                          None \<Rightarrow> None
                        | Some sw \<Rightarrow> pg_ret sw False))))"

text \<open>The end of \<^verbatim>\<open>BeginRow\<close>: a new record in the request.\<close>

definition add_log_record :: "otel_state \<times> world \<Rightarrow> (otel_state \<times> world, unit) pgres" where
  "add_log_record sw =
     (case sw of (st, w) \<Rightarrow>
        case request st of
          None \<Rightarrow> None
        | Some recs \<Rightarrow>
            pg_ret (st\<lparr>request := Some (recs @ [new_record]), current_record := True,
                       chunk_count := chunk_count st + 1,
                       chunk_bytes := chunk_bytes st + kLogRecordOverheadBytes\<rparr>, w) ())"

fun otel_call ::
    "otel_env \<Rightarrow> pg_env \<Rightarrow> exporter_call \<Rightarrow> otel_state \<times> world \<Rightarrow> (otel_state \<times> world, unit) pgres" where
  "otel_call env penv BeginBatch (st, w) =
     pg_ret (ResetChunk (st\<lparr>otel_exported := 0, batch_failed := False\<rparr>), w) ()"
| "otel_call env penv (MakeColumn c) (st, w) = pg_ret (st, w) ()"
| "otel_call env penv BeginRow (st, w) =
     (if batch_failed st then pg_ret (st, w) ()
      else if ChunkFull st then
        pg_bind (FlushChunk env penv (st, w)) (\<lambda>(st, w) ok.
          if \<not> ok then pg_ret (st\<lparr>batch_failed := True\<rparr>, w) ()
          else add_log_record (ResetChunk st, w))
      else add_log_record (st, w))"
| "otel_call env penv (AppendValue c v) (st, w) =
     (if \<not> current_record st then pg_ret (st, w) ()
      else
        (case request st of
           None \<Rightarrow> None
         | Some recs \<Rightarrow>
             if recs = [] then None
             else
               let (rec, n) = column_Append c v (last recs)
               in pg_ret (st\<lparr>request := Some (butlast recs @ [rec]), chunk_bytes := chunk_bytes st + n\<rparr>, w) ()))"

subsection \<open>Connection and commit\<close>

definition ConfigureLogExport :: "guc \<Rightarrow> otel_state \<Rightarrow> otel_state" where
  "ConfigureLogExport g st =
     (let st = st\<lparr>max_chunk_bytes := max kMinBytesPerRecord (nat (psch_otel_log_max_bytes g))\<rparr>
      in st\<lparr>max_chunk_records :=
              max 1 (min (nat (psch_otel_log_batch_size g)) (max_chunk_bytes st div kMinBytesPerRecord))\<rparr>)"

definition otel_EstablishNewConnection :: "guc \<Rightarrow> otel_env \<Rightarrow> otel_state \<Rightarrow> otel_state \<times> bool" where
  "otel_EstablishNewConnection g env st =
     (let st = ConfigureLogExport g st
      in if channel_ok env then (st\<lparr>stub := True\<rparr>, True) else (st\<lparr>stub := False\<rparr>, False))"

text \<open>\<^verbatim>\<open>e.what()\<close> of the exception of the last call.\<close>

definition thrown_text :: "otel_env \<Rightarrow> otel_state \<Rightarrow> char list" where
  "thrown_text env st = (case grpc env (rpcs st) of GrpcThrows m \<Rightarrow> m | _ \<Rightarrow> [])"

definition otel_CommitBatch ::
    "otel_env \<Rightarrow> pg_env \<Rightarrow> otel_state \<times> world \<Rightarrow> ((otel_state \<times> world) \<times> bool) option" where
  "otel_CommitBatch env penv sw =
     (if batch_failed (fst sw) then Some (sw, False)
      else if \<not> stub (fst sw) then Some (((fst sw)\<lparr>otel_failures := 0\<rparr>, snd sw), True)
      else
        (case FlushChunk env penv sw of
           None \<Rightarrow> None
         | Some ((st, w), Ret ok) \<Rightarrow> Some ((if ok then st\<lparr>otel_failures := 0\<rparr> else st, w), ok)
         | Some ((st, w), Throw) \<Rightarrow>
             map_option (\<lambda>sw. (sw, False)) (otel_failure penv (thrown_text env st) (st, w))))"

definition otel_SendArrowBatch ::
    "otel_env \<Rightarrow> pg_env \<Rightarrow> char list \<Rightarrow> nat \<Rightarrow> otel_state \<times> world \<Rightarrow> ((otel_state \<times> world) \<times> bool) option" where
  "otel_SendArrowBatch env penv ipc_data n sw =
     (case sw of (st, w) \<Rightarrow>
        if \<not> stub st \<or> ipc_data = [] \<or> n = 0 then Some ((st, w), False)
        else
          let st = st\<lparr>rpcs := rpcs st + 1\<rparr>
          in (case grpc env (rpcs st) of
                GrpcOk \<Rightarrow> Some ((st\<lparr>otel_exported := otel_exported st + int n, otel_failures := 0,
                                blocks := blocks st @ [(ipc_data, n)]\<rparr>, w), True)
              | GrpcError m \<Rightarrow> map_option (\<lambda>sw. (sw, False)) (otel_failure penv m (st, w))
              | GrpcThrows m \<Rightarrow> map_option (\<lambda>sw. (sw, False)) (otel_failure penv m (st, w))))"

definition MakeOpenTelemetryExporter :: "guc \<Rightarrow> otel_env \<Rightarrow> pg_env \<Rightarrow> otel_state StatsExporter" where
  "MakeOpenTelemetryExporter g env penv =
     \<lparr>vt_call = otel_call env penv, vt_CommitBatch = otel_CommitBatch env penv,
      vt_EstablishNewConnection = otel_EstablishNewConnection g env, vt_IsConnected = stub,
      vt_NumConsecutiveFailures = otel_failures, vt_ResetFailures = (\<lambda>st. st\<lparr>otel_failures := 0\<rparr>),
      vt_NumExported = otel_exported, vt_SendArrowBatch = otel_SendArrowBatch env penv\<rparr>"

subsection \<open>What a chunk holds\<close>

definition otel_image :: "stat_row \<Rightarrow> log_record" where
  "otel_image r = foldl (\<lambda>rec (c, v). fst (column_Append c v rec)) new_record r"

lemma otel_image_simps [simp]:
  "otel_image [] = new_record" "otel_image (r @ [(c, v)]) = fst (column_Append c v (otel_image r))"
  by (simp_all add: otel_image_def)

definition otel_inv :: "otel_state \<Rightarrow> bool" where
  "otel_inv st \<longleftrightarrow> 0 < max_chunk_records st \<and> 0 \<le> otel_failures st"

definition same_limits :: "otel_state \<Rightarrow> otel_state \<Rightarrow> bool" where
  "same_limits x st \<longleftrightarrow>
     stub st = stub x \<and> max_chunk_records st = max_chunk_records x \<and> otel_inv st"

definition chunks_ok :: "otel_state \<Rightarrow> log_record list list \<Rightarrow> bool" where
  "chunks_ok x chunks \<longleftrightarrow> (\<forall>c\<in>set chunks. c \<noteq> [] \<and> length c \<le> max_chunk_records x)"

text \<open>Some prefix of the rows has been confirmed.\<close>

definition otel_part :: "otel_state \<Rightarrow> stat_row list \<Rightarrow> otel_state \<Rightarrow> bool" where
  "otel_part x rs st \<longleftrightarrow> same_limits x st \<and>
     (\<exists>chunks k. k \<le> length rs \<and> sent st = sent x @ chunks \<and> chunks_ok x chunks \<and>
        concat chunks = map otel_image (take k rs) \<and> otel_exported st = int k)"

text \<open>The batch has not failed: every row is confirmed or in the chunk.\<close>

definition otel_live :: "otel_state \<Rightarrow> stat_row list \<Rightarrow> otel_state \<Rightarrow> bool" where
  "otel_live x rs st \<longleftrightarrow> same_limits x st \<and> \<not> batch_failed st \<and>
     (\<exists>chunks recs. sent st = sent x @ chunks \<and> chunks_ok x chunks \<and> request st = Some recs \<and>
        chunk_count st = length recs \<and> length recs \<le> max_chunk_records x \<and>
        concat chunks @ recs = map otel_image rs \<and> otel_exported st = int (length (concat chunks)))"

definition otel_dead :: "otel_state \<Rightarrow> stat_row list \<Rightarrow> otel_state \<Rightarrow> bool" where
  "otel_dead x rs st \<longleftrightarrow>
     otel_part x rs st \<and> batch_failed st \<and> \<not> current_record st \<and> 0 < otel_failures st"

lemma otel_live_part: "otel_live x rs st \<Longrightarrow> otel_part x rs st"
proof -
  assume "otel_live x rs st"
  then obtain chunks recs where c: "same_limits x st" "sent st = sent x @ chunks" "chunks_ok x chunks"
      "concat chunks @ recs = map otel_image rs" "otel_exported st = int (length (concat chunks))"
    by (auto simp: otel_live_def)
  let ?k = "length (concat chunks)"
  have "?k \<le> length rs" using arg_cong [OF c(4), of length] by simp
  moreover have "concat chunks = map otel_image (take ?k rs)"
    using arg_cong [OF c(4), of "take ?k"] by (simp add: take_map)
  ultimately show ?thesis unfolding otel_part_def using c by blast
qed

lemma otel_part_more: "otel_part x rs st \<Longrightarrow> otel_part x (rs @ rs') st"
proof -
  assume "otel_part x rs st"
  then obtain chunks k where "same_limits x st" "k \<le> length rs" "sent st = sent x @ chunks" "chunks_ok x chunks"
        "concat chunks = map otel_image (take k rs)" "otel_exported st = int k"
    by (auto simp: otel_part_def)
  then have "same_limits x st \<and> (k \<le> length (rs @ rs') \<and> sent st = sent x @ chunks \<and> chunks_ok x chunks \<and>
        concat chunks = map otel_image (take k (rs @ rs')) \<and> otel_exported st = int k)" by simp
  then show ?thesis unfolding otel_part_def by blast
qed

lemma otel_dead_more: "otel_dead x rs st \<Longrightarrow> otel_dead x (rs @ rs') st"
  using otel_part_more by (auto simp: otel_dead_def)

subsection \<open>Sending a chunk\<close>

lemma otel_failure_idle:
  assumes "idle penv w"
  shows "\<exists>w'. otel_failure penv m (st, w) = Some (st\<lparr>otel_failures := otel_failures st + 1\<rparr>, w') \<and> stats_only w w'"
  using record_failure_idle [OF assms, of "Some m"] by (auto simp: otel_failure_def)

definition otel_flushed :: "otel_state \<Rightarrow> stat_row list \<Rightarrow> otel_state \<Rightarrow> bool" where
  "otel_flushed x rs st \<longleftrightarrow> same_limits x st \<and> \<not> batch_failed st \<and>
     (\<exists>chunks. sent st = sent x @ chunks \<and> chunks_ok x chunks \<and> concat chunks = map otel_image rs \<and>
        otel_exported st = int (length rs))"

lemma FlushChunk_spec:
  assumes "otel_live x rs st" and "stub x" and "idle penv w"
  shows "ok_res (\<lambda>(st', w'). otel_part x rs st' \<and> stats_only w w')
     (\<lambda>(st', w') ok. stats_only w w' \<and>
        (if ok then otel_flushed x rs st'
         else otel_part x rs st' \<and> \<not> batch_failed st' \<and> \<not> current_record st' \<and> 0 < otel_failures st'))
     (FlushChunk env penv (st, w))"
proof -
  obtain chunks recs where c: "same_limits x st" "\<not> batch_failed st" "sent st = sent x @ chunks" "chunks_ok x chunks"
      "request st = Some recs" "chunk_count st = length recs" "length recs \<le> max_chunk_records x"
      "concat chunks @ recs = map otel_image rs" "otel_exported st = int (length (concat chunks))"
    using assms(1) by (auto simp: otel_live_def)
  have stub: "stub st" using c(1) assms(2) by (simp add: same_limits_def)
  have len: "length (concat chunks) + length recs = length rs" using arg_cong [OF c(8), of length] by simp
  show ?thesis
  proof (cases "recs = []")
    case True
    then have "otel_flushed x rs st" unfolding otel_flushed_def using c len by auto
    then show ?thesis using True c stub by (simp add: FlushChunk_def)
  next
    case False
    let ?st = "st\<lparr>request := None, rpcs := rpcs st + 1\<rparr>"
    have part: "otel_part x rs st'" if "same_limits x st'" "sent st' = sent st" "otel_exported st' = otel_exported st" for st'
      using otel_live_part [OF assms(1)] that by (auto simp: otel_part_def)
    have lim: "same_limits x (?st\<lparr>current_record := b, otel_failures := n\<rparr>)" if "0 \<le> n" for b n
      using c(1) that by (simp add: same_limits_def otel_inv_def)
    show ?thesis
    proof (cases "grpc env (rpcs ?st)")
      case GrpcOk
      let ?st' = "?st\<lparr>current_record := False, otel_exported := otel_exported st + int (chunk_count st),
                      chunk_count := 0, chunk_bytes := 0, sent := sent st @ [recs]\<rparr>"
      have "sent ?st' = sent x @ (chunks @ [recs]) \<and> chunks_ok x (chunks @ [recs]) \<and>
          concat (chunks @ [recs]) = map otel_image rs \<and> otel_exported ?st' = int (length rs)"
        using c False len by (auto simp: chunks_ok_def)
      moreover have "same_limits x ?st'" using c(1) by (simp add: same_limits_def otel_inv_def)
      ultimately have "otel_flushed x rs ?st'" unfolding otel_flushed_def using c(2) by (auto simp del: concat_append)
      then show ?thesis using GrpcOk False c stub by (simp add: FlushChunk_def Let_def)
    next
      case (GrpcError m)
      obtain w' where w': "otel_failure penv m (?st\<lparr>current_record := False\<rparr>, w)
          = Some (?st\<lparr>current_record := False, otel_failures := otel_failures st + 1\<rparr>, w')" "stats_only w w'"
        using otel_failure_idle [OF assms(3), of m "?st\<lparr>current_record := False\<rparr>"] by auto
      have n: "0 \<le> otel_failures st" using c(1) by (simp add: same_limits_def otel_inv_def)
      then have "otel_part x rs (?st\<lparr>current_record := False, otel_failures := otel_failures st + 1\<rparr>)"
        by (intro part lim) simp_all
      then show ?thesis using GrpcError False c stub w' n by (simp add: FlushChunk_def Let_def)
    next
      case (GrpcThrows m)
      have "same_limits x ?st" using c(1) by (simp add: same_limits_def otel_inv_def)
      then have "otel_part x rs ?st" by (intro part) simp_all
      then show ?thesis using GrpcThrows False c stub by (simp add: FlushChunk_def Let_def)
    qed
  qed
qed

subsection \<open>Building a batch\<close>

definition otel_begun :: "otel_state \<Rightarrow> stat_row list \<Rightarrow> otel_state \<Rightarrow> bool" where
  "otel_begun x rs st \<longleftrightarrow> otel_live x rs st \<or> otel_dead x rs st"

text \<open>In the middle of a row: \<open>r\<close> is what has been appended of it.\<close>

definition otel_mid :: "otel_state \<Rightarrow> stat_row list \<Rightarrow> stat_row \<Rightarrow> otel_state \<Rightarrow> bool" where
  "otel_mid x rs r st \<longleftrightarrow>
     otel_dead x rs st \<or> otel_live x (rs @ [r]) st \<and> current_record st \<and> request st \<noteq> Some []"

lemma otel_live_lastE:
  assumes "otel_live x (rs @ [r]) st" and "request st \<noteq> Some []"
  obtains chunks recs where "same_limits x st" "\<not> batch_failed st" "sent st = sent x @ chunks" "chunks_ok x chunks"
    "request st = Some (recs @ [otel_image r])" "chunk_count st = length recs + 1"
    "length recs + 1 \<le> max_chunk_records x" "concat chunks @ recs = map otel_image rs"
    "otel_exported st = int (length (concat chunks))"
proof -
  obtain chunks recs where c: "same_limits x st" "\<not> batch_failed st" "sent st = sent x @ chunks" "chunks_ok x chunks"
      "request st = Some recs" "chunk_count st = length recs" "length recs \<le> max_chunk_records x"
      "concat chunks @ recs = map otel_image (rs @ [r])" "otel_exported st = int (length (concat chunks))"
    using assms(1) by (auto simp: otel_live_def)
  then obtain ys y where y: "recs = ys @ [y]" using assms(2) by (cases recs rule: rev_cases) auto
  then have "y = otel_image r" "concat chunks @ ys = map otel_image rs" using c(8) by simp_all
  with c y show ?thesis by (intro that [of chunks ys]) simp_all
qed

lemma otel_live_lastI:
  assumes "same_limits x st" "\<not> batch_failed st" "sent st = sent x @ chunks" "chunks_ok x chunks"
    "request st = Some (recs @ [otel_image r])" "chunk_count st = length recs + 1"
    "length recs + 1 \<le> max_chunk_records x" "concat chunks @ recs = map otel_image rs"
    "otel_exported st = int (length (concat chunks))"
  shows "otel_live x (rs @ [r]) st"
proof -
  have "concat chunks @ (recs @ [otel_image r]) = map otel_image (rs @ [r])" using assms(8) by simp
  moreover have "chunk_count st = length (recs @ [otel_image r])" "length (recs @ [otel_image r]) \<le> max_chunk_records x"
    using assms(6,7) by simp_all
  ultimately show ?thesis unfolding otel_live_def using assms by blast
qed

lemma otel_mid_part: "otel_mid x rs r st \<Longrightarrow> otel_part x rs st"
proof (unfold otel_mid_def, elim disjE conjE)
  assume "otel_live x (rs @ [r]) st" "request st \<noteq> Some []"
  then obtain chunks recs where c: "same_limits x st" "sent st = sent x @ chunks" "chunks_ok x chunks"
    "concat chunks @ recs = map otel_image rs" "otel_exported st = int (length (concat chunks))"
    by (rule otel_live_lastE) blast
  let ?k = "length (concat chunks)"
  have "?k \<le> length rs" "concat chunks = map otel_image (take ?k rs)"
    using arg_cong [OF c(4), of length] arg_cong [OF c(4), of "take ?k"] by (simp_all add: take_map)
  then show ?thesis unfolding otel_part_def using c by blast
qed (simp add: otel_dead_def)

lemma otel_mid_begun: "otel_mid x rs r st \<Longrightarrow> otel_begun x (rs @ [r]) st"
  using otel_dead_more by (auto simp: otel_mid_def otel_begun_def)

lemma add_log_record_spec:
  assumes "same_limits x st" "\<not> batch_failed st" "sent st = sent x @ chunks" "chunks_ok x chunks"
    "request st = Some recs" "chunk_count st = length recs" "length recs < max_chunk_records x"
    "concat chunks @ recs = map otel_image rs" "otel_exported st = int (length (concat chunks))"
  shows "\<exists>st'. add_log_record (st, w) = pg_ret (st', w) () \<and> otel_mid x rs [] st'"
proof -
  let ?st = "st\<lparr>request := Some (recs @ [new_record]), current_record := True,
                chunk_count := chunk_count st + 1, chunk_bytes := chunk_bytes st + kLogRecordOverheadBytes\<rparr>"
  have "otel_live x (rs @ [[]]) ?st"
    by (rule otel_live_lastI [of _ _ chunks recs]) (use assms in \<open>simp_all add: same_limits_def otel_inv_def\<close>)
  then have "otel_mid x rs [] ?st" by (simp add: otel_mid_def)
  then show ?thesis using assms(5) by (intro exI [of _ ?st]) (simp add: add_log_record_def)
qed

lemma BeginRow_spec:
  assumes "otel_begun x rs st" and "stub x" and "idle penv w"
  shows "ok_res (\<lambda>(st', w'). otel_part x rs st' \<and> stats_only w w')
     (\<lambda>(st', w') _. otel_mid x rs [] st' \<and> stats_only w w') (otel_call env penv BeginRow (st, w))"
proof (cases "batch_failed st")
  case True
  then have "otel_dead x rs st" using assms(1) by (auto simp: otel_begun_def otel_live_def)
  then show ?thesis using True by (simp add: otel_mid_def)
next
  case False
  then have live: "otel_live x rs st" using assms(1) by (auto simp: otel_begun_def otel_dead_def)
  then obtain chunks recs where c: "same_limits x st" "\<not> batch_failed st" "sent st = sent x @ chunks" "chunks_ok x chunks"
      "request st = Some recs" "chunk_count st = length recs" "length recs \<le> max_chunk_records x"
      "concat chunks @ recs = map otel_image rs" "otel_exported st = int (length (concat chunks))"
    by (auto simp: otel_live_def)
  show ?thesis
  proof (cases "ChunkFull st")
    case False
    then have "length recs < max_chunk_records x" using c by (simp add: ChunkFull_def same_limits_def)
    then obtain st' where "add_log_record (st, w) = pg_ret (st', w) ()" "otel_mid x rs [] st'"
      using add_log_record_spec [of x st chunks recs rs w] c by blast
    then show ?thesis using False c(2) by simp
  next
    case full: True
    have "ok_res (\<lambda>(st', w'). otel_part x rs st' \<and> stats_only w w')
     (\<lambda>(st', w') _. otel_mid x rs [] st' \<and> stats_only w w')
     (pg_bind (FlushChunk env penv (st, w)) (\<lambda>(st, w) ok.
          if \<not> ok then pg_ret (st\<lparr>batch_failed := True\<rparr>, w) () else add_log_record (ResetChunk st, w)))"
    proof (rule ok_bind [OF FlushChunk_spec [OF live assms(2,3)]])
      fix s ok
      assume s: "(case s of (st', w') \<Rightarrow> \<lambda>ok. stats_only w w' \<and>
        (if ok then otel_flushed x rs st'
         else otel_part x rs st' \<and> \<not> batch_failed st' \<and> \<not> current_record st' \<and> 0 < otel_failures st')) ok"
      obtain st' w' where s': "s = (st', w')" by (cases s)
      show "ok_res (\<lambda>(st', w'). otel_part x rs st' \<and> stats_only w w')
          (\<lambda>(st', w') _. otel_mid x rs [] st' \<and> stats_only w w')
          ((\<lambda>(st, w) ok. if \<not> ok then pg_ret (st\<lparr>batch_failed := True\<rparr>, w) ()
             else add_log_record (ResetChunk st, w)) s ok)"
      proof (cases ok)
        case True
        then obtain chunks' where f: "same_limits x st'" "\<not> batch_failed st'" "sent st' = sent x @ chunks'"
            "chunks_ok x chunks'" "concat chunks' = map otel_image rs" "otel_exported st' = int (length rs)"
          using s by (auto simp: s' otel_flushed_def)
        have len: "length (concat chunks') = length rs" unfolding f(5) by simp
        have pos: "0 < max_chunk_records x" using f(1) by (simp add: same_limits_def otel_inv_def)
        obtain st2 where "add_log_record (ResetChunk st', w') = pg_ret (st2, w') ()" "otel_mid x rs [] st2"
          using add_log_record_spec [of x "ResetChunk st'" chunks' "[]" rs w'] f pos len
          by (auto simp: ResetChunk_def same_limits_def otel_inv_def simp del: length_concat)
        then show ?thesis using True s by (simp add: s')
      next
        case False
        then have "otel_dead x rs (st'\<lparr>batch_failed := True\<rparr>)"
          using s by (auto simp: s' otel_dead_def otel_part_def same_limits_def otel_inv_def)
        then show ?thesis using False s by (simp add: s' otel_mid_def)
      qed
    qed
    then show ?thesis using full c(2) by simp
  qed
qed

lemma AppendValue_spec:
  assumes "otel_mid x rs r st"
  shows "\<exists>st'. otel_call env penv (AppendValue c v) (st, w) = pg_ret (st', w) () \<and> otel_mid x rs (r @ [(c, v)]) st'"
proof (cases "otel_dead x rs st")
  case True
  then show ?thesis by (auto simp: otel_mid_def otel_dead_def)
next
  case False
  then have live: "otel_live x (rs @ [r]) st" "current_record st" "request st \<noteq> Some []"
    using assms by (simp_all add: otel_mid_def)
  obtain chunks recs where k: "same_limits x st" "\<not> batch_failed st" "sent st = sent x @ chunks" "chunks_ok x chunks"
    "request st = Some (recs @ [otel_image r])" "chunk_count st = length recs + 1"
    "length recs + 1 \<le> max_chunk_records x" "concat chunks @ recs = map otel_image rs"
    "otel_exported st = int (length (concat chunks))"
    by (rule otel_live_lastE [OF live(1,3)])
  obtain rec n where a: "column_Append c v (otel_image r) = (rec, n)" by (cases "column_Append c v (otel_image r)")
  let ?st = "st\<lparr>request := Some (recs @ [rec]), chunk_bytes := chunk_bytes st + n\<rparr>"
  have "otel_live x (rs @ [r @ [(c, v)]]) ?st"
    by (rule otel_live_lastI [of _ _ chunks recs]) (use k a in \<open>simp_all add: same_limits_def otel_inv_def\<close>)
  then have "otel_mid x rs (r @ [(c, v)]) ?st" using live(2) by (simp add: otel_mid_def)
  then show ?thesis using live(2) k(5) a by (intro exI [of _ ?st]) simp
qed

lemma otel_append_values:
  assumes "otel_mid x rs r st" and "vt_call vt = otel_call env penv"
  shows "ok_res (\<lambda>(st', w'). otel_part x rs st' \<and> w' = w) (\<lambda>(st', w') _. otel_mid x rs (r @ r') st' \<and> w' = w)
     (run_calls throws vt i (map (\<lambda>(c, v). AppendValue c v) r') (st, w))"
  using assms(1)
proof (induction r' arbitrary: r st i)
  case (Cons cv r')
  obtain c v where cv: "cv = (c, v)" by (cases cv)
  obtain st' where s: "otel_call env penv (AppendValue c v) (st, w) = pg_ret (st', w) ()" "otel_mid x rs (r @ [(c, v)]) st'"
    using AppendValue_spec [OF Cons.prems] by blast
  show ?case using Cons.IH [OF s(2), of "i + 1"] s(1) otel_mid_part [OF Cons.prems] assms(2) by (simp add: cv)
qed simp

lemma otel_append_row:
  assumes "otel_begun x rs st" and "stub x" and "idle penv w" and "vt_call vt = otel_call env penv"
  shows "ok_res (\<lambda>(st', w'). otel_part x rs st' \<and> stats_only w w')
     (\<lambda>(st', w') _. otel_begun x (rs @ [r]) st' \<and> stats_only w w') (run_calls throws vt i (row_calls r) (st, w))"
proof -
  have p: "otel_part x rs st" using assms(1) otel_live_part by (auto simp: otel_begun_def otel_dead_def)
  have "ok_res (\<lambda>(st', w'). otel_part x rs st' \<and> stats_only w w')
     (\<lambda>(st', w') _. otel_begun x (rs @ [r]) st' \<and> stats_only w w')
     (pg_bind (otel_call env penv BeginRow (st, w))
        (\<lambda>s _. run_calls throws vt (i + 1) (map (\<lambda>(c, v). AppendValue c v) r) s))"
  proof (rule ok_bind [OF BeginRow_spec [OF assms(1-3)]])
    fix s and u :: unit
    assume s: "(case s of (st', w') \<Rightarrow> \<lambda>_. otel_mid x rs [] st' \<and> stats_only w w') u"
    obtain st' w' where s': "s = (st', w')" by (cases s)
    have m: "otel_mid x rs [] st'" "stats_only w w'" using s by (simp_all add: s')
    show "ok_res (\<lambda>(st', w'). otel_part x rs st' \<and> stats_only w w')
       (\<lambda>(st', w') _. otel_begun x (rs @ [r]) st' \<and> stats_only w w')
       (run_calls throws vt (i + 1) (map (\<lambda>(c, v). AppendValue c v) r) s)"
      unfolding s'
      by (rule ok_weaken [OF otel_append_values [OF m(1) assms(4)]]) (use m(2) otel_mid_begun in auto)
  qed
  then show ?thesis using p assms(4) by (simp add: row_calls_def)
qed

lemma otel_append_rows:
  assumes "otel_begun x rs0 st" and "stub x" and "idle penv w" and "vt_call vt = otel_call env penv"
  shows "ok_res (\<lambda>(st', w'). otel_part x (rs0 @ rs) st' \<and> stats_only w w')
     (\<lambda>(st', w') _. otel_begun x (rs0 @ rs) st' \<and> stats_only w w')
     (run_calls throws vt i (concat (map row_calls rs)) (st, w))"
  using assms(1,3)
proof (induction rs arbitrary: rs0 st w i)
  case (Cons r rs)
  have "ok_res (\<lambda>(st', w'). otel_part x (rs0 @ r # rs) st' \<and> stats_only w w')
     (\<lambda>(st', w') _. otel_begun x (rs0 @ r # rs) st' \<and> stats_only w w')
     (pg_bind (run_calls throws vt i (row_calls r) (st, w))
        (\<lambda>s _. run_calls throws vt (i + length (row_calls r)) (concat (map row_calls rs)) s))"
  proof (rule ok_bind)
    show "ok_res (\<lambda>(st', w'). otel_part x (rs0 @ r # rs) st' \<and> stats_only w w')
       (\<lambda>(st', w') _. otel_begun x (rs0 @ [r]) st' \<and> stats_only w w') (run_calls throws vt i (row_calls r) (st, w))"
      by (rule ok_weaken [OF otel_append_row [OF Cons.prems(1) assms(2) Cons.prems(2) assms(4)]])
         (auto intro: otel_part_more)
    fix s and u :: unit
    assume s: "(case s of (st', w') \<Rightarrow> \<lambda>_. otel_begun x (rs0 @ [r]) st' \<and> stats_only w w') u"
    obtain st' w' where s': "s = (st', w')" by (cases s)
    have m: "otel_begun x (rs0 @ [r]) st'" "stats_only w w'" using s by (simp_all add: s')
    have i: "idle penv w'" using Cons.prems(2) stats_only_idle [OF m(2)] by simp
    show "ok_res (\<lambda>(st', w'). otel_part x (rs0 @ r # rs) st' \<and> stats_only w w')
       (\<lambda>(st', w') _. otel_begun x (rs0 @ r # rs) st' \<and> stats_only w w')
       (run_calls throws vt (i + length (row_calls r)) (concat (map row_calls rs)) s)"
      unfolding s'
      by (rule ok_weaken [OF Cons.IH [OF m(1) i]]) (use m(2) in \<open>auto intro: stats_only_trans\<close>)
  qed
  then show ?case by (simp add: run_calls_append)
qed simp

lemma otel_make_columns:
  assumes "vt_call vt = otel_call env penv"
  shows "ok_res (\<lambda>s'. s' = s) (\<lambda>s' _. s' = s) (run_calls throws vt i (map MakeColumn cs) s)"
proof (induction cs arbitrary: i)
  case (Cons c cs)
  obtain st w where "s = (st, w)" by (cases s)
  with Cons [of "i + 1"] assms show ?case by simp
qed simp

lemma otel_export_calls:
  assumes "otel_inv x" and "stub x" and "idle penv w" and "vt_call vt = otel_call env penv"
  shows "ok_res (\<lambda>(st', w'). same_limits x st' \<and> stats_only w w' \<and>
        (\<exists>k\<le>length rs. concat (sent st') = concat (sent x) @ map otel_image (take k rs)))
     (\<lambda>(st', w') _. otel_begun x rs st' \<and> stats_only w w')
     (run_calls throws vt 0 (export_calls rs) (x, w))"
proof -
  let ?T = "\<lambda>(st', w'). same_limits x st' \<and> stats_only w w' \<and>
        (\<exists>k\<le>length rs. concat (sent st') = concat (sent x) @ map otel_image (take k rs))"
  let ?st = "ResetChunk (x\<lparr>otel_exported := 0, batch_failed := False\<rparr>)"
  have b: "otel_begun x [] ?st"
    using assms(1) by (simp add: otel_begun_def otel_live_def ResetChunk_def same_limits_def otel_inv_def chunks_ok_def)
  have t: "?T (st', w')" if "otel_part x rs st'" "stats_only w w'" for st' w'
    using that by (fastforce simp: otel_part_def)
  have t0: "?T (x, w)" "?T (?st, w)"
    using assms(1) by (auto simp: same_limits_def ResetChunk_def otel_inv_def intro!: exI [of _ 0])
  have "ok_res ?T (\<lambda>(st', w') _. otel_begun x rs st' \<and> stats_only w w')
     (pg_bind (run_calls throws vt 1 (map MakeColumn stat_columns) (?st, w))
        (\<lambda>s _. run_calls throws vt (1 + length (map MakeColumn stat_columns)) (concat (map row_calls rs)) s))"
  proof (rule ok_bind)
    show "ok_res ?T (\<lambda>s' _. s' = (?st, w)) (run_calls throws vt 1 (map MakeColumn stat_columns) (?st, w))"
      by (rule ok_weaken [OF otel_make_columns [OF assms(4)]]) (use t0(2) in auto)
    fix s and u :: unit assume s: "s = (?st, w)"
    show "ok_res ?T (\<lambda>(st', w') _. otel_begun x rs st' \<and> stats_only w w')
        (run_calls throws vt (1 + length (map MakeColumn stat_columns)) (concat (map row_calls rs)) s)"
      unfolding s
      by (rule ok_weaken [OF otel_append_rows [OF b assms(2-4)]]) (use t in auto)
  qed
  then show ?thesis using t0(1) assms(4) by (simp add: export_calls_def run_calls_append)
qed

subsection \<open>Committing a batch\<close>

lemma otel_CommitBatch_spec:
  assumes "otel_begun x rs st" and "stub x" and "idle penv w"
  shows "\<exists>st' w' ok. otel_CommitBatch env penv (st, w) = Some ((st', w'), ok) \<and> same_limits x st' \<and> stats_only w w' \<and>
     (\<exists>chunks k. sent st' = sent x @ chunks \<and> chunks_ok x chunks \<and> k \<le> length rs \<and>
        concat chunks = map otel_image (take k rs) \<and> otel_exported st' = int k \<and> (ok \<longrightarrow> k = length rs)) \<and>
     (if ok then otel_failures st' = 0 else 0 < otel_failures st')"
proof (cases "batch_failed st")
  case True
  then have "otel_dead x rs st" using assms(1) by (auto simp: otel_begun_def otel_live_def)
  then show ?thesis
    using True by (intro exI [of _ st] exI [of _ w] exI [of _ False])
      (auto simp: otel_CommitBatch_def otel_dead_def otel_part_def)
next
  case False
  then have live: "otel_live x rs st" using assms(1) by (auto simp: otel_begun_def otel_dead_def)
  then have stub: "stub st" using assms(2) by (simp add: otel_live_def same_limits_def)
  from FlushChunk_spec [OF live assms(2,3), of env] show ?thesis
  proof (cases rule: ok_resE)
    case (ret s ok)
    obtain st' w' where s: "s = (st', w')" by (cases s)
    show ?thesis
    proof (cases ok)
      case True
      then have f: "otel_flushed x rs st'" "stats_only w w'" using ret(2) by (simp_all add: s)
      then show ?thesis
        using False stub ret(1) True s
        by (intro exI [of _ "st'\<lparr>otel_failures := 0\<rparr>"] exI [of _ w'] exI [of _ True])
           (auto simp: otel_CommitBatch_def otel_flushed_def same_limits_def otel_inv_def)
    next
      case no: False
      then have f: "otel_part x rs st'" "stats_only w w'" "0 < otel_failures st'" using ret(2) by (simp_all add: s)
      then show ?thesis
        using False stub ret(1) no s
        by (intro exI [of _ st'] exI [of _ w'] exI [of _ False]) (auto simp: otel_CommitBatch_def otel_part_def)
    qed
  next
    case (throws s)
    obtain st' w' where s: "s = (st', w')" by (cases s)
    have f: "otel_part x rs st'" "stats_only w w'" using throws(2) by (simp_all add: s)
    have i: "idle penv w'" using assms(3) stats_only_idle [OF f(2)] by simp
    obtain w'' where w'': "otel_failure penv (thrown_text env st') (st', w')
        = Some (st'\<lparr>otel_failures := otel_failures st' + 1\<rparr>, w'')" "stats_only w' w''"
      using otel_failure_idle [OF i] by blast
    have "stats_only w w''" by (rule stats_only_trans [OF f(2) w''(2)])
    then show ?thesis
      using False stub throws(1) s f(1) w''(1)
      by (intro exI [of _ "st'\<lparr>otel_failures := otel_failures st' + 1\<rparr>"] exI [of _ w''] exI [of _ False])
         (auto simp: otel_CommitBatch_def otel_part_def same_limits_def otel_inv_def)
  qed
qed

lemma SendArrowBatch_spec:
  assumes "otel_inv st" and "idle penv w"
  shows "\<exists>st' w' ok. otel_SendArrowBatch env penv ipc_data n (st, w) = Some ((st', w'), ok) \<and>
     otel_inv st' \<and> stub st' = stub st \<and> stats_only w w' \<and> sent st' = sent st \<and>
     blocks st' = blocks st @ (if ok then [(ipc_data, n)] else []) \<and>
     ((\<forall>i. grpc env i = GrpcOk) \<and> stub st \<and> ipc_data \<noteq> [] \<and> n \<noteq> 0 \<longrightarrow> ok)"
proof -
  define f where "f m = the (PschRecordExportFailure penv (Some m) w)" for m
  have f: "PschRecordExportFailure penv (Some m) w = Some (f m) \<and> stats_only w (f m)" for m
    using record_failure_idle [OF assms(2), of "Some m"] by (auto simp: f_def)
  have "otel_SendArrowBatch env penv ipc_data n (st, w) \<noteq> None"
    using f by (auto simp: otel_SendArrowBatch_def otel_failure_def Let_def split: grpc_result.split)
  then obtain st' w' ok where s: "otel_SendArrowBatch env penv ipc_data n (st, w) = Some ((st', w'), ok)"
    by fastforce
  have "otel_inv st' \<and> stub st' = stub st \<and> stats_only w w' \<and> sent st' = sent st \<and>
     blocks st' = blocks st @ (if ok then [(ipc_data, n)] else []) \<and>
     ((\<forall>i. grpc env i = GrpcOk) \<and> stub st \<and> ipc_data \<noteq> [] \<and> n \<noteq> 0 \<longrightarrow> ok)"
    using s f assms(1)
    by (auto simp: otel_SendArrowBatch_def otel_failure_def Let_def otel_inv_def split: if_splits grpc_result.splits
        intro: exI [of _ "Suc (rpcs st)"])
  with s show ?thesis by blast
qed

interpretation otx: stats_exporter "MakeOpenTelemetryExporter g env penv" penv otel_inv
    "\<lambda>x rs st. stub x \<and> otel_begun x rs st" "\<lambda>st. concat (sent st)" otel_image blocks
  for g env penv
proof
  let ?vt = "MakeOpenTelemetryExporter g env penv"
  have calls: "vt_call ?vt = otel_call env penv" by (simp add: MakeOpenTelemetryExporter_def)
  show "otel_inv x' \<and> vt_IsConnected ?vt x' = ok \<and> concat (sent x') = concat (sent x) \<and> blocks x' = blocks x \<and>
      vt_NumConsecutiveFailures ?vt x' = vt_NumConsecutiveFailures ?vt x"
    if "otel_inv x" "vt_EstablishNewConnection ?vt x = (x', ok)" for x x' ok
    using that by (auto simp: MakeOpenTelemetryExporter_def otel_EstablishNewConnection_def ConfigureLogExport_def
        Let_def otel_inv_def split: if_splits)
  show "ok_res (\<lambda>(x', w'). otel_inv x' \<and> stats_only w w' \<and>
                (\<exists>k\<le>length rs. concat (sent x') = concat (sent x) @ map otel_image (take k rs)))
        (\<lambda>(x', w') _. (stub x \<and> otel_begun x rs x') \<and> stats_only w w')
        (run_calls throws ?vt 0 (export_calls rs) (x, w))"
    if x: "otel_inv x" "vt_IsConnected ?vt x" "idle penv w" "list_all row_ok rs" for x w rs throws
  proof -
    have "stub x" using x(2) by (simp add: MakeOpenTelemetryExporter_def)
    then show ?thesis
      by (intro ok_weaken [OF otel_export_calls [OF x(1) _ x(3) calls]]) (auto simp: same_limits_def)
  qed
  show "\<exists>x'' w' ok. vt_CommitBatch ?vt (x', w) = Some ((x'', w'), ok) \<and> otel_inv x'' \<and> stats_only w w' \<and>
        (ok \<longrightarrow> concat (sent x'') = concat (sent x) @ map otel_image rs \<and> vt_NumExported ?vt x'' = int (length rs) \<and>
               vt_NumConsecutiveFailures ?vt x'' = 0) \<and>
        (\<not> ok \<longrightarrow> (\<exists>k\<le>length rs. concat (sent x'') = concat (sent x) @ map otel_image (take k rs)) \<and>
               vt_NumExported ?vt x'' \<le> int (length rs) \<and> 0 < vt_NumConsecutiveFailures ?vt x'')"
    if b: "stub x \<and> otel_begun x rs x'" and w: "idle penv w" for x rs x' w
  proof -
    obtain x'' w' ok chunks k where c: "otel_CommitBatch env penv (x', w) = Some ((x'', w'), ok)" "same_limits x x''"
        "stats_only w w'" "sent x'' = sent x @ chunks" "k \<le> length rs" "concat chunks = map otel_image (take k rs)"
        "otel_exported x'' = int k" "ok \<longrightarrow> k = length rs" "if ok then otel_failures x'' = 0 else 0 < otel_failures x''"
      using otel_CommitBatch_spec [of x rs x' penv w env] b w by blast
    then show ?thesis
      by (intro exI [of _ x''] exI [of _ w'] exI [of _ ok])
         (auto simp: MakeOpenTelemetryExporter_def same_limits_def split: if_splits)
  qed
  show "\<exists>x' w' ok. vt_SendArrowBatch ?vt ipc_data n (x, w) = Some ((x', w'), ok) \<and> otel_inv x' \<and> stats_only w w' \<and>
        concat (sent x') = concat (sent x) \<and> vt_IsConnected ?vt x' = vt_IsConnected ?vt x \<and>
        blocks x' = blocks x @ (if ok then [(ipc_data, n)] else [])" if x: "otel_inv x" "idle penv w" for x w ipc_data n
  proof -
    obtain x' w' ok where "otel_SendArrowBatch env penv ipc_data n (x, w) = Some ((x', w'), ok)" "otel_inv x'"
        "stub x' = stub x" "stats_only w w'" "sent x' = sent x"
        "blocks x' = blocks x @ (if ok then [(ipc_data, n)] else [])"
      using SendArrowBatch_spec [OF x, of env ipc_data n] by blast
    then show ?thesis
      by (intro exI [of _ x'] exI [of _ w'] exI [of _ ok]) (simp add: MakeOpenTelemetryExporter_def)
  qed
qed (simp_all add: MakeOpenTelemetryExporter_def otel_inv_def)

subsection \<open>A collector that answers\<close>

lemma FlushChunk_ok:
  assumes "\<forall>i. grpc env i = GrpcOk" and "FlushChunk env penv (st, w) = Some ((st', w'), r)"
  shows "r = Ret True \<and> batch_failed st' = batch_failed st"
  using assms by (auto simp: FlushChunk_def Let_def pg_ret_def split: if_splits option.splits)

lemma otel_call_ok:
  assumes "\<forall>i. grpc env i = GrpcOk" and "otel_call env penv c (st, w) = Some ((st', w'), r)"
    and "\<not> batch_failed st"
  shows "\<not> batch_failed st'"
proof (cases c)
  case BeginRow
  have add: "\<not> batch_failed s'" if "add_log_record (s, v) = Some ((s', v'), q)" "\<not> batch_failed s" for s v s' v' q
    using that by (auto simp: add_log_record_def pg_ret_def split: option.splits)
  show ?thesis
  proof (cases "ChunkFull st")
    case True
    then have b: "pg_bind (FlushChunk env penv (st, w)) (\<lambda>(st, w) ok.
          if \<not> ok then pg_ret (st\<lparr>batch_failed := True\<rparr>, w) () else add_log_record (ResetChunk st, w)) = Some ((st', w'), r)"
      using assms(2,3) BeginRow by simp
    obtain s1 w1 q where f: "FlushChunk env penv (st, w) = Some ((s1, w1), q)"
      using b by (cases "FlushChunk env penv (st, w)") auto
    have "q = Ret True" "\<not> batch_failed s1" using FlushChunk_ok [OF assms(1) f] assms(3) by simp_all
    then show ?thesis using b f add [of "ResetChunk s1" w1 st' w' r] by (simp add: ResetChunk_def)
  qed (use assms(2,3) BeginRow add in simp)
qed (use assms(2,3) in \<open>auto simp: ResetChunk_def pg_ret_def Let_def split: if_splits option.splits prod.splits\<close>)

lemma run_calls_ok:
  assumes "\<forall>i. grpc env i = GrpcOk" and "vt_call vt = otel_call env penv"
  shows "run_calls throws vt i cs s = Some (s', r) \<Longrightarrow> \<not> batch_failed (fst s) \<Longrightarrow> \<not> batch_failed (fst s')"
proof (induction cs arbitrary: i s)
  case (Cons c cs)
  obtain st w where s: "s = (st, w)" by (cases s)
  show ?case
  proof (cases "throws i")
    case False
    then have b: "pg_bind (otel_call env penv c (st, w)) (\<lambda>s _. run_calls throws vt (i + 1) cs s) = Some (s', r)"
      using Cons.prems(1) assms(2) by (simp add: s)
    obtain st1 w1 q where c: "otel_call env penv c (st, w) = Some ((st1, w1), q)"
      using b by (cases "otel_call env penv c (st, w)") auto
    have "\<not> batch_failed st1" using otel_call_ok [OF assms(1) c] Cons.prems(2) by (simp add: s)
    then show ?thesis using b c Cons.IH [of "i + 1" "(st1, w1)"] by (cases q) auto
  qed (use Cons.prems in auto)
qed (auto simp: pg_ret_def)

lemma export_calls_ok:
  assumes "\<forall>i. grpc env i = GrpcOk" and "vt_call vt = otel_call env penv"
    and "run_calls throws vt 0 (export_calls rs) (x, w) = Some (s', Ret ())"
  shows "\<not> batch_failed (fst s')"
proof -
  have "run_calls throws vt 1 (map MakeColumn stat_columns @ concat (map row_calls rs))
      (ResetChunk (x\<lparr>otel_exported := 0, batch_failed := False\<rparr>), w) = Some (s', Ret ())"
    using assms(2,3) by (auto simp: export_calls_def split: if_splits)
  then show ?thesis by (rule run_calls_ok [OF assms(1,2)]) (simp add: ResetChunk_def)
qed

text \<open>
  C39. A batch for OpenTelemetry. Whatever gRPC and the allocator do, the confirmed requests
  hold, in order and without repetition, the log records of a prefix of the rows; no request
  is empty or has more than the configured number of records; the exporter's count is the
  length of that prefix, and a commit that succeeds has sent all rows. When every call
  succeeds, so does the commit.
\<close>

theorem otel_batch_chunked:
  assumes "otel_inv st" and "stub st" and "idle penv w"
  shows "ok_res (\<lambda>(st', w'). stats_only w w' \<and>
        (\<exists>k\<le>length rs. concat (sent st') = concat (sent st) @ map otel_image (take k rs)))
     (\<lambda>(st', w') _. \<exists>st'' w'' ok chunks k. otel_CommitBatch env penv (st', w') = Some ((st'', w''), ok) \<and>
        stats_only w w'' \<and> sent st'' = sent st @ chunks \<and>
        (\<forall>c\<in>set chunks. c \<noteq> [] \<and> length c \<le> max_chunk_records st) \<and>
        k \<le> length rs \<and> concat chunks = map otel_image (take k rs) \<and> otel_exported st'' = int k \<and>
        (ok \<longrightarrow> k = length rs) \<and> ((\<forall>i. grpc env i = GrpcOk) \<longrightarrow> ok))
     (run_calls throws (MakeOpenTelemetryExporter g env penv) 0 (export_calls rs) (st, w))"
proof -
  let ?vt = "MakeOpenTelemetryExporter g env penv"
  have calls: "vt_call ?vt = otel_call env penv" by (simp add: MakeOpenTelemetryExporter_def)
  from ok_conj [OF otel_export_calls [OF assms calls, of rs throws],
      where R = "\<lambda>s _. (\<forall>i. grpc env i = GrpcOk) \<longrightarrow> \<not> batch_failed (fst s)"]
  show ?thesis
  proof (rule ok_weaken)
    show "(\<forall>i. grpc env i = GrpcOk) \<longrightarrow> \<not> batch_failed (fst s)"
      if "run_calls throws ?vt 0 (export_calls rs) (st, w) = Some (s, Ret u)" for s u
      using that export_calls_ok [OF _ calls] by simp
  next
    fix s and u :: unit
    assume s: "(case s of (st', w') \<Rightarrow> \<lambda>_. otel_begun st rs st' \<and> stats_only w w') u \<and>
        ((\<forall>i. grpc env i = GrpcOk) \<longrightarrow> \<not> batch_failed (fst s))"
    obtain st' w' where s': "s = (st', w')" by (cases s)
    have b: "otel_begun st rs st'" "stats_only w w'" "(\<forall>i. grpc env i = GrpcOk) \<longrightarrow> \<not> batch_failed st'"
      using s by (simp_all add: s')
    have i: "idle penv w'" using assms(3) stats_only_idle [OF b(2)] by simp
    obtain st'' w'' ok chunks k where c: "otel_CommitBatch env penv (st', w') = Some ((st'', w''), ok)"
        "stats_only w' w''" "sent st'' = sent st @ chunks" "chunks_ok st chunks" "k \<le> length rs"
        "concat chunks = map otel_image (take k rs)" "otel_exported st'' = int k" "ok \<longrightarrow> k = length rs"
      using otel_CommitBatch_spec [OF b(1) assms(2) i, of env] by blast
    have "(\<forall>i. grpc env i = GrpcOk) \<longrightarrow> ok"
    proof
      assume all: "\<forall>i. grpc env i = GrpcOk"
      then show ok
        using c(1) b(3) FlushChunk_ok [OF all, of penv st' w']
        by (auto simp: otel_CommitBatch_def split: if_splits option.splits prod.splits outcome.splits)
    qed
    moreover have "stats_only w w''" by (rule stats_only_trans [OF b(2) c(2)])
    ultimately show "(case s of (st', w') \<Rightarrow> \<lambda>_. \<exists>st'' w'' ok chunks k.
        otel_CommitBatch env penv (st', w') = Some ((st'', w''), ok) \<and>
        stats_only w w'' \<and> sent st'' = sent st @ chunks \<and>
        (\<forall>c\<in>set chunks. c \<noteq> [] \<and> length c \<le> max_chunk_records st) \<and>
        k \<le> length rs \<and> concat chunks = map otel_image (take k rs) \<and> otel_exported st'' = int k \<and>
        (ok \<longrightarrow> k = length rs) \<and> ((\<forall>i. grpc env i = GrpcOk) \<longrightarrow> ok)) u"
      using c unfolding s' prod.case chunks_ok_def by blast
  qed auto
qed

definition otel_sample :: otel_env where
  "otel_sample = \<lparr>channel_ok = True, grpc = (\<lambda>_. GrpcOk), env_hostname = None, os_hostname = None\<rparr>"

definition otel_sample_conn :: otel_state where
  "otel_sample_conn = fst (otel_EstablishNewConnection guc_init otel_sample otel_new)"

lemma otel_sample_conn [simp]: "otel_inv otel_sample_conn" "stub otel_sample_conn"
  by (simp_all add: otel_sample_conn_def otel_EstablishNewConnection_def otel_sample_def Let_def
      ConfigureLogExport_def otel_inv_def otel_new_def)

theorem otel_batch_chunked_witness:
  "ok_res (\<lambda>_. True)
     (\<lambda>(st', w') _. \<exists>st'' w'' chunks. otel_CommitBatch otel_sample sample_env (st', w') = Some ((st'', w''), True) \<and>
        sent st'' = sent otel_sample_conn @ chunks \<and> concat chunks = map otel_image [sample_row, sample_row])
     (run_calls (\<lambda>_. False) (MakeOpenTelemetryExporter guc_init otel_sample sample_env) 0
        (export_calls [sample_row, sample_row]) (otel_sample_conn, boot_world guc_init))"
proof (rule ok_weaken [OF otel_batch_chunked [OF otel_sample_conn sample_idle]])
  have all: "\<forall>i. grpc otel_sample i = GrpcOk" by (simp add: otel_sample_def)
  fix s and u :: unit
  assume "(case s of (st', w') \<Rightarrow> \<lambda>_. \<exists>st'' w'' ok chunks k.
        otel_CommitBatch otel_sample sample_env (st', w') = Some ((st'', w''), ok) \<and>
        stats_only (boot_world guc_init) w'' \<and> sent st'' = sent otel_sample_conn @ chunks \<and>
        (\<forall>c\<in>set chunks. c \<noteq> [] \<and> length c \<le> max_chunk_records otel_sample_conn) \<and>
        k \<le> length [sample_row, sample_row] \<and> concat chunks = map otel_image (take k [sample_row, sample_row]) \<and>
        otel_exported st'' = int k \<and> (ok \<longrightarrow> k = length [sample_row, sample_row]) \<and>
        ((\<forall>i. grpc otel_sample i = GrpcOk) \<longrightarrow> ok)) u"
  then show "(case s of (st', w') \<Rightarrow> \<lambda>_. \<exists>st'' w'' chunks.
        otel_CommitBatch otel_sample sample_env (st', w') = Some ((st'', w''), True) \<and>
        sent st'' = sent otel_sample_conn @ chunks \<and> concat chunks = map otel_image [sample_row, sample_row]) u"
    using all by (cases s) fastforce
qed simp

end
