(* ===== verification/Psch_Exporter.thy ===== *)
theory Psch_Exporter
  imports Psch_Clickhouse_Batch Psch_Otel
begin

section \<open>The export driver (\<^verbatim>\<open>stats_exporter.cc\<close>)\<close>

text \<open>
  What the background worker calls: dequeue a batch, hand it to the backend through its
  virtual methods, keep the counters, and the retry delay. The backend is a
  \<open>'x StatsExporter\<close>, so everything here is proved once from the contract \<open>stats_exporter\<close> and
  holds for both. \<^verbatim>\<open>g_exporter.exporter\<close> is an \<open>'x option\<close> (\<^const>\<open>None\<close>: the null pointer). Two
  ways of leaving a function are kept apart: \<^const>\<open>Throw\<close> of \<open>PschExportBatch\<close> is
  \<^verbatim>\<open>ereport(ERROR)\<close>, which no C++ handler sees; a C++ exception is a value. Which allocations
  fail and what the exceptions say is \<open>export_env\<close>. Log messages and the Arrow dump files
  are left out.
\<close>

datatype cxx_exception = bad_alloc | std_exception "char list"

text \<open>What the two handlers of a barrier record: a fixed text, or \<^verbatim>\<open>e.what()\<close>.\<close>

primrec exc_text :: "char list \<Rightarrow> cxx_exception \<Rightarrow> char list" where
  "exc_text oom bad_alloc = oom"
| "exc_text oom (std_exception what) = what"

text \<open>
  \<open>reserve_exc\<close>: the exception of \<^verbatim>\<open>events.reserve\<close>; \<open>call_throws i\<close>, \<open>stats_exc\<close>: whether the \<open>i\<close>-th
  call of the batch throws, and what; \<open>arrow_exc i\<close>: the exception while the \<open>i\<close>-th event is
  put into an Arrow batch (at the number of events: while the last batch is finished);
  \<open>event_mem\<close>: the uninitialised local variable of \<^verbatim>\<open>DequeueEvents\<close>.
\<close>

record export_env =
  reserve_exc :: "cxx_exception option"
  call_throws :: "nat \<Rightarrow> bool"
  stats_exc :: cxx_exception
  arrow :: arrow_lib
  arrow_exc :: "nat \<Rightarrow> cxx_exception option"
  event_mem :: PschEvent
  version_text :: "char list"

definition kBaseDelayMs :: int where "kBaseDelayMs = 1000"
definition kMaxDelayMs :: int where "kMaxDelayMs = 60000"
definition kMaxConsecutiveFailures :: int where "kMaxConsecutiveFailures = 10"

subsection \<open>Dequeuing\<close>

function dequeue_loop ::
    "pg_env \<Rightarrow> nat \<Rightarrow> PschEvent \<Rightarrow> PschEvent list \<Rightarrow> world \<Rightarrow> (world, PschEvent list) pgres" where
  "dequeue_loop penv max_events event events w =
     (if length events < max_events then
        pg_bind (PschDequeueEvent penv event w)
          (\<lambda>w (found, event).
             if found then dequeue_loop penv max_events event (events @ [event]) w else pg_ret w events)
      else pg_ret w events)"
  by pat_completeness auto
termination
  by (relation "measure (\<lambda>(penv, max_events, event, events, w). max_events - length events)") auto

declare dequeue_loop.simps [simp del]

definition DequeueEvents ::
    "export_env \<Rightarrow> pg_env \<Rightarrow> int \<Rightarrow> world \<Rightarrow> (world, cxx_exception + PschEvent list) pgres" where
  "DequeueEvents e penv max_events w =
     (case reserve_exc e of
        Some exc \<Rightarrow> pg_ret w (Inl exc)
      | None \<Rightarrow> pg_bind (dequeue_loop penv (nat max_events) (event_mem e) [] w) (\<lambda>w events. pg_ret w (Inr events)))"

subsection \<open>Rows\<close>

definition catch_failure ::
    "pg_env \<Rightarrow> char list \<Rightarrow> cxx_exception \<Rightarrow> 'x \<times> world \<Rightarrow> ('x \<times> world) option" where
  "catch_failure penv oom exc s =
     map_option (\<lambda>w. (fst s, w)) (PschRecordExportFailure penv (Some (exc_text oom exc)) (snd s))"

text \<open>
  \<^verbatim>\<open>ExportEventStatsInternal\<close> reads every event before or between the calls; an event that
  cannot be read is undefined behaviour even if an earlier call throws.
\<close>

definition ExportEventStats ::
    "export_env \<Rightarrow> pg_env \<Rightarrow> 'x StatsExporter \<Rightarrow> PschEvent list \<Rightarrow> 'x \<times> world \<Rightarrow> (('x \<times> world) \<times> bool) option" where
  "ExportEventStats e penv vt events s =
     (case those (map event_row events) of
        None \<Rightarrow> None
      | Some rs \<Rightarrow>
          (case run_calls (call_throws e) vt 0 (export_calls rs) s of
             None \<Rightarrow> None
           | Some (s, Ret _) \<Rightarrow> Some (s, True)
           | Some (s, Throw) \<Rightarrow> map_option (\<lambda>s. (s, False)) (catch_failure penv ''event stats OOM'' (stats_exc e) s)))"

definition count_exported :: "pg_env \<Rightarrow> int \<Rightarrow> world \<Rightarrow> world option" where
  "count_exported penv n w =
     PschRecordExportSuccess penv
       (if psch_shared_state (snd w) then ((fst w)\<lparr>exported := exported (fst w) + word_of_int n\<rparr>, snd w) else w)"

subsection \<open>Arrow batches\<close>

text \<open>The state of the loop: the builder, \<^verbatim>\<open>total_exported\<close>, the exporter and the segment.\<close>

type_synonym 'x arrow_state = "Impl \<times> int \<times> 'x \<times> world"

definition flush_builder ::
    "arrow_lib \<Rightarrow> 'x StatsExporter \<Rightarrow> 'x arrow_state \<Rightarrow> ('x arrow_state \<times> bool) option" where
  "flush_builder lib vt st =
     (case st of (im, total_exported, s) \<Rightarrow>
        case Finish lib im of
          (im, None, n) \<Rightarrow> Some ((im, total_exported, s), False)
        | (im, Some buf, n) \<Rightarrow>
            if n = 0 then Some ((im, total_exported, s), False)
            else
              (case vt_SendArrowBatch vt buf n s of
                 None \<Rightarrow> None
               | Some (s, ok) \<Rightarrow>
                   if ok then Some ((im, total_exported + int n, s), True)
                   else Some ((im, total_exported, s), False)))"

text \<open>The result is \<^verbatim>\<open>export_failed\<close>, or the exception.\<close>

fun arrow_loop ::
    "export_env \<Rightarrow> nat \<Rightarrow> 'x StatsExporter \<Rightarrow> nat \<Rightarrow> PschEvent list \<Rightarrow> 'x arrow_state \<Rightarrow>
       ('x arrow_state \<times> (cxx_exception + bool)) option" where
  "arrow_loop e max_block_bytes vt i [] st = Some (st, Inr False)"
| "arrow_loop e max_block_bytes vt i (event # events) (im, total_exported, s) =
     (case arrow_exc e i of
        Some exc \<Rightarrow> Some ((im, total_exported, s), Inl exc)
      | None \<Rightarrow>
          (case Append (arrow e) event im of
             None \<Rightarrow> None
           | Some (im, False) \<Rightarrow> Some ((im, total_exported, s), Inr True)
           | Some (im, True) \<Rightarrow>
               if max_block_bytes \<le> unat (estimated_bytes im) then
                 (case flush_builder (arrow e) vt (im, total_exported, s) of
                    None \<Rightarrow> None
                  | Some (st, False) \<Rightarrow> Some (st, Inr True)
                  | Some ((im, total_exported, s), True) \<Rightarrow>
                      arrow_loop e max_block_bytes vt (i + 1) events (Reset im, total_exported, s))
               else arrow_loop e max_block_bytes vt (i + 1) events (im, total_exported, s)))"

definition ExportEventsAsArrowInternal ::
    "guc \<Rightarrow> export_env \<Rightarrow> pg_env \<Rightarrow> 'x StatsExporter \<Rightarrow> PschEvent list \<Rightarrow> 'x \<times> world \<Rightarrow>
       (('x \<times> world) \<times> (cxx_exception + int)) option" where
  "ExportEventsAsArrowInternal g e penv vt events s =
     (case Init (psch_extra_attributes g) (Some (version_text e)) Impl_new of
        (im, False) \<Rightarrow>
          map_option (\<lambda>w. ((fst s, w), Inr 0)) (PschRecordExportFailure penv (Some ''Arrow batch builder init failed'') (snd s))
      | (im, True) \<Rightarrow>
          (case arrow_loop e (max 65536 (nat (psch_otel_max_block_bytes g))) vt 0 events (im, 0, s) of
             None \<Rightarrow> None
           | Some ((im, total_exported, s), Inl exc) \<Rightarrow> Some (s, Inl exc)
           | Some ((im, total_exported, s), Inr export_failed) \<Rightarrow>
               (case (if \<not> export_failed \<and> 0 < num_rows im then
                        (case arrow_exc e (length events) of
                           Some exc \<Rightarrow> Some ((im, total_exported, s), Inl exc)
                         | None \<Rightarrow>
                             map_option (\<lambda>(st, ok). (st, Inr ok)) (flush_builder (arrow e) vt (im, total_exported, s)))
                      else Some ((im, total_exported, s), Inr (\<not> export_failed))) of
                  None \<Rightarrow> None
                | Some ((im, total_exported, s), Inl exc) \<Rightarrow> Some (s, Inl exc)
                | Some ((im, total_exported, x, w), Inr ok) \<Rightarrow>
                    map_option (\<lambda>w. ((x, w), Inr total_exported))
                      (if \<not> ok then PschRecordExportFailure penv (Some ''Arrow batch build/send failed'') w
                       else if 0 < total_exported then count_exported penv total_exported w
                       else Some w))))"

definition ExportEventsAsArrow ::
    "guc \<Rightarrow> export_env \<Rightarrow> pg_env \<Rightarrow> 'x StatsExporter \<Rightarrow> PschEvent list \<Rightarrow> 'x \<times> world \<Rightarrow> (('x \<times> world) \<times> int) option" where
  "ExportEventsAsArrow g e penv vt events s =
     (case ExportEventsAsArrowInternal g e penv vt events s of
        None \<Rightarrow> None
      | Some (s, Inr n) \<Rightarrow> Some (s, n)
      | Some (s, Inl exc) \<Rightarrow> map_option (\<lambda>s. (s, 0)) (catch_failure penv ''Arrow export OOM'' exc s))"

subsection \<open>One batch\<close>

definition export_rows ::
    "export_env \<Rightarrow> pg_env \<Rightarrow> 'x StatsExporter \<Rightarrow> PschEvent list \<Rightarrow> 'x \<times> world \<Rightarrow> ('x option \<times> world, int) pgres" where
  "export_rows e penv vt events s =
     (case ExportEventStats e penv vt events s of
        None \<Rightarrow> None
      | Some ((x, w), False) \<Rightarrow> Some ((Some x, w), Ret 0)
      | Some ((x, w), True) \<Rightarrow>
          (case vt_CommitBatch vt (x, w) of
             None \<Rightarrow> None
           | Some ((x, w), ok) \<Rightarrow>
               map_option (\<lambda>w. ((Some x, w), Ret (vt_NumExported vt x)))
                 (if ok then count_exported penv (vt_NumExported vt x) w else Some w)))"

definition PschExportBatch ::
    "guc \<Rightarrow> export_env \<Rightarrow> pg_env \<Rightarrow> 'x StatsExporter \<Rightarrow> 'x option \<times> world \<Rightarrow> ('x option \<times> world, int) pgres" where
  "PschExportBatch g e penv vt s =
     (case s of
        (None, w) \<Rightarrow> None
      | (Some x, w) \<Rightarrow>
          (case (if vt_IsConnected vt x then (x, True) else vt_EstablishNewConnection vt x) of
             (x, False) \<Rightarrow>
               map_option (\<lambda>w. ((Some x, w), Ret 0))
                 (PschRecordExportFailure penv (Some ''Failed to connect to exporter backend'') w)
           | (x, True) \<Rightarrow>
               (case DequeueEvents e penv (psch_batch_max g) w of
                  None \<Rightarrow> None
                | Some (w, Throw) \<Rightarrow> Some ((Some x, w), Throw)
                | Some (w, Ret (Inl exc)) \<Rightarrow>
                    map_option (\<lambda>(x, w). ((Some x, w), Ret 0)) (catch_failure penv ''export batch OOM'' exc (x, w))
                | Some (w, Ret (Inr events)) \<Rightarrow>
                    if events = [] then Some ((Some x, w), Ret 0)
                    else if psch_use_otel g \<and> psch_otel_arrow_passthrough g then
                      map_option (\<lambda>((x, w), n). ((Some x, w), Ret n)) (ExportEventsAsArrow g e penv vt events (x, w))
                    else export_rows e penv vt events (x, w))))"

subsection \<open>Construction, retry state, shutdown\<close>

datatype exporter_obj = ClickHouse ch_state | OpenTelemetry otel_state

text \<open>An exception of the construction ends the process (\<^verbatim>\<open>ereport(FATAL)\<close>).\<close>

definition PschExporterInit ::
    "guc \<Rightarrow> chc_env \<Rightarrow> otel_env \<Rightarrow> cxx_exception option \<Rightarrow> (exporter_obj \<times> bool) outcome" where
  "PschExporterInit g cenv oenv exc =
     (if exc \<noteq> None then Throw
      else if psch_use_otel g then
        Ret (case otel_EstablishNewConnection g oenv otel_new of (x, ok) \<Rightarrow> (OpenTelemetry x, ok))
      else
        Ret (case ch_EstablishNewConnection g cenv ch_new of (x, ok) \<Rightarrow> (ClickHouse x, ok)))"

definition PschResetRetryState :: "'x StatsExporter \<Rightarrow> 'x option \<Rightarrow> 'x option" where
  "PschResetRetryState vt x = map_option (vt_ResetFailures vt) x"

text \<open>\<^verbatim>\<open>1 << n\<close> and the product stay below \<open>2 ^ 31\<close>.\<close>

definition PschGetRetryDelayMs :: "'x StatsExporter \<Rightarrow> 'x option \<Rightarrow> int" where
  "PschGetRetryDelayMs vt x =
     (case x of
        None \<Rightarrow> 0
      | Some x \<Rightarrow>
          let failures = vt_NumConsecutiveFailures vt x
          in if failures \<le> 0 then 0
             else
               let capped_failures =
                     (if failures > kMaxConsecutiveFailures then kMaxConsecutiveFailures else failures);
                   delay = kBaseDelayMs * push_bit (nat (capped_failures - 1)) 1
               in if delay > kMaxDelayMs then kMaxDelayMs else delay)"

definition PschGetConsecutiveFailures :: "'x StatsExporter \<Rightarrow> 'x option \<Rightarrow> int" where
  "PschGetConsecutiveFailures vt x = (case x of None \<Rightarrow> 0 | Some x \<Rightarrow> vt_NumConsecutiveFailures vt x)"

definition PschExporterShutdown :: "'x option \<Rightarrow> 'x option" where
  "PschExporterShutdown x = None"

subsection \<open>What the worker finds in the queue\<close>

declare length_abs_queue [simp del]

text \<open>
  The part of a queued event that is copied as it is: array bounds, lengths of the names, and
  a start time whose nanoseconds fit in 64 bits.
\<close>

definition abs_exportable :: "abs_event \<Rightarrow> bool" where
  "abs_exportable a \<longleftrightarrow>
     (case a of (n, _, _) \<Rightarrow>
        length (datname n) = NAMEDATALEN \<and> length (username n) = NAMEDATALEN \<and>
        length (err_sqlstate n) = 6 \<and> length (application_name n) = NAMEDATALEN \<and>
        length (client_addr n) = INET6_ADDRSTRLEN \<and> unat (datname_len n) \<le> NAMEDATALEN \<and>
        unat (username_len n) \<le> NAMEDATALEN \<and> unix_ns (ts_start n) \<noteq> None)"

definition worker_ok :: "pg_env \<Rightarrow> world \<Rightarrow> bool" where
  "worker_ok penv w \<longleftrightarrow>
     queue_inv (fst w) \<and> proc_ready (fst w) (snd w) \<and> psch_dsa (snd w) \<and> idle penv w \<and>
     list_all abs_exportable (abs_queue (fst w))"

text \<open>The rows of queued events.\<close>

definition row_of_event :: "abs_event \<Rightarrow> stat_row \<Rightarrow> bool" where
  "row_of_event a r \<longleftrightarrow> (\<exists>ev. event_bufs ev \<and> out_event ev = a \<and> event_row ev = Some r)"

abbreviation rows_of :: "abs_event list \<Rightarrow> stat_row list \<Rightarrow> bool" where
  "rows_of \<equiv> list_all2 row_of_event"

lemma unix_ns_us: "unix_ns ts \<noteq> None \<Longrightarrow> unix_us ts \<noteq> None"
  by (auto simp: unix_ns_def unix_us_def Let_def split: if_splits)

lemma numeric_part_fields [simp]:
  "datname (numeric_part ev) = datname ev" "username (numeric_part ev) = username ev"
  "err_sqlstate (numeric_part ev) = err_sqlstate ev" "application_name (numeric_part ev) = application_name ev"
  "client_addr (numeric_part ev) = client_addr ev" "datname_len (numeric_part ev) = datname_len ev"
  "username_len (numeric_part ev) = username_len ev" "ts_start (numeric_part ev) = ts_start ev"
  by (simp_all add: numeric_part_def psch_fixed.truncate_def)

lemma abs_exportable_event:
  assumes "event_bufs ev" and "abs_exportable (out_event ev)"
  shows "exportable ev" "event_shape ev" "unix_ns (ts_start ev) \<noteq> None"
  using assms unix_ns_us [of "ts_start ev"]
  by (simp_all add: abs_exportable_def out_event_def exportable_def event_shape_def event_bufs_def)

lemma exportable_out_event:
  "exportable ev \<Longrightarrow> unix_ns (ts_start ev) \<noteq> None \<Longrightarrow> abs_exportable (out_event ev)"
  by (simp add: abs_exportable_def out_event_def exportable_def event_shape_def)

text \<open>A row is determined by the values in the queue.\<close>

lemma ClampFieldLen_take: "length buf = unat m \<Longrightarrow> take (unat (ClampFieldLen n m)) buf = take (unat n) buf"
  by (auto simp: ClampFieldLen_def word_le_nat_alt)

lemma worker_ok_stats:
  assumes "stats_only w w'" and "worker_ok penv w"
  shows "worker_ok penv w'"
proof -
  have "snd w' = snd w" using assms(1) by (simp add: stats_only_def)
  then show ?thesis
    using assms(2) stats_only_queue [OF assms(1)] stats_only_idle [OF assms(1)] by (simp add: worker_ok_def)
qed

lemma count_exported_idle:
  assumes "idle penv w" and "psch_shared_state (snd w)"
  shows "\<exists>w' sh. count_exported penv n w = Some w' \<and> exported (fst w') = exported (fst w) + word_of_int n \<and>
     sh = (fst w)\<lparr>exported := exported (fst w) + word_of_int n\<rparr> \<and> stats_only (sh, snd w) w'"
proof -
  let ?w = "((fst w)\<lparr>exported := exported (fst w) + word_of_int n\<rparr>, snd w)"
  have "idle penv ?w" using assms(1) by (simp add: idle_def)
  from record_success_idle [OF this] show ?thesis
    using assms(2) by (auto simp: count_exported_def)
qed

lemma queue_inv_exported [simp]:
  "queue_inv (sh\<lparr>exported := n\<rparr>) = queue_inv sh" "abs_queue (sh\<lparr>exported := n\<rparr>) = abs_queue sh"
  "proc_ready (sh\<lparr>exported := n\<rparr>) p = proc_ready sh p"
proof -
  have eq: "dsa_area (sh\<lparr>exported := n\<rparr>) = dsa_area sh" "intern_tab (sh\<lparr>exported := n\<rparr>) = intern_tab sh"
      "live (sh\<lparr>exported := n\<rparr>) = live sh"
    by (simp_all add: live_def)
  show "queue_inv (sh\<lparr>exported := n\<rparr>) = queue_inv sh"
    by (simp add: queue_inv_def heap_inv_cong [OF eq(1,2)] eq(3)) 
  show "abs_queue (sh\<lparr>exported := n\<rparr>) = abs_queue sh"
    by (simp add: abs_queue_def abs_slot_cong [OF eq(1)] eq(3))
qed (simp add: proc_ready_def)

lemma count_exported_ok:
  assumes "worker_ok penv w"
  shows "\<exists>w'. count_exported penv n w = Some w' \<and> worker_ok penv w' \<and> snd w' = snd w \<and>
     abs_queue (fst w') = abs_queue (fst w) \<and> exported (fst w') = exported (fst w) + word_of_int n"
proof -
  let ?w = "((fst w)\<lparr>exported := exported (fst w) + word_of_int n\<rparr>, snd w)"
  have ok: "worker_ok penv ?w" using assms by (simp add: worker_ok_def idle_def)
  obtain w' where c: "count_exported penv n w = Some w'" "stats_only ?w w'"
      "exported (fst w') = exported (fst w) + word_of_int n"
    using count_exported_idle [of penv w n] assms by (auto simp: worker_ok_def proc_ready_def)
  with worker_ok_stats [OF c(2) ok] stats_only_queue(2) [OF c(2)] show ?thesis
    by (auto simp: stats_only_def)
qed

subsection \<open>Dequeuing\<close>

text \<open>The loop ends: it returns the oldest events, as many as fit, and removes exactly them.\<close>

lemma dequeue_one:
  assumes "worker_ok penv w" and "event_bufs ev" and "abs_queue (fst w) = a # q"
  shows "\<exists>w' ev'. PschDequeueEvent penv ev w = Some (w', Ret (True, ev')) \<and> worker_ok penv w' \<and>
     snd w' = snd w \<and> event_bufs ev' \<and> out_event ev' = a \<and> abs_queue (fst w') = q \<and>
     exported (fst w') = exported (fst w)"
proof -
  obtain sh p where w: "w = (sh, p)" by (cases w)
  have i: "queue_inv sh" "proc_ready sh p" "psch_dsa p" "idle penv (sh, p)" "list_all abs_exportable (abs_queue sh)"
    using assms(1) by (simp_all add: worker_ok_def w)
  have ne: "head sh \<noteq> tail sh" using assms(3) by (auto simp: w abs_queue_def live_def)
  show ?thesis
  proof (rule PschDequeueEvent_spec [OF i(1) assms(2) i(2) ne, of penv])
    fix sh' p' ev'
    assume D: "PschDequeueEvent penv ev (sh, p) = Some ((sh', p'), Ret (True, ev'))" "same_proc p p'"
      "queue_inv sh'" "abs_queue sh = out_event ev' # abs_queue sh'" "event_bufs ev'"
      "queue_part sh' = queue_part (sh\<lparr>tail := tail sh + 1\<rparr>)"
    have p: "p' = p" using PschDequeueEvent_attached [OF i(3)] D(1) unfolding attached_ok_def by blast
    have "proc_ready sh' p'" using proc_ready_cong [OF D(6,2)] i(2) by (simp add: proc_ready_def)
    moreover have "lock sh' = lock sh" "exported sh' = exported sh"
      using arg_cong [OF D(6), of lock] arg_cong [OF D(6), of exported] by (simp_all add: queue_part_def)
    ultimately show ?thesis
      using D i assms(3) by (intro exI [of _ "(sh', p)"] exI [of _ ev']) (simp add: w p worker_ok_def idle_def)
  qed (use i in simp)
qed

lemma dequeue_loop_spec:
  assumes "worker_ok penv w" and "event_bufs ev"
  shows "\<exists>w' evs. dequeue_loop penv n ev acc w = Some (w', Ret (acc @ evs)) \<and> worker_ok penv w' \<and>
     snd w' = snd w \<and> list_all event_bufs evs \<and> map out_event evs = take (n - length acc) (abs_queue (fst w)) \<and>
     abs_queue (fst w') = drop (n - length acc) (abs_queue (fst w)) \<and> exported (fst w') = exported (fst w)"
  using assms
proof (induction penv n ev acc w rule: dequeue_loop.induct)
  case (1 penv n ev acc w)
  show ?case
  proof (cases "length acc < n")
    case room: True
    then obtain m where m: "n - length acc = Suc m" "n - length (acc @ [x]) = m" for x :: PschEvent
      by (metis One_nat_def Suc_diff_Suc add.commute length_append_singleton plus_1_eq_Suc)
    show ?thesis
    proof (cases "abs_queue (fst w)")
      case Nil
      then have "head (fst w) = tail (fst w)"
        by (simp add: abs_queue_def live_def ring_contents_eq_Nil)
      then have "PschDequeueEvent penv ev w = Some (w, Ret (False, ev))"
        using PschDequeueEvent_empty [of "snd w" "fst w"] "1.prems" by (simp add: worker_ok_def proc_ready_def)
      then have "dequeue_loop penv n ev acc w = Some (w, Ret acc)"
        using room by (subst dequeue_loop.simps) (simp add: pg_ret_def)
      then show ?thesis using Nil "1.prems" by (intro exI [of _ w] exI [of _ "[]"]) simp
    next
      case (Cons a q)
      obtain w1 ev1 where d: "PschDequeueEvent penv ev w = Some (w1, Ret (True, ev1))" "worker_ok penv w1"
          "snd w1 = snd w" "event_bufs ev1" "out_event ev1 = a" "abs_queue (fst w1) = q"
          "exported (fst w1) = exported (fst w)"
        using dequeue_one [OF "1.prems" Cons] by blast
      have eq: "dequeue_loop penv n ev acc w = dequeue_loop penv n ev1 (acc @ [ev1]) w1"
        using room d(1) by (subst dequeue_loop.simps) simp
      obtain w2 evs where r: "dequeue_loop penv n ev1 (acc @ [ev1]) w1 = Some (w2, Ret ((acc @ [ev1]) @ evs))"
          "worker_ok penv w2" "snd w2 = snd w1" "list_all event_bufs evs"
          "map out_event evs = take m q" "abs_queue (fst w2) = drop m q" "exported (fst w2) = exported (fst w1)"
        using "1.IH" [OF room TrueI d(2,4)] d(6) unfolding m(2) by auto
      show ?thesis
        unfolding eq m(1) Cons
        using r d by (intro exI [of _ w2] exI [of _ "ev1 # evs"]) simp
    qed
  next
    case False
    then show ?thesis
      using "1.prems" by (intro exI [of _ w] exI [of _ "[]"]) (subst dequeue_loop.simps, simp add: pg_ret_def)
  qed
qed

subsection \<open>Blocks of an Arrow export\<close>

text \<open>The blocks are the IPC encodings of these chunks of events.\<close>

definition block_of :: "arrow_lib \<Rightarrow> Impl \<Rightarrow> PschEvent list \<Rightarrow> char list \<times> nat \<Rightarrow> bool" where
  "block_of lib im chunk b \<longleftrightarrow>
     chunk \<noteq> [] \<and> snd b = length chunk \<and>
     ipc_buffer lib (arrow_schema, length chunk, arrow_columns im chunk) = Some (fst b)"

definition always_sends :: "arrow_lib \<Rightarrow> 'x StatsExporter \<Rightarrow> bool" where
  "always_sends lib vt \<longleftrightarrow>
     arrow_lib_ok lib \<and> (\<forall>b. ipc_buffer lib b \<noteq> Some []) \<and>
     (\<forall>buf n x w s ok. buf \<noteq> [] \<and> n \<noteq> 0 \<and> vt_IsConnected vt x \<and>
        vt_SendArrowBatch vt buf n (x, w) = Some (s, ok) \<longrightarrow> ok)"

lemma row_of_same: "same_attrs im im' \<Longrightarrow> row_of im' = row_of im"
  by (simp add: row_of_def row_attrs_cong fun_eq_iff)

lemma same_attrs_Reset [simp]: "same_attrs im (Reset im') = same_attrs im im'"
  by (simp add: same_attrs_def Reset_def)

lemma event_rows:
  assumes "list_all event_bufs evs" and "list_all abs_exportable (map out_event evs)"
  shows "\<exists>rs. those (map event_row evs) = Some rs \<and> rows_of (map out_event evs) rs \<and> list_all row_ok rs \<and>
     length rs = length evs"
  using assms
proof (induction evs)
  case (Cons ev evs)
  then obtain rs where rs: "those (map event_row evs) = Some rs" "rows_of (map out_event evs) rs"
      "list_all row_ok rs" "length rs = length evs"
    by auto
  have b: "event_bufs ev" "abs_exportable (out_event ev)" using Cons.prems by simp_all
  then obtain r where r: "event_row ev = Some r"
    using event_row_exportable [OF abs_exportable_event(1)] by blast
  then have "row_of_event (out_event ev) r" using b by (auto simp: row_of_event_def)
  with rs r event_row_ok [OF r] show ?case by simp
qed simp

lemma rows_of_length: "rows_of q rs \<Longrightarrow> length rs = length q"
  by (simp add: list_all2_lengthD)

lemma catch_failure_ok:
  assumes "worker_ok penv w"
  shows "\<exists>w'. catch_failure penv oom exc (x, w) = Some (x, w') \<and> stats_only w w'"
  using assms record_failure_idle [of penv w "Some (exc_text oom exc)"] by (auto simp: catch_failure_def worker_ok_def)

subsection \<open>What a batch has done\<close>

text \<open>
  The events \<open>q\<close> that were taken from the queue are rows; a prefix of them is delivered. When
  the batch is committed it is all of them, and only then \<^verbatim>\<open>exported\<close> counts them.
\<close>

definition rows_exported ::
    "('x \<Rightarrow> 'r list) \<Rightarrow> (stat_row \<Rightarrow> 'r) \<Rightarrow> abs_event list \<Rightarrow> 'x \<times> world \<Rightarrow> 'x \<times> world \<Rightarrow> int \<Rightarrow> bool \<Rightarrow> bool" where
  "rows_exported delivered img q s s' n ok \<longleftrightarrow>
     (\<exists>rs j. rows_of q rs \<and> j \<le> length q \<and> delivered (fst s') = delivered (fst s) @ map img (take j rs) \<and>
        (if ok then j = length q \<and> n = int (length q) \<and>
                    exported (fst (snd s')) = exported (fst (snd s)) + word_of_int n
         else exported (fst (snd s')) = exported (fst (snd s))))"

text \<open>The same for Arrow: consecutive chunks of the events, each of them a block.\<close>

definition blocks_exported ::
    "arrow_lib \<Rightarrow> Impl \<Rightarrow> ('x \<Rightarrow> (char list \<times> nat) list) \<Rightarrow> abs_event list \<Rightarrow> 'x \<times> world \<Rightarrow> 'x \<times> world \<Rightarrow> int \<Rightarrow> bool \<Rightarrow> bool"
  where
  "blocks_exported lib im arrow_blocks q s s' n ok \<longleftrightarrow>
     (\<exists>chunks bs rest. map out_event (concat chunks @ rest) = q \<and>
        arrow_blocks (fst s') = arrow_blocks (fst s) @ bs \<and> list_all2 (block_of lib im) chunks bs \<and>
        n \<le> int (length (concat chunks)) \<and>
        (if ok then rest = [] \<and> n = int (length q) \<and>
                    exported (fst (snd s')) = exported (fst (snd s)) + word_of_int n
         else exported (fst (snd s')) = exported (fst (snd s))))"

definition as_arrow :: "guc \<Rightarrow> bool" where
  "as_arrow g \<longleftrightarrow> psch_use_otel g \<and> psch_otel_arrow_passthrough g"

text \<open>
  A backend that answers: it connects, no call throws of its own accord, and a batch whose
  calls went through is committed.
\<close>

definition answers :: "'x StatsExporter \<Rightarrow> pg_env \<Rightarrow> ('x \<Rightarrow> bool) \<Rightarrow> bool" where
  "answers vt penv I \<longleftrightarrow>
     (\<forall>x. I x \<longrightarrow> vt_IsConnected vt x \<or> snd (vt_EstablishNewConnection vt x)) \<and>
     (\<forall>x w rs. I x \<and> vt_IsConnected vt x \<and> idle penv w \<and> list_all row_ok rs \<longrightarrow>
        (\<exists>s. run_calls (\<lambda>_. False) vt 0 (export_calls rs) (x, w) = Some (s, Ret ()) \<and>
           (\<forall>w' s' ok. idle penv w' \<and> vt_CommitBatch vt (fst s, w') = Some (s', ok) \<longrightarrow> ok)))"

text \<open>The worker's invariant, and the queue.\<close>

definition leaves :: "pg_env \<Rightarrow> world \<Rightarrow> abs_event list \<Rightarrow> world \<Rightarrow> bool" where
  "leaves penv w q w' \<longleftrightarrow> worker_ok penv w' \<and> snd w' = snd w \<and> abs_queue (fst w') = q"

lemma leaves_stats:
  assumes "leaves penv w q w1" and "stats_only w1 w2"
  shows "leaves penv w q w2" "exported (fst w2) = exported (fst w1)"
  using assms worker_ok_stats [OF assms(2)] stats_only_queue(2) [OF assms(2)]
  by (simp_all add: leaves_def stats_only_def)

lemma leaves_failure:
  assumes "leaves penv w q w1"
  shows "\<exists>w2. PschRecordExportFailure penv m w1 = Some w2 \<and> leaves penv w q w2 \<and> exported (fst w2) = exported (fst w1)"
proof -
  have "idle penv w1" using assms by (simp add: leaves_def worker_ok_def)
  from record_failure_idle [OF this, of m] leaves_stats [OF assms] show ?thesis by blast
qed

lemma leaves_count:
  assumes "leaves penv w q w1"
  shows "\<exists>w2. count_exported penv n w1 = Some w2 \<and> leaves penv w q w2 \<and>
     exported (fst w2) = exported (fst w1) + word_of_int n"
  using count_exported_ok [of penv w1 n] assms unfolding leaves_def by metis

context stats_exporter
begin

lemma ExportEventStats_spec:
  assumes x: "inv x" "vt_IsConnected vt x" and w: "worker_ok penv w"
    and evs: "list_all event_bufs evs" "list_all abs_exportable (map out_event evs)"
  shows "\<exists>x' w' ok rs. ExportEventStats e penv vt evs (x, w) = Some ((x', w'), ok) \<and> stats_only w w' \<and>
     those (map event_row evs) = Some rs \<and> rows_of (map out_event evs) rs \<and> list_all row_ok rs \<and> length rs = length evs \<and>
     (if ok then begun x rs x'
      else inv x' \<and> (\<exists>k\<le>length rs. delivered x' = delivered x @ map image (take k rs))) \<and>
     (answers vt penv inv \<and> call_throws e = (\<lambda>_. False) \<longrightarrow>
        ok \<and> (\<forall>w'' s ok'. idle penv w'' \<and> vt_CommitBatch vt (x', w'') = Some (s, ok') \<longrightarrow> ok'))"
proof -
  obtain rs where rs: "those (map event_row evs) = Some rs" "rows_of (map out_event evs) rs" "list_all row_ok rs"
      "length rs = length evs"
    using event_rows [OF evs] by blast
  have i: "idle penv w" using w by (simp add: worker_ok_def)
  have ans: "\<exists>s. run_calls (call_throws e) vt 0 (export_calls rs) (x, w) = Some (s, Ret ()) \<and>
      (\<forall>w' s' ok. idle penv w' \<and> vt_CommitBatch vt (fst s, w') = Some (s', ok) \<longrightarrow> ok)"
    if "answers vt penv inv" "call_throws e = (\<lambda>_. False)"
    unfolding that(2) using that(1) x i rs(3) unfolding answers_def by blast
  from rows_law [OF x i rs(3), of "call_throws e"] show ?thesis
  proof (cases rule: ok_resE)
    case (ret s u)
    obtain x' w' where s: "s = (x', w')" by (cases s)
    have "begun x rs x'" "stats_only w w'" using ret(2) by (simp_all add: s)
    moreover have "answers vt penv inv \<and> call_throws e = (\<lambda>_. False) \<longrightarrow>
        (\<forall>w'' s ok'. idle penv w'' \<and> vt_CommitBatch vt (x', w'') = Some (s, ok') \<longrightarrow> ok')"
    proof (intro impI)
      assume "answers vt penv inv \<and> call_throws e = (\<lambda>_. False)"
      then show "\<forall>w'' s ok'. idle penv w'' \<and> vt_CommitBatch vt (x', w'') = Some (s, ok') \<longrightarrow> ok'"
        using ans ret(1) by (simp only: s) (metis fst_conv option.inject prod.inject)
    qed
    ultimately show ?thesis
      using ret(1) rs by (intro exI [of _ x'] exI [of _ w'] exI [of _ True] exI [of _ rs])
        (simp add: ExportEventStats_def s)
  next
    case (throws s)
    obtain x' w1 where s: "s = (x', w1)" by (cases s)
    have p: "inv x'" "stats_only w w1" "\<exists>k\<le>length rs. delivered x' = delivered x @ map image (take k rs)"
      using throws(2) by (simp_all add: s)
    obtain w' where c: "catch_failure penv ''event stats OOM'' (stats_exc e) (x', w1) = Some (x', w')" "stats_only w1 w'"
      using catch_failure_ok [OF worker_ok_stats [OF p(2) w], of "''event stats OOM''" "stats_exc e" x'] by blast
    moreover have not: "\<not> (answers vt penv inv \<and> call_throws e = (\<lambda>_. False))" using ans throws(1) by force
    ultimately show ?thesis
      using throws(1) rs p stats_only_trans [OF p(2) c(2)] not
      by (intro exI [of _ x'] exI [of _ w'] exI [of _ False] exI [of _ rs]) (simp add: ExportEventStats_def s)
  qed
qed

lemma flush_builder_spec:
  assumes "inv x" and "idle penv w" and "batch_rows im pend"
  shows "\<exists>im' t' x' w' ok. flush_builder lib vt (im, t, x, w) = Some ((im', t', x', w'), ok) \<and> inv x' \<and>
     stats_only w w' \<and> delivered x' = delivered x \<and> vt_IsConnected vt x' = vt_IsConnected vt x \<and>
     (if ok then same_attrs im im' \<and> t' = t + int (length pend) \<and>
              (\<exists>b. arrow_blocks x' = arrow_blocks x @ [b] \<and> block_of lib im pend b)
      else t' = t \<and> arrow_blocks x' = arrow_blocks x) \<and>
     (always_sends lib vt \<and> vt_IsConnected vt x \<and> pend \<noteq> [] \<longrightarrow> ok)"
proof -
  obtain im1 r n where f: "Finish lib im = (im1, r, n)" by (cases "Finish lib im")
  show ?thesis
  proof (cases r)
    case None
    then have "flush_builder lib vt (im, t, x, w) = Some ((im1, t, x, w), False)"
      by (simp add: flush_builder_def f)
    moreover have "pend = [] \<or> \<not> always_sends lib vt"
      using Finish_total [OF _ assms(3), of lib] f None by (auto simp: always_sends_def)
    ultimately show ?thesis
      using assms(1) by (intro exI [of _ im1] exI [of _ t] exI [of _ x] exI [of _ w] exI [of _ False]) auto
  next
    case (Some buf)
    have F: "n = length pend" "pend \<noteq> []" "same_attrs im im1"
        "ipc_buffer lib (arrow_schema, length pend, arrow_columns im pend) = Some buf"
      using Finish_rows [OF assms(3), of lib im1 buf n] f Some by simp_all
    obtain x' w' ok where s: "vt_SendArrowBatch vt buf n (x, w) = Some ((x', w'), ok)" "inv x'" "stats_only w w'"
        "delivered x' = delivered x" "vt_IsConnected vt x' = vt_IsConnected vt x"
        "arrow_blocks x' = arrow_blocks x @ (if ok then [(buf, n)] else [])"
      using arrow_law [OF assms(1,2), of buf n] by blast
    have "always_sends lib vt \<and> vt_IsConnected vt x \<longrightarrow> ok"
    proof
      assume a: "always_sends lib vt \<and> vt_IsConnected vt x"
      have "ipc_buffer lib b \<noteq> Some []" for b using a unfolding always_sends_def by blast
      then have "buf \<noteq> []" using F(4) by auto
      then show ok using a s(1) F(1,2) unfolding always_sends_def by blast
    qed
    moreover have "flush_builder lib vt (im, t, x, w) =
        Some ((im1, if ok then t + int n else t, x', w'), ok)"
      using F(1,2) s(1) by (simp add: flush_builder_def f Some)
    moreover have "block_of lib im pend (buf, n)" using F by (simp add: block_of_def)
    ultimately show ?thesis
      using s F by (intro exI [of _ im1] exI [of _ "if ok then t + int n else t"] exI [of _ x'] exI [of _ w']
          exI [of _ ok]) auto
  qed
qed

text \<open>Consecutive chunks of the events have been sent; the rest is in the builder.\<close>

lemma arrow_loop_spec:
  assumes "inv x" and "idle penv w" and "batch_rows im pend" and "same_attrs im0 im"
    and "\<forall>ev\<in>set evs. row_of im0 ev \<noteq> None"
  shows "\<exists>im' t' x' w' r chunks bs rest. arrow_loop e m vt i evs (im, t, x, w) = Some ((im', t', x', w'), r) \<and>
     inv x' \<and> stats_only w w' \<and> delivered x' = delivered x \<and> vt_IsConnected vt x' = vt_IsConnected vt x \<and>
     arrow_blocks x' = arrow_blocks x @ bs \<and> list_all2 (block_of (arrow e) im0) chunks bs \<and>
     t' = t + int (length (concat chunks)) \<and> concat chunks @ rest = pend @ evs \<and>
     (r = Inr False \<longrightarrow> batch_rows im' rest \<and> same_attrs im0 im') \<and>
     (always_sends (arrow e) vt \<and> vt_IsConnected vt x \<and> (\<forall>j<i + length evs. arrow_exc e j = None) \<longrightarrow> r = Inr False)"
  using assms
proof (induction evs arbitrary: i im t x w pend)
  case Nil
  then show ?case
    by (intro exI [of _ im] exI [of _ t] exI [of _ x] exI [of _ w] exI [of _ "Inr False"] exI [of _ "[]"]
        exI [of _ "[]"] exI [of _ pend]) simp
next
  case (Cons ev evs)
  have stop: ?case if "arrow_loop e m vt i (ev # evs) (im, t, x, w) = Some ((im1, t, x1, w1), r)" "r \<noteq> Inr False"
      "inv x1" "stats_only w w1" "delivered x1 = delivered x" "vt_IsConnected vt x1 = vt_IsConnected vt x"
      "arrow_blocks x1 = arrow_blocks x"
      "\<not> (always_sends (arrow e) vt \<and> vt_IsConnected vt x \<and> (\<forall>j<i + length (ev # evs). arrow_exc e j = None))"
    for im1 x1 w1 r
    using that
    by (intro exI [of _ im1] exI [of _ t] exI [of _ x1] exI [of _ w1] exI [of _ r] exI [of _ "[]"]
        exI [of _ "[]"] exI [of _ "pend @ ev # evs"]) simp
  show ?case
  proof (cases "arrow_exc e i")
    case (Some exc)
    then have "\<not> (\<forall>j<i + length (ev # evs). arrow_exc e j = None)" by (auto intro!: exI [of _ i])
    with Some show ?thesis using Cons.prems(1) by (intro stop [of im x w "Inl exc"]) auto
  next
    case None
    obtain cells where "row_of im ev = Some cells"
      using Cons.prems(4,5) row_of_same by fastforce
    then obtain im1 ok where A: "Append (arrow e) ev im = Some (im1, ok)" "same_attrs im im1"
        "ok \<Longrightarrow> batch_rows im1 (pend @ [ev])" "arrow_lib_ok (arrow e) \<Longrightarrow> ok"
      using Append_rows [OF Cons.prems(3), of ev cells "arrow e"] by metis
    have s1: "same_attrs im0 im1" by (rule same_attrs_trans [OF Cons.prems(4) A(2)])
    have rest: "\<forall>ev\<in>set evs. row_of im0 ev \<noteq> None" using Cons.prems(5) by simp
    show ?thesis
    proof (cases ok)
      case False
      then have "\<not> always_sends (arrow e) vt" using A(4) by (auto simp: always_sends_def)
      with False None A(1) show ?thesis using Cons.prems(1) by (intro stop [of im1 x w "Inr True"]) auto
    next
      case ok: True
      show ?thesis
      proof (cases "m \<le> unat (estimated_bytes im1)")
        case False
        then have eq: "arrow_loop e m vt i (ev # evs) (im, t, x, w) = arrow_loop e m vt (i + 1) evs (im1, t, x, w)"
          using None A(1) ok by simp
        show ?thesis
          unfolding eq using Cons.IH [OF Cons.prems(1,2) A(3) [OF ok] s1 rest, of "i + 1" t] by simp
      next
        case full: True
        obtain im2 t2 x2 w2 ok2 where F: "flush_builder (arrow e) vt (im1, t, x, w) = Some ((im2, t2, x2, w2), ok2)"
            "inv x2" "stats_only w w2" "delivered x2 = delivered x" "vt_IsConnected vt x2 = vt_IsConnected vt x"
            "if ok2 then same_attrs im1 im2 \<and> t2 = t + int (length (pend @ [ev])) \<and>
                  (\<exists>b. arrow_blocks x2 = arrow_blocks x @ [b] \<and> block_of (arrow e) im1 (pend @ [ev]) b)
             else t2 = t \<and> arrow_blocks x2 = arrow_blocks x"
            "always_sends (arrow e) vt \<and> vt_IsConnected vt x \<and> pend @ [ev] \<noteq> [] \<longrightarrow> ok2"
          using flush_builder_spec [OF Cons.prems(1,2) A(3) [OF ok], of "arrow e" t] by blast
        show ?thesis
        proof (cases ok2)
          case False
          with F None A(1) ok full show ?thesis by (intro stop [of im2 x2 w2 "Inr True"]) auto
        next
          case True
          then obtain b where b: "same_attrs im1 im2" "t2 = t + int (length (pend @ [ev]))"
              "arrow_blocks x2 = arrow_blocks x @ [b]" "block_of (arrow e) im1 (pend @ [ev]) b"
            using F(6) by auto
          have eq: "arrow_loop e m vt i (ev # evs) (im, t, x, w) = arrow_loop e m vt (i + 1) evs (Reset im2, t2, x2, w2)"
            using None A(1) ok full F(1) True by simp
          have s2: "same_attrs im0 (Reset im2)" using same_attrs_trans [OF s1 b(1)] by simp
          have sch: "schema im2 = Some arrow_schema"
            using A(3) [OF ok] b(1) by (simp add: batch_rows_def same_attrs_def)
          have i2: "idle penv w2" using Cons.prems(2) stats_only_idle [OF F(3)] by simp
          obtain im' t' x' w' r chunks bs rst where R:
              "arrow_loop e m vt (i + 1) evs (Reset im2, t2, x2, w2) = Some ((im', t', x', w'), r)"
              "inv x'" "stats_only w2 w'" "delivered x' = delivered x2" "vt_IsConnected vt x' = vt_IsConnected vt x2"
              "arrow_blocks x' = arrow_blocks x2 @ bs" "list_all2 (block_of (arrow e) im0) chunks bs"
              "t' = t2 + int (length (concat chunks))" "concat chunks @ rst = [] @ evs"
              "r = Inr False \<longrightarrow> batch_rows im' rst \<and> same_attrs im0 im'"
              "always_sends (arrow e) vt \<and> vt_IsConnected vt x2 \<and> (\<forall>j<i + 1 + length evs. arrow_exc e j = None) \<longrightarrow>
                 r = Inr False"
            using Cons.IH [OF F(2) i2 Reset_rows [OF sch] s2 rest, of "i + 1" t2] by blast
          have "block_of (arrow e) im0 (pend @ [ev]) b"
            using b(4) by (simp add: block_of_def arrow_columns_cong [OF s1])
          then show ?thesis
            unfolding eq using R F(4,5) b(2,3) stats_only_trans [OF F(3) R(3)]
            by (intro exI [of _ im'] exI [of _ t'] exI [of _ x'] exI [of _ w'] exI [of _ r]
                exI [of _ "(pend @ [ev]) # chunks"] exI [of _ "b # bs"] exI [of _ rst]) simp
        qed
      qed
    qed
  qed
qed

lemma ExportEventsAsArrow_spec:
  assumes x: "inv x" and w: "leaves penv w0 q w" and evs: "list_all event_bufs evs" "evs \<noteq> []"
      "list_all abs_exportable (map out_event evs)"
  shows "\<exists>x' w' n ok. ExportEventsAsArrow g e penv vt evs (x, w) = Some ((x', w'), n) \<and> inv x' \<and> leaves penv w0 q w' \<and>
     blocks_exported (arrow e) (fst (Init (psch_extra_attributes g) (Some (version_text e)) Impl_new)) arrow_blocks
       (map out_event evs) (x, w) (x', w') n ok \<and>
     (always_sends (arrow e) vt \<and> vt_IsConnected vt x \<and> (\<forall>i. arrow_exc e i = None) \<longrightarrow> ok)"
proof -
  define im0 where "im0 = fst (Init (psch_extra_attributes g) (Some (version_text e)) Impl_new)"
  let ?m = "max 65536 (nat (psch_otel_max_block_bytes g))"
  let ?R = "\<lambda>s' n ok. blocks_exported (arrow e) im0 arrow_blocks (map out_event evs) (x, w) s' n ok"
  have Init: "Init (psch_extra_attributes g) (Some (version_text e)) Impl_new = (im0, True)"
    by (simp add: im0_def Init_def Let_def)
  have rows0: "batch_rows im0 []" by (simp only: im0_def Init_rows)
  have i: "idle penv w" using w by (simp add: leaves_def worker_ok_def)
  have rows: "\<forall>ev\<in>set evs. row_of im0 ev \<noteq> None"
    by (intro ballI row_of_shape abs_exportable_event(2,3)) (use evs in \<open>auto simp: list_all_iff\<close>)
  obtain im t x1 w1 r chunks bs rest where L:
      "arrow_loop e ?m vt 0 evs (im0, 0, x, w) = Some ((im, t, x1, w1), r)" "inv x1" "stats_only w w1"
      "vt_IsConnected vt x1 = vt_IsConnected vt x" "arrow_blocks x1 = arrow_blocks x @ bs"
      "list_all2 (block_of (arrow e) im0) chunks bs" "t = 0 + int (length (concat chunks))" "concat chunks @ rest = [] @ evs"
      "r = Inr False \<longrightarrow> batch_rows im rest \<and> same_attrs im0 im"
      "always_sends (arrow e) vt \<and> vt_IsConnected vt x \<and> (\<forall>j<0 + length evs. arrow_exc e j = None) \<longrightarrow> r = Inr False"
    using arrow_loop_spec [OF x i rows0 same_attrs_refl rows, of e ?m 0 0] by blast
  note w1 = leaves_stats [OF w L(3)]
  have caught: ?thesis
    if s: "ExportEventsAsArrowInternal g e penv vt evs (x, w) = Some ((x1, w1), Inl exc)"
      and no: "\<not> (always_sends (arrow e) vt \<and> vt_IsConnected vt x \<and> (\<forall>i. arrow_exc e i = None))" for exc
  proof -
    obtain w2 where w2: "PschRecordExportFailure penv (Some (exc_text ''Arrow export OOM'' exc)) w1 = Some w2"
        "leaves penv w0 q w2" "exported (fst w2) = exported (fst w1)"
      using leaves_failure [OF w1(1)] by blast
    have "?R (x1, w2) 0 False"
      unfolding blocks_exported_def using L(5,6,8) w1(2) w2(3)
      by (intro exI [of _ chunks] exI [of _ bs] exI [of _ rest]) auto
    with s no w2 L(2) show ?thesis
      by (intro exI [of _ x1] exI [of _ w2] exI [of _ 0] exI [of _ False])
         (simp add: Init ExportEventsAsArrow_def catch_failure_def)
  qed
  have failed: ?thesis
    if s: "ExportEventsAsArrowInternal g e penv vt evs (x, w) =
        map_option (\<lambda>w. ((x2, w), Inr t)) (PschRecordExportFailure penv (Some ''Arrow batch build/send failed'') w2)"
      and x2: "inv x2" "stats_only w1 w2" "arrow_blocks x2 = arrow_blocks x1"
      and no: "\<not> (always_sends (arrow e) vt \<and> vt_IsConnected vt x \<and> (\<forall>i. arrow_exc e i = None))" for x2 w2
  proof -
    note w2 = leaves_stats [OF w1(1) x2(2)]
    obtain w3 where w3: "PschRecordExportFailure penv (Some ''Arrow batch build/send failed'') w2 = Some w3"
        "leaves penv w0 q w3" "exported (fst w3) = exported (fst w2)"
      using leaves_failure [OF w2(1)] by blast
    have "?R (x2, w3) t False"
      unfolding blocks_exported_def using L(5-8) x2(3) w1(2) w2(2) w3(3)
      by (intro exI [of _ chunks] exI [of _ bs] exI [of _ rest]) auto
    with s no w3 x2(1) show ?thesis
      by (intro exI [of _ x2] exI [of _ w3] exI [of _ t] exI [of _ False]) (simp add: Init ExportEventsAsArrow_def)
  qed
  have finished: ?thesis
    if s: "ExportEventsAsArrowInternal g e penv vt evs (x, w) =
        map_option (\<lambda>w. ((x2, w), Inr t2)) (if 0 < t2 then count_exported penv t2 w2 else Some w2)"
      and x2: "inv x2" "stats_only w1 w2" and b: "arrow_blocks x2 = arrow_blocks x @ bs2"
        "list_all2 (block_of (arrow e) im0) chunks2 bs2" "concat chunks2 = evs" "t2 = int (length evs)"
    for x2 w2 t2 bs2 chunks2
  proof -
    note w2 = leaves_stats [OF w1(1) x2(2)]
    obtain w3 where w3: "count_exported penv t2 w2 = Some w3" "leaves penv w0 q w3"
        "exported (fst w3) = exported (fst w2) + word_of_int t2"
      using leaves_count [OF w2(1)] by blast
    have "?R (x2, w3) t2 True"
      unfolding blocks_exported_def using b w1(2) w2(2) w3(3)
      by (intro exI [of _ chunks2] exI [of _ bs2] exI [of _ "[]"]) auto
    with s w3 x2(1) b(4) evs(2) show ?thesis
      by (intro exI [of _ x2] exI [of _ w3] exI [of _ t2] exI [of _ True]) (simp add: Init ExportEventsAsArrow_def)
  qed
  show ?thesis
  proof (cases r)
    case (Inl exc)
    have "ExportEventsAsArrowInternal g e penv vt evs (x, w) = Some ((x1, w1), Inl exc)"
      using L(1) Inl by (simp add: ExportEventsAsArrowInternal_def Init)
    then show ?thesis by (rule caught) (use L(10) Inl in blast)
  next
    case (Inr bad)
    show ?thesis
    proof (cases bad)
      case True
      have "ExportEventsAsArrowInternal g e penv vt evs (x, w) =
          map_option (\<lambda>w. ((x1, w), Inr t)) (PschRecordExportFailure penv (Some ''Arrow batch build/send failed'') w1)"
        using L(1) Inr True by (simp add: ExportEventsAsArrowInternal_def Init)
      then show ?thesis by (rule failed) (use L(2,10) Inr True in auto)
    next
      case False
      then have br: "batch_rows im rest" "same_attrs im0 im" using L(9) Inr by auto
      show ?thesis
      proof (cases "rest = []")
        case True
        then have "num_rows im = 0" using br(1) by (simp add: batch_rows_def)
        then have "ExportEventsAsArrowInternal g e penv vt evs (x, w) =
            map_option (\<lambda>w. ((x1, w), Inr t)) (if 0 < t then count_exported penv t w1 else Some w1)"
          using L(1) Inr False by (simp add: ExportEventsAsArrowInternal_def Init)
        moreover have "concat chunks = evs" "t = int (length evs)" using L(7,8) True by simp_all
        ultimately show ?thesis using finished [OF _ L(2) stats_only_refl L(5,6)] by blast
      next
        case ne: False
        then have nr: "0 < num_rows im" using br(1) by (simp add: batch_rows_def)
        show ?thesis
        proof (cases "arrow_exc e (length evs)")
          case (Some exc)
          have "ExportEventsAsArrowInternal g e penv vt evs (x, w) = Some ((x1, w1), Inl exc)"
            using L(1) Inr False nr Some by (simp add: ExportEventsAsArrowInternal_def Init)
          then show ?thesis by (rule caught) (use Some in force)
        next
          case None
          have i1: "idle penv w1" using i stats_only_idle [OF L(3)] by simp
          obtain im2 t2 x2 w2 ok where F: "flush_builder (arrow e) vt (im, t, x1, w1) = Some ((im2, t2, x2, w2), ok)"
              "inv x2" "stats_only w1 w2"
              "if ok then same_attrs im im2 \<and> t2 = t + int (length rest) \<and>
                    (\<exists>b. arrow_blocks x2 = arrow_blocks x1 @ [b] \<and> block_of (arrow e) im rest b)
               else t2 = t \<and> arrow_blocks x2 = arrow_blocks x1"
              "always_sends (arrow e) vt \<and> vt_IsConnected vt x1 \<and> rest \<noteq> [] \<longrightarrow> ok"
            using flush_builder_spec [OF L(2) i1 br(1), of "arrow e" t] by blast
          have I: "ExportEventsAsArrowInternal g e penv vt evs (x, w) = map_option (\<lambda>w. ((x2, w), Inr t2))
              (if \<not> ok then PschRecordExportFailure penv (Some ''Arrow batch build/send failed'') w2
               else if 0 < t2 then count_exported penv t2 w2 else Some w2)"
            using L(1) Inr False nr None F(1) by (simp add: ExportEventsAsArrowInternal_def Init)
          show ?thesis
          proof (cases ok)
            case True
            then obtain b where b: "t2 = t + int (length rest)" "arrow_blocks x2 = arrow_blocks x1 @ [b]"
                "block_of (arrow e) im rest b"
              using F(4) by auto
            have "block_of (arrow e) im0 rest b"
              using b(3) by (simp add: block_of_def arrow_columns_cong [OF br(2)])
            then have bl: "list_all2 (block_of (arrow e) im0) (chunks @ [rest]) (bs @ [b])"
              using L(6) by (simp add: list_all2_appendI)
            have "concat (chunks @ [rest]) = evs" using L(8) by simp
            moreover from this have "t2 = int (length evs)" using b(1) L(7) by (metis add_0 concat.simps concat_append
                  append_Nil2 length_append of_nat_add)
            moreover have "arrow_blocks x2 = arrow_blocks x @ bs @ [b]" using b(2) L(5) by simp
            ultimately show ?thesis using finished [OF _ F(2,3) _ bl] I True by simp
          next
            case False
            then show ?thesis
              using I F(4,5) L(4) ne failed [OF _ F(2,3)] by auto
          qed
        qed
      qed
    qed
  qed
qed

lemma DequeueEvents_spec:
  assumes "worker_ok penv w" and "event_bufs (event_mem e)" and "reserve_exc e = None"
  shows "\<exists>w' evs. DequeueEvents e penv m w = Some (w', Ret (Inr evs)) \<and>
     leaves penv w (drop (nat m) (abs_queue (fst w))) w' \<and> exported (fst w') = exported (fst w) \<and>
     list_all event_bufs evs \<and> map out_event evs = take (nat m) (abs_queue (fst w)) \<and>
     list_all abs_exportable (map out_event evs)"
proof -
  obtain w' evs where d: "dequeue_loop penv (nat m) (event_mem e) [] w = Some (w', Ret ([] @ evs))" "worker_ok penv w'"
      "snd w' = snd w" "list_all event_bufs evs" "map out_event evs = take (nat m - length ([] :: PschEvent list)) (abs_queue (fst w))"
      "abs_queue (fst w') = drop (nat m - length ([] :: PschEvent list)) (abs_queue (fst w))" "exported (fst w') = exported (fst w)"
    using dequeue_loop_spec [OF assms(1,2), of "nat m" "[]"] by blast
  have "list_all abs_exportable (take (nat m) (abs_queue (fst w)))"
    using assms(1) by (auto simp: worker_ok_def list_all_iff dest: in_set_takeD)
  with d assms(3) show ?thesis
    by (intro exI [of _ w'] exI [of _ evs]) (simp add: DequeueEvents_def leaves_def pg_ret_def)
qed

text \<open>The events of a batch on their way through the backend.\<close>

lemma export_rows_spec:
  assumes x: "inv x" "vt_IsConnected vt x" and w: "leaves penv w0 q w"
    and evs: "list_all event_bufs evs" "list_all abs_exportable (map out_event evs)"
  shows "\<exists>x' w' n ok. export_rows e penv vt evs (x, w) = Some ((Some x', w'), Ret n) \<and>
     inv x' \<and> leaves penv w0 q w' \<and> n \<le> int (length evs) \<and>
     rows_exported delivered image (map out_event evs) (x, w) (x', w') n ok \<and>
     (answers vt penv inv \<and> call_throws e = (\<lambda>_. False) \<longrightarrow> ok)"
proof -
  have wk: "worker_ok penv w" using w by (simp add: leaves_def)
  obtain x1 w1 ok1 rs where S: "ExportEventStats e penv vt evs (x, w) = Some ((x1, w1), ok1)" "stats_only w w1"
      "rows_of (map out_event evs) rs" "length rs = length evs"
      "if ok1 then begun x rs x1
       else inv x1 \<and> (\<exists>k\<le>length rs. delivered x1 = delivered x @ map image (take k rs))"
      "answers vt penv inv \<and> call_throws e = (\<lambda>_. False) \<longrightarrow>
        ok1 \<and> (\<forall>w'' s ok'. idle penv w'' \<and> vt_CommitBatch vt (x1, w'') = Some (s, ok') \<longrightarrow> ok')"
    using ExportEventStats_spec [OF x wk evs, of e] by blast
  note w1 = leaves_stats [OF w S(2)]
  show ?thesis
  proof (cases ok1)
    case False
    then have "rows_exported delivered image (map out_event evs) (x, w) (x1, w1) 0 False"
      using S(3-5) w1(2) by (auto simp: rows_exported_def)
    with False S(1,5,6) w1(1) show ?thesis
      by (intro exI [of _ x1] exI [of _ w1] exI [of _ 0] exI [of _ False]) (simp add: export_rows_def)
  next
    case True
    have i: "idle penv w1" and b: "begun x rs x1" using w1(1) S(5) True by (simp_all add: leaves_def worker_ok_def)
    obtain x2 w2 ok2 where C: "vt_CommitBatch vt (x1, w1) = Some ((x2, w2), ok2)" "inv x2" "stats_only w1 w2"
        "ok2 \<longrightarrow> delivered x2 = delivered x @ map image rs \<and> vt_NumExported vt x2 = int (length rs)"
        "\<not> ok2 \<longrightarrow> (\<exists>k\<le>length rs. delivered x2 = delivered x @ map image (take k rs)) \<and>
           vt_NumExported vt x2 \<le> int (length rs)"
      using commit_law [OF b i] by blast
    note w2 = leaves_stats [OF w1(1) C(3)]
    show ?thesis
    proof (cases ok2)
      case True
      obtain w3 where w3: "count_exported penv (vt_NumExported vt x2) w2 = Some w3" "leaves penv w0 q w3"
          "exported (fst w3) = exported (fst w2) + word_of_int (vt_NumExported vt x2)"
        using leaves_count [OF w2(1)] by blast
      then have "rows_exported delivered image (map out_event evs) (x, w) (x2, w3) (vt_NumExported vt x2) True"
        using S(3,4) C(4) True w1(2) w2(2) by (auto simp: rows_exported_def)
      with \<open>ok1\<close> True S(1,4) C w3 show ?thesis
        by (intro exI [of _ x2] exI [of _ w3] exI [of _ "vt_NumExported vt x2"] exI [of _ True]) (simp add: export_rows_def)
    next
      case False
      then have "rows_exported delivered image (map out_event evs) (x, w) (x2, w2) (vt_NumExported vt x2) False"
        using S(3,4) C(5) w1(2) w2(2) by (auto simp: rows_exported_def)
      moreover have "\<not> (answers vt penv inv \<and> call_throws e = (\<lambda>_. False))" using S(6) C(1) i False by blast
      ultimately show ?thesis
        using \<open>ok1\<close> False S(1,4) C w2
        by (intro exI [of _ x2] exI [of _ w2] exI [of _ "vt_NumExported vt x2"] exI [of _ False]) (simp add: export_rows_def)
    qed
  qed
qed

lemma PschExportBatch_spec:
  assumes "inv x" and "worker_ok penv w" and "event_bufs (event_mem e)"
  shows "\<exists>x' w' n k ok. PschExportBatch g e penv vt (Some x, w) = Some ((Some x', w'), Ret n) \<and> inv x' \<and>
     k \<le> nat (psch_batch_max g) \<and> k \<le> length (abs_queue (fst w)) \<and> n \<le> int k \<and> (k = 0 \<longrightarrow> n = 0) \<and>
     leaves penv w (drop k (abs_queue (fst w))) w' \<and>
     (if as_arrow g
      then blocks_exported (arrow e) (fst (Init (psch_extra_attributes g) (Some (version_text e)) Impl_new)) arrow_blocks
             (take k (abs_queue (fst w))) (x, w) (x', w') n ok
      else rows_exported delivered image (take k (abs_queue (fst w))) (x, w) (x', w') n ok) \<and>
     ((vt_IsConnected vt x \<or> snd (vt_EstablishNewConnection vt x)) \<and> reserve_exc e = None \<longrightarrow>
        k = min (nat (psch_batch_max g)) (length (abs_queue (fst w))) \<and>
        ((if as_arrow g then always_sends (arrow e) vt \<and> (\<forall>i. arrow_exc e i = None)
          else answers vt penv inv \<and> call_throws e = (\<lambda>_. False)) \<longrightarrow> k = 0 \<or> ok))"
    (is "\<exists>x' w' n k ok. _ \<and> _ \<and> _ \<and> _ \<and> _ \<and> _ \<and> _ \<and> ?R k x' w' n ok \<and> (?C \<longrightarrow> _ \<and> (?H \<longrightarrow> _))")
proof -
  let ?q = "abs_queue (fst w)" and ?m = "nat (psch_batch_max g)"
  have l0: "leaves penv w ?q w" using assms(2) by (simp add: leaves_def)
  obtain x1 up where c: "(if vt_IsConnected vt x then (x, True) else vt_EstablishNewConnection vt x) = (x1, up)"
    by (metis surj_pair)
  have x1: "inv x1" "vt_IsConnected vt x1 = up" "delivered x1 = delivered x" "arrow_blocks x1 = arrow_blocks x"
    using c assms(1) connect_law [OF assms(1), of x1 up] by (auto split: if_splits)
  have up: "up \<longleftrightarrow> vt_IsConnected vt x \<or> snd (vt_EstablishNewConnection vt x)"
    using c by (auto split: if_splits)
  have same: "blocks_exported lib im arrow_blocks q (x1, w) s n ok = blocks_exported lib im arrow_blocks q (x, w) s n ok"
      "rows_exported delivered image q (x1, w) s n ok = rows_exported delivered image q (x, w) s n ok" for lib im q s n ok
    using x1(3,4) by (simp_all add: blocks_exported_def rows_exported_def)
  have R0: "?R 0 x1 w' 0 False" if "exported (fst w') = exported (fst w)" for w'
    using x1(3,4) that by (simp add: blocks_exported_def rows_exported_def)
  have none: ?thesis if "PschExportBatch g e penv vt (Some x, w) = Some ((Some x1, w'), Ret 0)" "leaves penv w ?q w'"
      "exported (fst w') = exported (fst w)" "\<not> ?C \<or> ?m = 0 \<or> ?q = []" for w'
    using that x1(1) R0 [OF that(3)]
    by (intro exI [of _ x1] exI [of _ w'] exI [of _ 0] exI [of _ 0] exI [of _ False]) auto
  show ?thesis
  proof (cases up)
    case False
    obtain w' where "PschRecordExportFailure penv (Some ''Failed to connect to exporter backend'') w = Some w'"
        "leaves penv w ?q w'" "exported (fst w') = exported (fst w)"
      using leaves_failure [OF l0] by blast
    with False c up show ?thesis by (intro none [of w']) (simp_all add: PschExportBatch_def)
  next
    case True
    show ?thesis
    proof (cases "reserve_exc e")
      case (Some exc)
      obtain w' where "PschRecordExportFailure penv (Some (exc_text ''export batch OOM'' exc)) w = Some w'"
          "leaves penv w ?q w'" "exported (fst w') = exported (fst w)"
        using leaves_failure [OF l0] by blast
      with True c Some show ?thesis
        by (intro none [of w']) (simp_all add: PschExportBatch_def DequeueEvents_def catch_failure_def pg_ret_def)
    next
      case None
      obtain w1 evs where D: "DequeueEvents e penv (psch_batch_max g) w = Some (w1, Ret (Inr evs))"
          "leaves penv w (drop ?m ?q) w1" "exported (fst w1) = exported (fst w)" "list_all event_bufs evs"
          "map out_event evs = take ?m ?q" "list_all abs_exportable (map out_event evs)"
        using DequeueEvents_spec [OF assms(2,3) None, of "psch_batch_max g"] by blast
      have len: "length evs = min ?m (length ?q)" using arg_cong [OF D(5), of length] by simp
      show ?thesis
      proof (cases "evs = []")
        case empty: True
        then have "?m = 0 \<or> ?q = []" using D(5) by simp
        moreover from this have "leaves penv w ?q w1" using D(2) by auto
        ultimately show ?thesis
          using empty True c D(1,3) by (intro none [of w1]) (simp_all add: PschExportBatch_def)
      next
        case ne: False
        have fin: ?thesis if "PschExportBatch g e penv vt (Some x, w) = Some ((Some x', w'), Ret n)" "inv x'"
            "leaves penv w (drop ?m ?q) w'" "n \<le> int (length evs)" "?R ?m x' w' n ok" "?H \<longrightarrow> ok" for x' w' n ok
          using that len ne by (intro exI [of _ x'] exI [of _ w'] exI [of _ n] exI [of _ "min ?m (length ?q)"] exI [of _ ok])
            (auto simp: min_def)
        have st: "blocks_exported lib im arrow_blocks q (x1, w1) s n ok = blocks_exported lib im arrow_blocks q (x1, w) s n ok"
            "rows_exported delivered image q (x1, w1) s n ok = rows_exported delivered image q (x1, w) s n ok" for lib im q s n ok
          using D(3) by (simp_all add: blocks_exported_def rows_exported_def)
        show ?thesis
        proof (cases "as_arrow g")
          case arrow: True
          obtain x' w' n ok where A: "ExportEventsAsArrow g e penv vt evs (x1, w1) = Some ((x', w'), n)" "inv x'"
              "leaves penv w (drop ?m ?q) w'"
              "blocks_exported (arrow e) (fst (Init (psch_extra_attributes g) (Some (version_text e)) Impl_new)) arrow_blocks
                 (map out_event evs) (x1, w1) (x', w') n ok"
              "always_sends (arrow e) vt \<and> vt_IsConnected vt x1 \<and> (\<forall>i. arrow_exc e i = None) \<longrightarrow> ok"
            using ExportEventsAsArrow_spec [OF x1(1) D(2,4) ne D(6), of g e] by blast
          have "n \<le> int (length evs)"
            using A(4) by (auto simp: blocks_exported_def)
              (metis (no_types, lifting) length_append length_map nat_int_comparison(3) of_nat_le_iff le_add1 order_trans)
          with A ne arrow True c D(1,5) x1(2) show ?thesis
            by (intro fin [of x' w' n ok]) (simp_all add: PschExportBatch_def as_arrow_def st same)
        next
          case rows: False
          obtain x' w' n ok where A: "export_rows e penv vt evs (x1, w1) = Some ((Some x', w'), Ret n)"
              "inv x'" "leaves penv w (drop ?m ?q) w'" "n \<le> int (length evs)"
              "rows_exported delivered image (map out_event evs) (x1, w1) (x', w') n ok"
              "answers vt penv inv \<and> call_throws e = (\<lambda>_. False) \<longrightarrow> ok"
            using export_rows_spec [OF x1(1) _ D(2,4,6), of e] x1(2) True by blast
          with ne rows True c D(1,5) show ?thesis
            by (intro fin [of x' w' n ok]) (simp_all add: PschExportBatch_def as_arrow_def [symmetric] st same)
        qed
      qed
    qed
  qed
qed

end

end
