(* ===== verification/Psch_Queue_Props.thy ===== *)
theory Psch_Queue_Props
  imports Psch_Boot
begin

section \<open>Properties of the shared queue\<close>

text \<open>
  The theorems about the queue and the string store as a whole: start-up, the handlers of
  producers and consumer, order, conservation and memory safety, for operations that run to
  completion. Each is a short consequence of the operation lemmas of the component theories.
\<close>

subsection \<open>Shared lemmas\<close>

lemma heap_inv_Nil_empty:
  assumes "heap_inv sh []"
  shows "dsa_area sh = Map.empty" "intern_tab sh = Map.empty"
proof -
  note inv = heap_invD(1) [OF assms, simplified]
  show tab: "intern_tab sh = Map.empty"
  proof (rule ext)
    fix k show "intern_tab sh k = None"
    proof (cases "intern_tab sh k")
      case (Some e)
      then show ?thesis using intern_invD(1) [OF inv Some] by (simp add: intern_entry_ok_def unat_eq_zero)
    qed simp
  qed
  show "dsa_area sh = Map.empty"
  proof (rule ext)
    fix r show "dsa_area sh r = None"
    proof (cases "dsa_area sh r")
      case (Some b)
      then show ?thesis
        using heap_invD(3) [OF assms, of r] intern_invD(3) [OF inv, of r] tab by (cases b) auto
    qed simp
  qed
qed

text \<open>
  Dynahash's documented bound: \<^verbatim>\<open>HASH_ENTER_NULL\<close> fails only when the table already holds as
  many entries as it was created for.
\<close>

definition htab_sized :: "pg_env \<Rightarrow> nat \<Rightarrow> bool" where
  "htab_sized env n \<longleftrightarrow> (\<forall>t. finite (dom t) \<and> card (dom t) < n \<longrightarrow> \<not> htab_full env t)"

lemma not_full_card:
  assumes "queue_inv sh" "\<not> queue_full sh"
  shows "finite (dom (intern_tab sh))" "card (dom (intern_tab sh)) < unat (capacity sh)"
proof -
  have inv: "intern_inv sh (query_refs (live sh)) {}"
    using assms(1) heap_invD(1) by (simp add: queue_inv_def)
  show "finite (dom (intern_tab sh))" by (rule intern_tab_card(1) [OF inv])
  have "card (dom (intern_tab sh)) \<le> length (live sh)"
    using intern_tab_card(2) [OF inv] size_query_refs [of "live sh"] by linarith
  also have "\<dots> < unat (capacity sh)" using queue_not_fullD(1) [OF assms] by simp
  finally show "card (dom (intern_tab sh)) < unat (capacity sh)" .
qed

lemma sample_env_sized [simp]: "htab_sized sample_env n"
  by (simp add: htab_sized_def sample_env_def)

lemma sample_env_attach [simp]: "dsa_attach_ok sample_env"
  by (simp add: sample_env_def)

lemma first_free_low: "first_free Map.empty = 1" "first_free [1 \<mapsto> b] = 2"
  by (simp_all add: first_free_def)

lemma key_collision_err_area:
  assumes "dsa_allocate_fresh env"
  shows "key_collision (sh\<lparr>dsa_area := err_area env ev (dsa_area sh)\<rparr>) k t = key_collision sh k t"
proof -
  have "intern_body (sh\<lparr>dsa_area := err_area env ev (dsa_area sh)\<rparr>) r k u = intern_body sh r k u" for r u
    using assms [unfolded dsa_allocate_fresh_def, rule_format, of "dsa_area sh" "length (kept_err ev) + 1"]
    by (auto simp: intern_body_def err_area_def Let_def)
  then show ?thesis by (simp add: key_collision_def)
qed

text \<open>With the two allocations served and the hash free of collisions nothing is lost.\<close>

lemma stored_whole:
  assumes "queue_inv sh" "\<not> queue_full sh" "dsa_allocate_fresh env" "htab_sized env (unat (capacity sh))"
    "dsa_allocate env (dsa_area sh) (length (kept_err ev) + 1) \<noteq> InvalidDsaPointer"
    "dsa_allocate env (err_area env ev (dsa_area sh)) (offsetof_query + length (kept_query ev) + 1)
       \<noteq> InvalidDsaPointer"
    "\<not> key_collision sh (event_key env ev) (kept_query ev)" "stored_as env sh ev a"
  shows "a = (numeric_part ev, kept_err ev, kept_query ev)"
proof -
  have "\<not> err_lost env sh ev" using assms(5) by (simp add: err_lost_def dsa_exhausted_def)
  moreover have "\<not> query_lost env sh ev"
    using assms(4,6,7) not_full_card [OF assms(1,2)] key_collision_err_area [OF assms(3)]
    by (auto simp: query_lost_def query_refused_def intern_refused_def dsa_exhausted_def htab_sized_def)
  ultimately show ?thesis using assms(8) by (cases a) (simp add: stored_as_def)
qed

text \<open>A consumer that takes \<open>n\<close> events into the same buffer, one after the other.\<close>

primrec dequeue_times :: "pg_env \<Rightarrow> PschEvent \<Rightarrow> nat \<Rightarrow> world \<Rightarrow> (world, PschEvent list) pgres" where
  "dequeue_times env out 0 w = pg_ret w []"
| "dequeue_times env out (Suc n) w =
     pg_bind (PschDequeueEvent env out w) (\<lambda>w (ok, ev).
       if ok then pg_bind (dequeue_times env ev n w) (\<lambda>w evs. pg_ret w (ev # evs))
       else pg_ret w [])"

lemma dequeue_times_spec:
  assumes "queue_inv sh" "event_bufs out" "proc_ready sh p" "dsa_attach_ok env" "n \<le> length (abs_queue sh)"
  shows "\<exists>sh' p' evs. dequeue_times env out n (sh, p) = Some ((sh', p'), Ret evs) \<and> queue_inv sh' \<and>
     map out_event evs = take n (abs_queue sh) \<and> abs_queue sh' = drop n (abs_queue sh)"
  using assms
proof (induction n arbitrary: sh p out)
  case 0
  then show ?case by (simp add: pg_ret_def)
next
  case (Suc n)
  then have ne: "head sh \<noteq> tail sh" by auto
  from Suc.prems(1-3) ne show ?case
  proof (cases rule: PschDequeueEvent_spec [where env = env])
    case (ret sh1 p1 ev)
    have p1: "proc_ready sh1 p1" using proc_ready_cong [OF ret(6,2)] Suc.prems(3) by simp
    have n: "n \<le> length (abs_queue sh1)"
      using Suc.prems(5) unfolding ret(4) by (simp del: length_abs_queue)
    obtain sh' p' evs where D: "dequeue_times env ev n (sh1, p1) = Some ((sh', p'), Ret evs)" "queue_inv sh'"
        "map out_event evs = take n (abs_queue sh1)" "abs_queue sh' = drop n (abs_queue sh1)"
      using Suc.IH [OF ret(3) ret(5) p1 Suc.prems(4) n] by blast
    have "dequeue_times env out (Suc n) (sh, p) = Some ((sh', p'), Ret (ev # evs))"
      using ret(1) D(1) by (simp add: pg_ret_def)
    with D ret(4) show ?thesis by auto
  next
    case throws
    then show ?thesis using Suc.prems(4) by simp
  qed
qed

text \<open>Concrete worlds: a producer about to enqueue a statement, and the queue after it did.\<close>

definition sample_event :: PschEvent where
  "sample_event = zero_event\<lparr>queryid := 7, rows := 1, query_len := 8,
     query := ''SELECT 1'' @ replicate 2040 NUL, err_message_len := 3,
     err_message := ''bad'' @ replicate 2045 NUL\<rparr>"

lemma sample_event_shape [simp]: "event_shape sample_event"
  using zero_event_shape by (simp add: event_shape_def sample_event_def)

lemma sample_event_kept: "kept_err sample_event = ''bad''" "kept_query sample_event = ''SELECT 1''"
  by (simp_all add: kept_err_def kept_query_def err_text_def query_text_def sample_event_def)

lemma sample_env_serves:
  "dsa_allocate sample_env Map.empty n \<noteq> InvalidDsaPointer"
  "dsa_allocate sample_env (err_area sample_env sample_event Map.empty) n \<noteq> InvalidDsaPointer"
  by (simp_all add: sample_env_def err_area_def sample_event_kept first_free_low Let_def)

definition queued_world :: world where
  "queued_world =
     (case PschEnqueueEvent guc_init sample_env sample_event (boot_world guc_init) of
        Some (w, _) \<Rightarrow> w
      | None \<Rightarrow> boot_world guc_init)"

lemma guc_init_flags [simp]: "psch_enabled guc_init" "\<not> psch_debug_force_locked_overflow guc_init"
  by (simp_all add: guc_init_def)

lemma boot_world_not_full: "\<not> queue_full (fst (boot_world guc_init))"
  using boot_world_facts(1,2,4) queue_full_iff [of "fst (boot_world guc_init)"]
  by (simp add: producer_ok_def del: length_abs_queue)

lemma queued_world_facts:
  "queue_inv (fst queued_world)" "proc_ready (fst queued_world) (snd queued_world)"
  "head (fst queued_world) \<noteq> tail (fst queued_world)" "\<not> lock (fst queued_world)"
  "producer_ok (fst queued_world) (snd queued_world)" "length (abs_queue (fst queued_world)) = 1"
  "\<forall>a\<in>set (abs_queue (fst queued_world)). fst a = numeric_part sample_event"
proof -
  obtain sh p where b: "boot_world guc_init = (sh, p)" by (cases "boot_world guc_init")
  note bw = boot_world_facts [unfolded b fst_conv snd_conv] boot_world_not_full [unfolded b fst_conv]
  obtain sh' p' a where E: "PschEnqueueEvent guc_init sample_env sample_event (sh, p) = Some ((sh', p'), Ret True)"
      "same_proc p p'" "queue_inv sh'" "\<not> lock sh'" "raw_dsa_area sh'" "abs_queue sh' = abs_queue sh @ [a]"
      "stored_as sample_env sh sample_event a"
    using PschEnqueueEvent_free [OF bw(1) sample_env_fresh sample_event_shape, of guc_init] bw by auto
  then have q: "queued_world = (sh', p')" by (simp add: queued_world_def b)
  note pp = same_procD [OF E(2)]
  have len: "length (abs_queue sh') = 1" unfolding E(6) bw(2) by simp
  then have "head sh' \<noteq> tail sh'" by auto
  moreover have "producer_ok sh' p'"
    using bw(1) E pp batch_inv_same_proc [OF E(2)] by (auto simp: producer_ok_def proc_ready_def)
  ultimately show "queue_inv (fst queued_world)" "proc_ready (fst queued_world) (snd queued_world)"
      "head (fst queued_world) \<noteq> tail (fst queued_world)" "\<not> lock (fst queued_world)"
      "producer_ok (fst queued_world) (snd queued_world)" "length (abs_queue (fst queued_world)) = 1"
    using E(3,4) len unfolding q by (simp_all add: producer_ok_def del: length_abs_queue)
  show "\<forall>a\<in>set (abs_queue (fst queued_world)). fst a = numeric_part sample_event"
    using E(6,7) bw(2) unfolding q by (auto simp: stored_as_def)
qed

subsection \<open>Start-up and producers\<close>

text \<open>
  C13 Starting up with an accepted capacity, on memory with arbitrary contents, yields a segment
  that satisfies the queue invariant, holds no event and has exactly the configured capacity,
  and a process that is ready to enqueue.
\<close>

theorem startup_establishes_invariant:
  assumes "psch_queue_capacity g = 2 ^ k" "10 \<le> k" "k \<le> 22"
  shows "\<exists>sh p. PschShmemStartupHook g (\<lambda>w. w) True False (raw, PschProc_init) = Some ((sh, p), Ret ()) \<and>
           producer_ok sh p \<and> abs_queue sh = [] \<and> unat (capacity sh) = 2 ^ k \<and> \<not> lock sh"
proof -
  have "\<not> holds_lock PschProc_init" by (simp add: PschProc_init_def)
  from PschShmemStartupHook_fresh [OF assms(1,3) PschProc_init_batch this, of raw] show ?thesis by blast
qed

theorem startup_establishes_invariant_witness:
  "\<exists>sh p. PschShmemStartupHook guc_init (\<lambda>w. w) True False (raw_segment, PschProc_init) = Some ((sh, p), Ret ()) \<and>
     producer_ok sh p \<and> abs_queue sh = [] \<and> unat (capacity sh) = 2 ^ 17 \<and> \<not> lock sh"
  by (rule startup_establishes_invariant) (simp_all add: guc_init_def)

text \<open>
  C1 Whatever the state of the queue, of the lock and of the local batch, \<^verbatim>\<open>PschEnqueueEvent\<close> ends
  without undefined behaviour (no byte is written outside the memory that was allocated for it)
  and without waiting for a lock it holds, by return or by error, in a state that again
  satisfies the invariants. This is for any behaviour of the log hook, also one that never
  returns when it is re-entered: no message is reported with error capture on. The process
  does not hold the lock, has not left it taken, and has put the error-capture guard back.
\<close>

theorem enqueue_event_safe:
  assumes "producer_ok sh p" "env_ok env" "event_shape ev"
  shows "\<exists>sh' p' r. PschEnqueueEvent g env ev (sh, p) = Some ((sh', p'), r) \<and> producer_ok sh' p' \<and>
           disable_error_capture p' = disable_error_capture p \<and> (lock sh' \<longrightarrow> lock sh)"
  using assms by (rule PschEnqueueEvent_safe)

theorem enqueue_event_safe_witness:
  "\<exists>sh' p' r. PschEnqueueEvent guc_init sample_env sample_event (fst queued_world, snd queued_world)
       = Some ((sh', p'), r) \<and> producer_ok sh' p' \<and>
     disable_error_capture p' = disable_error_capture (snd queued_world) \<and>
     (lock sh' \<longrightarrow> lock (fst queued_world))"
  by (rule enqueue_event_safe [OF queued_world_facts(5) sample_env_ok sample_event_shape])

text \<open>
  C4 With the lock free and room in the ring, \<^verbatim>\<open>PschEnqueueEvent\<close> appends exactly one event at the
  end of the queue and counts it. All numeric fields are kept. A text is kept up to its maximum
  length or is empty: the message only if the allocator refuses its length plus one byte, the
  query only if its key is new and the allocator refuses the interner object of that length in
  the area that the message has left, or the hash table is full, or if a different text is
  stored under the same key. If the process cannot attach to the area, the error leaves the
  queue as it was.
\<close>

theorem enqueue_event_appends:
  assumes "producer_ok sh p" "dsa_allocate_fresh env" "event_shape ev" "psch_enabled g"
    "\<not> queue_full sh" "\<not> lock sh" "\<not> psch_debug_force_locked_overflow g"
  shows "\<exists>sh' p' r. PschEnqueueEvent g env ev (sh, p) = Some ((sh', p'), r) \<and> \<not> lock sh' \<and>
     ((r = Ret True \<and> (\<exists>a. abs_queue sh' = abs_queue sh @ [a] \<and> stored_as env sh ev a) \<and>
         enqueued sh' = enqueued sh + 1 \<and> dropped sh' = dropped sh) \<or>
      (r = Throw \<and> abs_queue sh' = abs_queue sh \<and> enqueued sh' = enqueued sh \<and>
         dropped sh' = dropped sh \<and> \<not> psch_dsa p \<and> \<not> dsa_attach_ok env))"
  using PschEnqueueEvent_free [OF assms(1-6)] assms(7) by auto

theorem enqueue_event_appends_witness:
  "\<exists>sh' p' r. PschEnqueueEvent guc_init sample_env sample_event (fst (boot_world guc_init), snd (boot_world guc_init))
       = Some ((sh', p'), r) \<and> r = Ret True \<and> length (abs_queue sh') = 1"
  using enqueue_event_appends [OF boot_world_facts(1) sample_env_fresh sample_event_shape,
      of guc_init] boot_world_facts(2,3) boot_world_not_full
  by (auto simp del: length_abs_queue)

text \<open>
  C11 When the ring is full the event is dropped without taking the lock: the drop counter goes
  up by one, the queue is untouched, the caller is told, and the warning is written only if
  none has been written since the last reset, with error capture suppressed so that the log
  hook cannot re-enter the queue.
\<close>

theorem enqueue_event_overflow:
  assumes "psch_shared_state p" "psch_enabled g" "queue_full sh"
  shows "PschEnqueueEvent g env ev (sh, p) =
     Some ((sh\<lparr>dropped := dropped sh + 1, overflow_logged := True,
               server_log := server_log sh @
                 (if overflow_logged sh then [] else [(OverflowWarning, True)])\<rparr>, p), Ret False)"
  using PschEnqueueEvent_full [OF assms, of env ev] by (simp add: overflowed_def)

theorem enqueue_event_overflow_witness:
  "PschEnqueueEvent guc_init sample_env sample_event
      (raw_segment\<lparr>capacity := 1024, head := 1030, tail := 6\<rparr>, PschProc_init\<lparr>psch_shared_state := True\<rparr>) =
     Some ((raw_segment\<lparr>capacity := 1024, head := 1030, tail := 6, dropped := 1, overflow_logged := True,
               server_log := [(OverflowWarning, True)]\<rparr>, PschProc_init\<lparr>psch_shared_state := True\<rparr>), Ret False)"
  using enqueue_event_overflow [of "PschProc_init\<lparr>psch_shared_state := True\<rparr>" guc_init
      "raw_segment\<lparr>capacity := 1024, head := 1030, tail := 6\<rparr>" sample_env sample_event]
  by (simp add: queue_full_def raw_segment_def)

text \<open>
  C12 When another process holds the lock and the local batch has room, \<^verbatim>\<open>PschEnqueueEvent\<close> does not
  wait and does not touch shared memory: the event is added at the end of the local batch,
  whose flush callbacks are registered.
\<close>

theorem enqueue_event_contended:
  assumes "producer_ok sh p" "event_shape ev" "psch_enabled g" "\<not> queue_full sh" "lock sh"
    "local_batch_count p < PSCH_LOCAL_BATCH_CAPACITY"
  shows "\<exists>p'. PschEnqueueEvent g env ev (sh, p) = Some ((sh, p'), Ret True) \<and>
     pending p' = pending p @ [ev] \<and> producer_ok sh p' \<and> local_batch_initialized p'"
proof -
  have b: "batch_inv (batch_initialized p)" using assms(1) by (simp add: producer_ok_def)
  have "local_batch_initialized (with_pending ev (batch_initialized p))"
    by (simp add: with_pending_def)
  with PschEnqueueEvent_buffered [OF assms(1,3-6), of env ev] with_pending_ok [OF b assms(2)] assms(1,6)
  show ?thesis by (auto simp: producer_ok_def)
qed

theorem enqueue_event_contended_witness:
  "\<exists>p'. PschEnqueueEvent guc_init sample_env sample_event
      ((fst (boot_world guc_init))\<lparr>lock := True\<rparr>,
       PschProc_init\<lparr>psch_shared_state := True, psch_query_intern_htab := True\<rparr>)
      = Some (((fst (boot_world guc_init))\<lparr>lock := True\<rparr>, p'), Ret True) \<and> pending p' = [sample_event]"
proof -
  let ?sh = "(fst (boot_world guc_init))\<lparr>lock := True\<rparr>"
  let ?p = "PschProc_init\<lparr>psch_shared_state := True, psch_query_intern_htab := True\<rparr>"
  have "producer_ok ?sh ?p"
    using boot_world_facts(1)
    by (simp add: producer_ok_def proc_ready_def PschProc_init_def batch_inv_def)
  then show ?thesis
    using enqueue_event_contended [of ?sh ?p sample_event guc_init sample_env] boot_world_not_full
    by (auto simp: PschProc_init_def pending_def)
qed

text \<open>
  C10 Flushing a batch of \<open>cnt\<close> events under one lock acquisition appends, in order, as many of
  them as the ring has room for when the lock is granted; the return value is that number, the
  rest is counted as dropped, and the lock is free and the guard restored on return. If the
  process cannot attach to the area, the events before the failure are in the queue and the
  lock is free all the same.
\<close>

theorem enqueue_batch_fifo:
  assumes "queue_inv sh" "env_ok env" "proc_ready sh p" "\<not> holds_lock p" "psch_enabled g"
    "\<not> psch_debug_force_locked_overflow g" "\<not> queue_full sh" "0 < cnt" "cnt \<le> length events"
    "list_all event_shape (take cnt events)"
  shows "\<exists>sh' p' r as. PschEnqueueBatch g env events cnt (sh, p) = Some ((sh', p'), r) \<and>
     queue_inv sh' \<and> \<not> lock sh' \<and> \<not> holds_lock p' \<and>
     disable_error_capture p' = disable_error_capture p \<and>
     abs_queue sh' = abs_queue (lwlock_wait env sh) @ as \<and> list_all2 kept_as (take (length as) events) as \<and>
     (case r of
        Ret m \<Rightarrow> m = length as \<and>
          length as = min cnt (unat (capacity sh) - length (abs_queue (lwlock_wait env sh))) \<and>
          dropped sh' = dropped (lwlock_wait env sh) + of_nat (cnt - length as)
      | Throw \<Rightarrow> length as < cnt \<and> \<not> psch_dsa p \<and> \<not> dsa_attach_ok env)"
proof -
  have e: "dsa_allocate_fresh env" "lwlock_ok env" using assms(2) by (simp_all add: env_ok_def)
  let ?w = "lwlock_wait env sh"
  obtain sh' p' r as where B: "PschEnqueueBatch g env events cnt (sh, p) = Some ((sh', p'), r)" "same_proc p p'"
      "batch_appended (take cnt events) ?w sh' as" "batch_outcome g env p 0 cnt ?w sh' as r"
    using PschEnqueueBatch_spec [OF assms(1) e assms(3-5,8-10)] assms(7) by auto
  note w = lwlock_okD [OF e(2)]
  have "length as \<le> cnt" using B(4) assms(6) by (cases r) (simp_all add: batch_outcome_def)
  then have "take (length as) (take cnt events) = take (length as) events" by (simp add: min_absorb1)
  with B assms w same_procD [OF B(2)] show ?thesis
    by (intro exI [of _ sh'] exI [of _ p'] exI [of _ r] exI [of _ as], cases r)
      (simp_all add: batch_appended_def batch_outcome_def)
qed

theorem enqueue_batch_fifo_witness:
  "\<exists>sh' p' r as. PschEnqueueBatch guc_init sample_env [sample_event, zero_event] 2
       (fst (boot_world guc_init), snd (boot_world guc_init)) = Some ((sh', p'), r) \<and>
     \<not> lock sh' \<and> abs_queue sh' = as \<and> (r = Ret 2 \<longrightarrow> length as = 2)"
proof -
  let ?sh = "fst (boot_world guc_init)"
  have w: "lwlock_wait sample_env ?sh = ?sh" using boot_world_facts(3) by (simp add: sample_env_def)
  show ?thesis
    using enqueue_batch_fifo [of ?sh sample_env "snd (boot_world guc_init)" guc_init 2
        "[sample_event, zero_event]"] boot_world_facts boot_world_not_full w
    by (auto simp: producer_ok_def simp del: length_abs_queue)
qed

subsection \<open>Consumer\<close>

text \<open>
  C5 \<^verbatim>\<open>PschDequeueEvent\<close> on a non-empty queue returns the oldest event, with every numeric field
  and both texts exactly as they were stored, and removes it; the result is NUL-safe within
  its buffers and the invariant holds again. If the consumer cannot attach to the area it
  raises with nothing changed, so the event is not lost.
\<close>

theorem dequeue_event_fifo:
  assumes "queue_inv sh" "event_bufs ev" "proc_ready sh p" "head sh \<noteq> tail sh"
  shows "(\<exists>sh' p' ev'. PschDequeueEvent env ev (sh, p) = Some ((sh', p'), Ret (True, ev')) \<and>
            queue_inv sh' \<and> abs_queue sh = out_event ev' # abs_queue sh' \<and> event_bufs ev' \<and>
            exported sh' = exported sh \<and> enqueued sh' = enqueued sh) \<or>
         (PschDequeueEvent env ev (sh, p) = Some ((sh, p), Throw) \<and> \<not> psch_dsa p \<and> \<not> dsa_attach_ok env)"
  using assms
proof (cases rule: PschDequeueEvent_spec [where env = env])
  case (ret sh' p' ev')
  then show ?thesis using same_outside_ringD [OF queue_part_outside [OF ret(6)]] by auto
next
  case throws
  then show ?thesis by simp
qed

theorem dequeue_event_fifo_witness:
  "\<exists>sh' p' ev'. PschDequeueEvent sample_env zero_event (fst queued_world, snd queued_world)
      = Some ((sh', p'), Ret (True, ev')) \<and> abs_queue (fst queued_world) = [out_event ev'] \<and> abs_queue sh' = []"
  using dequeue_event_fifo [OF queued_world_facts(1) zero_event_bufs queued_world_facts(2,3), of sample_env]
    queued_world_facts(6)
  by (auto simp del: length_abs_queue)

text \<open>
  C6 Round trip: an event that is enqueued behind \<open>n\<close> others is what the dequeue after those \<open>n\<close>
  returns, also in another process, with all numeric fields equal and both texts equal up to
  their maximum lengths; the \<open>n\<close> dequeues before it return the \<open>n\<close> earlier events. The
  hypotheses on PostgreSQL are that the two allocations of exactly the requested sizes are
  served, that the hash table takes as many entries as it was sized for, and that no other
  text is stored under the same key.
\<close>

theorem queue_roundtrip:
  assumes "producer_ok sh p" "\<not> queue_full sh" "\<not> lock sh" "psch_enabled g"
    "\<not> psch_debug_force_locked_overflow g" "event_shape ev" "dsa_allocate_fresh env" "dsa_attach_ok env"
    "htab_sized env (unat (capacity sh))"
    "dsa_allocate env (dsa_area sh) (length (kept_err ev) + 1) \<noteq> InvalidDsaPointer"
    "dsa_allocate env (err_area env ev (dsa_area sh)) (offsetof_query + length (kept_query ev) + 1)
       \<noteq> InvalidDsaPointer"
    "\<not> key_collision sh (event_key env ev) (kept_query ev)"
    "event_bufs out" "psch_shared_state pc" "psch_query_intern_htab pc"
  shows "\<exists>sh1 p1 sh2 pc2 evs ev'. PschEnqueueEvent g env ev (sh, p) = Some ((sh1, p1), Ret True) \<and>
     dequeue_times env out (length (abs_queue sh) + 1) (sh1, pc) = Some ((sh2, pc2), Ret (evs @ [ev'])) \<and>
     map out_event evs = abs_queue sh \<and> numeric_part ev' = numeric_part ev \<and>
     err_text ev' = kept_err ev \<and> query_text ev' = kept_query ev \<and> abs_queue sh2 = []"
proof -
  have inv: "queue_inv sh" using assms(1) by (simp add: producer_ok_def)
  obtain sh1 p1 a where E: "PschEnqueueEvent g env ev (sh, p) = Some ((sh1, p1), Ret True)"
      "queue_inv sh1" "raw_dsa_area sh1" "abs_queue sh1 = abs_queue sh @ [a]" "stored_as env sh ev a"
    using PschEnqueueEvent_free [OF assms(1,7,6,4,2,3)] assms(5,8) by auto
  have a: "a = (numeric_part ev, kept_err ev, kept_query ev)"
    by (rule stored_whole [OF inv assms(2,7,9-12) E(5)])
  have ready: "proc_ready sh1 pc" using E(3) assms(14,15) by (simp add: proc_ready_def)
  have n: "length (abs_queue sh) + 1 = length (abs_queue sh1)" unfolding E(4) by simp
  obtain sh2 pc2 evs where D: "dequeue_times env out (length (abs_queue sh1)) (sh1, pc) = Some ((sh2, pc2), Ret evs)"
      "map out_event evs = abs_queue sh1" "abs_queue sh2 = []"
    using dequeue_times_spec [OF E(2) assms(13) ready assms(8) order_refl] by auto
  then obtain evs' ev' where evs: "evs = evs' @ [ev']" "map out_event evs' = abs_queue sh" "out_event ev' = a"
    unfolding E(4) by (auto simp: map_eq_append_conv)
  with E(1) D(1,3) a show ?thesis unfolding n by (auto simp: out_event_def)
qed

theorem queue_roundtrip_witness:
  "\<exists>sh1 p1 sh2 pc2 evs ev'. PschEnqueueEvent guc_init sample_env sample_event
        (fst (boot_world guc_init), snd (boot_world guc_init)) = Some ((sh1, p1), Ret True) \<and>
     dequeue_times sample_env zero_event 1
        (sh1, PschProc_init\<lparr>psch_shared_state := True, psch_query_intern_htab := True\<rparr>)
        = Some ((sh2, pc2), Ret (evs @ [ev'])) \<and>
     err_text ev' = ''bad'' \<and> query_text ev' = ''SELECT 1'' \<and> abs_queue sh2 = []"
  using queue_roundtrip [OF boot_world_facts(1) boot_world_not_full boot_world_facts(3), of guc_init sample_event
      sample_env zero_event "PschProc_init\<lparr>psch_shared_state := True, psch_query_intern_htab := True\<rparr>"]
    boot_world_facts(2,5) sample_event_kept sample_env_serves
  by (auto simp: key_collision_def intern_body_def simp del: length_abs_queue)

subsection \<open>Memory\<close>

text \<open>
  C9 The bound that \<^verbatim>\<open>PschQueryInternMaxEntries\<close> relies on: while there is room in the ring the
  table has fewer entries than it was sized for, so an insertion never finds it full.
\<close>

theorem interner_never_full:
  assumes "queue_inv sh" "\<not> queue_full sh"
    "htab_sized env (nat (PschQueryInternMaxEntries (int (unat (capacity sh)))))"
  shows "\<not> htab_full env (intern_tab sh)"
  using not_full_card [OF assms(1,2)] assms(3) by (auto simp: htab_sized_def PschQueryInternMaxEntries_def)

theorem interner_never_full_witness:
  "\<not> htab_full (sample_env\<lparr>htab_full := \<lambda>t. \<not> (finite (dom t) \<and> card (dom t) < 131072)\<rparr>)
       (intern_tab (fst (boot_world guc_init)))"
  by (rule interner_never_full [OF _ boot_world_not_full])
    (use boot_world_facts(1,4) in \<open>simp_all add: producer_ok_def htab_sized_def PschQueryInternMaxEntries_def\<close>)

lemma queued_world_abs:
  "abs_queue (fst queued_world) = [(numeric_part sample_event, ''bad'', ''SELECT 1'')]"
proof -
  obtain sh p where b: "boot_world guc_init = (sh, p)" by (cases "boot_world guc_init")
  note bw = boot_world_facts [unfolded b fst_conv snd_conv] boot_world_not_full [unfolded b fst_conv]
  obtain sh' p' a where E: "PschEnqueueEvent guc_init sample_env sample_event (sh, p) = Some ((sh', p'), Ret True)"
      "abs_queue sh' = [a]" "stored_as sample_env sh sample_event a"
    using PschEnqueueEvent_free [OF bw(1) sample_env_fresh sample_event_shape, of guc_init] bw by auto
  have inv: "queue_inv sh" using bw(1) by (simp add: producer_ok_def)
  have "a = (numeric_part sample_event, kept_err sample_event, kept_query sample_event)"
    by (rule stored_whole [OF inv bw(6) sample_env_fresh sample_env_sized _ _ _ E(3)])
      (simp_all add: bw(5) sample_env_serves key_collision_def intern_body_def)
  then have "a = (numeric_part sample_event, ''bad'', ''SELECT 1'')" by (simp add: sample_event_kept)
  with E(1,2) show ?thesis by (simp add: queued_world_def b)
qed

text \<open>
  C2 The queue refines a bounded FIFO of events. Trying any list of events one after the other
  keeps the first ones, as many as fit, and reports how many; draining then yields what was in
  the queue before, followed by those events in order.
\<close>

theorem queue_refines_fifo:
  assumes "fifo_valid q" "list_all event_shape es"
  shows "\<exists>q' xs. shq.put_all es 0 q = (q', length xs) \<and> fifo_valid q' \<and>
     length xs = min (length es) (fifo_cap q - length (fifo_items q)) \<and>
     list_all2 kept_as (take (length xs) es) xs \<and>
     fst (shq.drain (fifo_cap q) q') = fifo_items q @ xs"
proof -
  obtain q' xs where P: "shq.put_all es 0 q = (q', 0 + length xs)" "fifo_valid q'" "fifo_cap q' = fifo_cap q"
      "fifo_items q' = fifo_items q @ xs" "length xs = min (length es) (fifo_cap q - length (fifo_items q))"
      "list_all2 kept_as (take (length xs) es) xs"
    using shq.put_all_spec [OF assms] by blast
  have "length (fifo_items q') \<le> fifo_cap q" using shq.items_bound [OF P(2)] P(3) by simp
  with shq.drain_spec [OF P(2), of "fifo_cap q"] P(4)
  have "fst (shq.drain (fifo_cap q) q') = fifo_items q @ xs" by (auto simp: min_absorb2)
  with P show ?thesis by auto
qed

theorem queue_refines_fifo_witness:
  "\<exists>q' xs. shq.put_all [sample_event, zero_event] 0
       (guc_init, sample_env, fst (boot_world guc_init), (snd (boot_world guc_init))\<lparr>psch_dsa := True\<rparr>)
       = (q', length xs) \<and> length xs = 2 \<and> fst (shq.drain 131072 q') = xs"
proof -
  let ?q = "(guc_init, sample_env, fst (boot_world guc_init), (snd (boot_world guc_init))\<lparr>psch_dsa := True\<rparr>)"
  have "fifo_valid ?q"
    using boot_world_facts(1) by (simp add: fifo_valid_def producer_ok_def proc_ready_def)
  moreover have "fifo_cap ?q = 131072" "fifo_items ?q = []"
    using boot_world_facts(2,4) by (simp_all add: fifo_cap_def fifo_items_def)
  ultimately show ?thesis
    using queue_refines_fifo [of ?q "[sample_event, zero_event]"] by auto
qed

end
