(* ===== verification/Psch_Export_Live.thy ===== *)
theory Psch_Export_Live
  imports Psch_Exporter Psch_Queue_Props
begin

section \<open>Export batches of the two backends\<close>

text \<open>
  When the two backends answer, and the properties of a whole export batch: what it takes
  from the queue, what reaches the server, what is counted, for ClickHouse, for
  OpenTelemetry records and for Arrow blocks.
\<close>

subsection \<open>Backends that answer\<close>

lemma run_calls_no_throw:
  assumes "\<And>c s1 s2. c \<in> set cs \<Longrightarrow> vt_call vt c s1 \<noteq> Some (s2, Throw)"
  shows "run_calls (\<lambda>_. False) vt i cs s \<noteq> Some (s', Throw)"
  using assms
proof (induction cs arbitrary: i s)
  case (Cons c cs)
  have "vt_call vt c s \<noteq> Some (s', Throw)" using Cons.prems by simp
  moreover have "run_calls (\<lambda>_. False) vt (i + 1) cs s1 \<noteq> Some (s', Throw)" for s1
    using Cons.prems by (intro Cons.IH) simp
  ultimately show ?case by (auto simp: pg_bind_eq_Some)
qed (simp add: pg_ret_def)

lemma ch_call_throws: "ch_call c s1 = Some (s2, Throw) \<Longrightarrow> \<exists>col. c = MakeColumn col"
  by (cases s1; cases c) (auto simp: pg_ret_def split: option.splits outcome.splits)

lemma ch_export_calls_return:
  assumes "ch_inv st" and "list_all row_ok rs" and "vt_call vt = ch_call"
  shows "\<exists>s. run_calls (\<lambda>_. False) vt 0 (export_calls rs) (st, w) = Some (s, Ret ()) \<and>
     rows_held (st, w) (int (length rs)) (row_values rs) s"
proof -
  let ?st = "st\<lparr>columns := map ch_Clear (columns st), ch_exported := 0\<rparr>"
  let ?rows = "concat (map row_calls rs)"
  obtain n where n: "map col_sig (columns st) = take n ch_decls" using assms(1) by (auto simp: ch_inv_def)
  have b: "batch_only (st, w) (?st, w)" by (simp add: batch_only_def)
  have e: "cols_empty n (columns ?st)" using n by (auto simp: cols_empty_def comp_def)
  have "ok_res (\<lambda>_. False) (\<lambda>_ _. True) (run_calls (\<lambda>_. False) vt 1 (map MakeColumn (drop 0 stat_columns)) (?st, w))"
    by (rule ok_weaken [OF make_columns [OF b e, of 0 vt "\<lambda>_. False" "\<lambda>_. False" 1]]) (simp_all add: assms(3))
  then obtain s1 where s1: "run_calls (\<lambda>_. False) vt 1 (map MakeColumn stat_columns) (?st, w) = Some (s1, Ret ())"
    by (auto elim: ok_resE)
  have run: "run_calls (\<lambda>_. False) vt 0 (export_calls rs) (st, w) =
      run_calls (\<lambda>_. False) vt (1 + length stat_columns) ?rows s1"
    using assms(3) s1 by (simp add: export_calls_def run_calls_append)
  have nt: "run_calls (\<lambda>_. False) vt (1 + length stat_columns) ?rows s1 \<noteq> Some (s', Throw)" for s'
  proof (rule run_calls_no_throw)
    fix c and s1 s2 :: "ch_state \<times> world" assume "c \<in> set ?rows"
    then have "c \<noteq> MakeColumn col" for col by (auto simp: row_calls_def split: if_splits)
    then show "vt_call vt c s1 \<noteq> Some (s2, Throw)" unfolding assms(3) using ch_call_throws by blast
  qed
  from export_calls_spec [OF assms, of w "\<lambda>_. False"] show ?thesis
  proof (cases rule: ok_resE)
    case (throws s)
    then show ?thesis using nt [of s] run by simp
  next
    case (ret s u)
    then show ?thesis by (cases u) blast
  qed
qed

lemma ch_answers:
  assumes "chc_ok env" and "\<forall>st. ch_inv st \<longrightarrow> snd (ch_EstablishNewConnection g env st)"
  shows "answers (MakeClickHouseExporter g env penv) penv ch_inv"
proof -
  let ?vt = "MakeClickHouseExporter g env penv"
  have calls: "vt_call ?vt = ch_call" by (simp add: MakeClickHouseExporter_def)
  have "\<exists>s. run_calls (\<lambda>_. False) ?vt 0 (export_calls rs) (x, w) = Some (s, Ret ()) \<and>
      (\<forall>w' s' ok. idle penv w' \<and> vt_CommitBatch ?vt (fst s, w') = Some (s', ok) \<longrightarrow> ok)"
    if x: "ch_inv x" "vt_IsConnected ?vt x" "list_all row_ok rs" for x w rs
  proof -
    obtain s where s: "run_calls (\<lambda>_. False) ?vt 0 (export_calls rs) (x, w) = Some (s, Ret ())"
        "rows_held (x, w) (int (length rs)) (row_values rs) s"
      using ch_export_calls_return [OF x(1,3) calls] by blast
    obtain x' w1 where s': "s = (x', w1)" by (cases s)
    note P = ch_inv_partial [OF x(1) rows_held_partial [OF s(2) [unfolded s']]]
    have "client x'" using P(5) x(2) by (simp add: MakeClickHouseExporter_def)
    then have "ok" if "vt_CommitBatch ?vt (x', w') = Some (s', ok)" for w' s' ok
      using CommitBatch_ok [OF assms(1) P(1), of g penv w'] that by (auto simp: MakeClickHouseExporter_def)
    then have "\<forall>w' s' ok. idle penv w' \<and> vt_CommitBatch ?vt (fst s, w') = Some (s', ok) \<longrightarrow> ok"
      unfolding s' fst_conv by blast
    with s(1) show ?thesis by blast
  qed
  then show ?thesis using assms(2) unfolding answers_def by (auto simp: MakeClickHouseExporter_def)
qed

lemma otel_call_returns:
  assumes "\<forall>i. grpc env i = GrpcOk"
  shows "otel_call env penv c (st, w) \<noteq> Some (s, Throw)"
proof (cases c)
  case BeginRow
  have add: "add_log_record v \<noteq> Some (s, Throw)" for v
    by (auto simp: add_log_record_def pg_ret_def split: prod.splits option.splits)
  show ?thesis
  proof (cases "FlushChunk env penv (st, w)")
    case (Some a)
    obtain st' w' r where a: "a = ((st', w'), r)" by (metis surj_pair)
    have "r = Ret True" using FlushChunk_ok [OF assms, of penv st w st' w' r] Some a by simp
    with Some a add show ?thesis by (simp add: BeginRow pg_ret_def)
  qed (use add in \<open>simp add: BeginRow pg_ret_def\<close>)
qed (auto simp: pg_ret_def Let_def split: option.splits prod.splits)

lemma otel_answers:
  assumes "\<forall>i. grpc env i = GrpcOk" and "channel_ok env"
  shows "answers (MakeOpenTelemetryExporter g env penv) penv otel_inv"
proof -
  let ?vt = "MakeOpenTelemetryExporter g env penv"
  have calls: "vt_call ?vt = otel_call env penv" by (simp add: MakeOpenTelemetryExporter_def)
  have "\<exists>s. run_calls (\<lambda>_. False) ?vt 0 (export_calls rs) (x, w) = Some (s, Ret ()) \<and>
      (\<forall>w' s' ok. idle penv w' \<and> vt_CommitBatch ?vt (fst s, w') = Some (s', ok) \<longrightarrow> ok)"
    if x: "otel_inv x" "vt_IsConnected ?vt x" "idle penv w" for x w rs
  proof -
    have "stub x" using x(2) by (simp add: MakeOpenTelemetryExporter_def)
    from otel_export_calls [OF x(1) this x(3) calls, of rs "\<lambda>_. False"]
    obtain s r where s: "run_calls (\<lambda>_. False) ?vt 0 (export_calls rs) (x, w) = Some (s, r)"
      by (auto elim!: ok_resE)
    have "vt_call ?vt c s1 \<noteq> Some (s2, Throw)" for c s1 s2
      unfolding calls using otel_call_returns [OF assms(1)] by (cases s1) blast
    then have r: "r = Ret ()" using run_calls_no_throw [of "export_calls rs" ?vt 0 "(x, w)" s] s by (cases r) auto
    have f: "\<not> batch_failed (fst s)" using export_calls_ok [OF assms(1) calls, of "\<lambda>_. False" rs x w s] s r by simp
    have "ok" if "vt_CommitBatch ?vt (fst s, w') = Some (s', ok)" for w' s' ok
      using that f FlushChunk_ok [OF assms(1), of penv "fst s" w']
      by (auto simp: MakeOpenTelemetryExporter_def otel_CommitBatch_def split: if_splits option.splits prod.splits outcome.splits)
    then show ?thesis using s r by blast
  qed
  then show ?thesis
    using assms(2) unfolding answers_def
    by (auto simp: MakeOpenTelemetryExporter_def otel_EstablishNewConnection_def Let_def)
qed

subsection \<open>The worker attaches\<close>

declare length_abs_queue [simp del]

lemma queue_inv_refcnt [simp]:
  "queue_inv (sh\<lparr>dsa_refcnt := n\<rparr>) = queue_inv sh" "abs_queue (sh\<lparr>dsa_refcnt := n\<rparr>) = abs_queue sh"
  "proc_ready (sh\<lparr>dsa_refcnt := n\<rparr>) p = proc_ready sh p"
proof -
  have eq: "dsa_area (sh\<lparr>dsa_refcnt := n\<rparr>) = dsa_area sh" "intern_tab (sh\<lparr>dsa_refcnt := n\<rparr>) = intern_tab sh"
      "live (sh\<lparr>dsa_refcnt := n\<rparr>) = live sh"
    by (simp_all add: live_def)
  show "queue_inv (sh\<lparr>dsa_refcnt := n\<rparr>) = queue_inv sh"
    by (simp add: queue_inv_def heap_inv_cong [OF eq(1,2)] eq(3))
  show "abs_queue (sh\<lparr>dsa_refcnt := n\<rparr>) = abs_queue sh"
    by (simp add: abs_queue_def abs_slot_cong [OF eq(1)] eq(3))
qed (simp add: proc_ready_def)

lemma attach_worker_ok:
  assumes "queue_inv (fst w)" and "proc_ready (fst w) (snd w)" and "idle penv w"
    and "list_all abs_exportable (abs_queue (fst w))" and "dsa_attach_ok penv"
  shows "\<exists>w'. PschDsaAttach penv w = Some (w', Ret ()) \<and> worker_ok penv w' \<and> abs_queue (fst w') = abs_queue (fst w) \<and>
     bgworker_pid (fst w') = bgworker_pid (fst w)"
proof -
  obtain sh p where w: "w = (sh, p)" by (cases w)
  obtain sh' p' where a: "PschDsaAttach penv w = Some ((sh', p'), Ret ())" "psch_dsa p'" "same_but_refcnt sh sh'" "same_proc p p'"
  proof -
    have "\<exists>sh' p'. PschDsaAttach penv (sh, p) = Some ((sh', p'), Ret ()) \<and> psch_dsa p'"
      using assms(2,5) by (simp add: w PschDsaAttach_def proc_ready_def pg_ret_def Let_def on_shmem_exit_def)
    then show thesis using PschDsaAttach_frame [of penv sh p] that by (auto simp: w)
  qed
  have sh': "sh' = sh\<lparr>dsa_refcnt := dsa_refcnt sh'\<rparr>"
    using a(3) unfolding same_but_refcnt_def by (cases sh; cases sh') simp
  have "worker_ok penv (sh', p')"
    using assms(1-4) a(2) same_procD(1-3) [OF a(4)] unfolding w
    by (subst sh') (simp add: worker_ok_def idle_def proc_ready_def)
  moreover have "abs_queue sh' = abs_queue sh" "bgworker_pid sh' = bgworker_pid sh" by (subst sh', simp)+
  ultimately show ?thesis using a(1) by (auto simp: w)
qed

text \<open>A worker that finds one event.\<close>

definition worker_world :: world where
  "worker_world = (case PschDsaAttach sample_env queued_world of Some (w, _) \<Rightarrow> w | None \<Rightarrow> queued_world)"

lemma worker_world_facts [simp]:
  "worker_ok sample_env worker_world" "length (abs_queue (fst worker_world)) = 1"
proof -
  have "abs_exportable a" if "fst a = numeric_part sample_event" for a
    using that exportable_out_event [of zero_event] zero_event_exportable zero_event_arrow
    by (cases a) (simp add: abs_exportable_def sample_event_def out_event_def)
  then have "list_all abs_exportable (abs_queue (fst queued_world))"
    using queued_world_facts(7) by (simp add: list_all_iff)
  moreover have "idle sample_env queued_world"
    using queued_world_facts(4,5) sample_env_ok by (simp add: idle_def producer_ok_def env_ok_def)
  moreover have "dsa_attach_ok sample_env" by (simp add: sample_env_def)
  ultimately obtain w' where "PschDsaAttach sample_env queued_world = Some (w', Ret ())" "worker_ok sample_env w'"
      "abs_queue (fst w') = abs_queue (fst queued_world)"
    using attach_worker_ok [OF queued_world_facts(1,2)] by blast
  then show "worker_ok sample_env worker_world" "length (abs_queue (fst worker_world)) = 1"
    using queued_world_facts(6) by (simp_all add: worker_world_def)
qed

definition export_sample :: export_env where
  "export_sample =
     \<lparr>reserve_exc = None, call_throws = (\<lambda>_. False), stats_exc = bad_alloc, arrow = arrow_sample_lib,
      arrow_exc = (\<lambda>_. None), event_mem = zero_event, version_text = ''1.0''\<rparr>"

lemma export_sample_simps [simp]:
  "reserve_exc export_sample = None" "call_throws export_sample = (\<lambda>_. False)" "arrow export_sample = arrow_sample_lib"
  "arrow_exc export_sample = (\<lambda>_. None)" "event_bufs (event_mem export_sample)"
  by (simp_all add: export_sample_def)

lemma not_arrow_init [simp]: "\<not> as_arrow guc_init" "nat (psch_batch_max guc_init) = 200000"
  by (simp_all add: as_arrow_def guc_init_def)

lemma chc_sample_connects [simp]: "snd (ch_EstablishNewConnection guc_init chc_sample st)"
  by (simp add: ch_EstablishNewConnection_def EnsureMemoryContexts_def TcpConnect_def chc_sample_def guc_init_def)

subsection \<open>Batches\<close>

lemma rows_exported_all:
  assumes "rows_exported delivered img q s s' n True"
  shows "\<exists>rs. rows_of q rs \<and> delivered (fst s') = delivered (fst s) @ map img rs \<and> n = int (length q) \<and>
     exported (fst (snd s')) = exported (fst (snd s)) + word_of_int n"
proof -
  obtain rs j where r: "rows_of q rs" "delivered (fst s') = delivered (fst s) @ map img (take j rs)" "j = length q"
      "n = int (length q)" "exported (fst (snd s')) = exported (fst (snd s)) + word_of_int n"
    using assms by (auto simp: rows_exported_def)
  then have "take j rs = rs" by (simp add: rows_of_length)
  with r show ?thesis by (intro exI [of _ rs]) simp
qed

text \<open>
  One call of \<^verbatim>\<open>PschExportBatch\<close> that exports rows: it returns, whatever the backend, the
  network and the allocator do; the worker's invariant and that of the backend hold again;
  the oldest \<open>k\<close> events, at most \<^verbatim>\<open>psch_batch_max\<close>, are taken from the queue and a prefix of
  them is delivered in order; if the batch is committed all of them are, the return value is
  their number and \<^verbatim>\<open>exported\<close> grows by it, otherwise \<^verbatim>\<open>exported\<close> does not change. It takes all it
  can when it has a connection and the memory for the events.
\<close>

definition batch_accounted ::
    "guc \<Rightarrow> export_env \<Rightarrow> pg_env \<Rightarrow> 'x StatsExporter \<Rightarrow> ('x \<Rightarrow> bool) \<Rightarrow> ('x \<Rightarrow> 'r list) \<Rightarrow> (stat_row \<Rightarrow> 'r) \<Rightarrow> 'x \<Rightarrow> world \<Rightarrow> bool"
  where
  "batch_accounted g e penv vt I delivered img x w \<longleftrightarrow>
     (\<exists>x' w' n k ok. PschExportBatch g e penv vt (Some x, w) = Some ((Some x', w'), Ret n) \<and> I x' \<and>
        worker_ok penv w' \<and> k \<le> nat (psch_batch_max g) \<and> n \<le> int k \<and>
        abs_queue (fst w') = drop k (abs_queue (fst w)) \<and>
        rows_exported delivered img (take k (abs_queue (fst w))) (x, w) (x', w') n ok \<and>
        ((vt_IsConnected vt x \<or> snd (vt_EstablishNewConnection vt x)) \<and> reserve_exc e = None \<longrightarrow>
           k = min (nat (psch_batch_max g)) (length (abs_queue (fst w))) \<and>
           (answers vt penv I \<and> call_throws e = (\<lambda>_. False) \<longrightarrow> k = 0 \<or> ok)))"

context stats_exporter
begin

lemma batch_accounted_law:
  assumes "inv x" and "worker_ok penv w" and "event_bufs (event_mem e)" and "\<not> as_arrow g"
  shows "batch_accounted g e penv vt inv delivered image x w"
proof -
  obtain x' w' n k ok where "PschExportBatch g e penv vt (Some x, w) = Some ((Some x', w'), Ret n)" "inv x'"
      "k \<le> nat (psch_batch_max g)" "n \<le> int k" "leaves penv w (drop k (abs_queue (fst w))) w'"
      "rows_exported delivered image (take k (abs_queue (fst w))) (x, w) (x', w') n ok"
      "(vt_IsConnected vt x \<or> snd (vt_EstablishNewConnection vt x)) \<and> reserve_exc e = None \<longrightarrow>
        k = min (nat (psch_batch_max g)) (length (abs_queue (fst w))) \<and>
        (answers vt penv inv \<and> call_throws e = (\<lambda>_. False) \<longrightarrow> k = 0 \<or> ok)"
    using PschExportBatch_spec [OF assms(1-3), of g] assms(4) by (simp only: if_False) blast
  then show ?thesis unfolding batch_accounted_def leaves_def by blast
qed

end

text \<open>
  C14. With ClickHouse and with OpenTelemetry, a call of \<^verbatim>\<open>PschExportBatch\<close> that exports rows returns
  with all invariants; it takes the oldest events from the queue, a prefix of their rows is
  delivered in order, and \<^verbatim>\<open>exported\<close> grows by their number exactly when the whole batch is
  committed, which it is when the backend answers; otherwise it does not change, although a
  prefix may have been delivered.
\<close>

theorem export_batch_accounted:
  assumes "worker_ok penv w" and "event_bufs (event_mem e)" and "\<not> as_arrow g"
  shows "(ch_inv x \<longrightarrow> batch_accounted g e penv (MakeClickHouseExporter g cenv penv) ch_inv ch_delivered ch_image x w) \<and>
     (otel_inv y \<longrightarrow> batch_accounted g e penv (MakeOpenTelemetryExporter g oenv penv) otel_inv
        (\<lambda>st. concat (sent st)) otel_image y w)"
  using chx.batch_accounted_law [OF _ assms] otx.batch_accounted_law [OF _ assms] by blast

text \<open>
  The sample batch: ClickHouse gets the row of the queued event, the queue is empty.
\<close>

theorem export_batch_accounted_witness:
  "\<exists>x' w' rs. PschExportBatch guc_init export_sample sample_env (MakeClickHouseExporter guc_init chc_sample sample_env)
       (Some ch_sample_conn, worker_world) = Some ((Some x', w'), Ret 1) \<and> abs_queue (fst w') = [] \<and>
     rows_of (abs_queue (fst worker_world)) rs \<and> ch_delivered x' = ch_delivered ch_sample_conn @ map ch_image rs \<and>
     exported (fst w') = exported (fst worker_world) + 1"
proof -
  let ?vt = "MakeClickHouseExporter guc_init chc_sample sample_env" and ?q = "abs_queue (fst worker_world)"
  have a: "answers ?vt sample_env ch_inv" by (rule ch_answers) simp_all
  have len: "length ?q = 1" by (rule worker_world_facts)
  have c: "vt_IsConnected ?vt ch_sample_conn" by (simp add: MakeClickHouseExporter_def)
  have "batch_accounted guc_init export_sample sample_env ?vt ch_inv ch_delivered ch_image ch_sample_conn worker_world"
    using export_batch_accounted [OF worker_world_facts(1), of export_sample guc_init ch_sample_conn chc_sample] by simp
  then obtain x' w' n k ok where P: "PschExportBatch guc_init export_sample sample_env ?vt (Some ch_sample_conn, worker_world)
        = Some ((Some x', w'), Ret n)" "abs_queue (fst w') = drop k ?q"
      "rows_exported ch_delivered ch_image (take k ?q) (ch_sample_conn, worker_world) (x', w') n ok"
      "k = min (nat (psch_batch_max guc_init)) (length ?q)" "k = 0 \<or> ok"
    unfolding batch_accounted_def using a c by auto
  have k: "k = 1" using P(4) len by simp
  then have ok using P(5) by simp
  with P(3) have "rows_exported ch_delivered ch_image ?q (ch_sample_conn, worker_world) (x', w') n True" using k len by simp
  from rows_exported_all [OF this] obtain rs where "rows_of ?q rs" "n = int (length ?q)"
      "ch_delivered x' = ch_delivered ch_sample_conn @ map ch_image rs"
      "exported (fst w') = exported (fst worker_world) + word_of_int n"
    by auto
  with P(1,2) k len show ?thesis by (intro exI [of _ x'] exI [of _ w'] exI [of _ rs]) simp
qed

subsection \<open>Arrow blocks\<close>

lemma otel_always_sends:
  assumes "arrow_lib_ok lib" and "\<forall>b. ipc_buffer lib b \<noteq> Some []" and "\<forall>i. grpc env i = GrpcOk"
  shows "always_sends lib (MakeOpenTelemetryExporter g env penv)"
  using assms unfolding always_sends_def
  by (auto simp: MakeOpenTelemetryExporter_def otel_SendArrowBatch_def Let_def split: if_splits)

text \<open>
  The documented contract of the IPC stream format: a reader gets back the record batch that
  was written. The columns of all blocks joined are those of one batch.
\<close>

definition ipc_reader :: "arrow_lib \<Rightarrow> (char list \<Rightarrow> record_batch) \<Rightarrow> bool" where
  "ipc_reader lib rd \<longleftrightarrow> (\<forall>r buf. ipc_buffer lib r = Some buf \<longrightarrow> rd buf = r)"

definition read_columns :: "(char list \<Rightarrow> record_batch) \<Rightarrow> char list list \<Rightarrow> (arrow_type \<times> cell list) list" where
  "read_columns rd bufs =
     map (\<lambda>(j, f, t). (t, concat (map (\<lambda>buf. snd (snd (snd (rd buf)) ! j)) bufs))) (enumerate 0 arrow_schema)"

lemma read_columns_blocks:
  assumes "ipc_reader lib rd" and "list_all2 (block_of lib im) chunks bs"
  shows "read_columns rd (map fst bs) = arrow_columns im (concat chunks)"
proof -
  have rd: "rd (fst b) = (arrow_schema, length c, arrow_columns im c)" if "block_of lib im c b" for c b
    using assms(1) that by (auto simp: ipc_reader_def block_of_def)
  have col: "snd (arrow_columns im c ! j) = map (field_cell im (fst (arrow_schema ! j))) c" if "j < length arrow_schema" for c j
    using that by (simp add: arrow_columns_def split_def)
  have cells: "concat (map (\<lambda>b. snd (snd (snd (rd (fst b))) ! j)) bs)
      = map (field_cell im (fst (arrow_schema ! j))) (concat chunks)" if "j < length arrow_schema" for j
    using assms(2)
  proof (induction rule: list_all2_induct)
    case (Cons c cs b bs)
    then show ?case using rd [OF Cons(1)] col [OF that] by simp
  qed simp
  show ?thesis
    by (rule nth_equalityI)
      (simp_all add: read_columns_def arrow_columns_def nth_enumerate_eq split_def comp_def cells [simplified comp_def])
qed

text \<open>
  C40. A batch that is exported as Arrow blocks: the call returns with all invariants, whatever
  the library, gRPC and the allocator do. The \<open>k\<close> oldest events are taken from the queue; the
  confirmed blocks are the encodings of consecutive, non-empty chunks of them, in order, each
  with its number of rows, so no event is sent twice, and whoever reads the blocks back gets,
  column by column, the values of those events. If the export succeeds all \<open>k\<close> events are sent,
  and the exported counter goes up by \<open>k\<close>; if it fails part way the counter does not move,
  although the blocks before the failure have been confirmed. It succeeds when no call of the
  library and no gRPC call fails and the library writes no empty buffer.
\<close>

theorem arrow_batch_exported:
  assumes "worker_ok penv w" and "event_bufs (event_mem e)" and "otel_inv y" and "as_arrow g"
  shows "\<exists>y' w' n k ok. PschExportBatch g e penv (MakeOpenTelemetryExporter g oenv penv) (Some y, w) = Some ((Some y', w'), Ret n) \<and>
     otel_inv y' \<and> worker_ok penv w' \<and> k \<le> nat (psch_batch_max g) \<and> n \<le> int k \<and>
     abs_queue (fst w') = drop k (abs_queue (fst w)) \<and>
     blocks_exported (arrow e) (fst (Init (psch_extra_attributes g) (Some (version_text e)) Impl_new)) blocks
       (take k (abs_queue (fst w))) (y, w) (y', w') n ok \<and>
     (\<forall>rd. ipc_reader (arrow e) rd \<longrightarrow>
        (\<exists>sent rest. map out_event (sent @ rest) = take k (abs_queue (fst w)) \<and> (ok \<longrightarrow> rest = []) \<and>
           read_columns rd (map fst (drop (length (blocks y)) (blocks y')))
             = arrow_columns (fst (Init (psch_extra_attributes g) (Some (version_text e)) Impl_new)) sent)) \<and>
     ((stub y \<or> channel_ok oenv) \<and> reserve_exc e = None \<longrightarrow>
        k = min (nat (psch_batch_max g)) (length (abs_queue (fst w))) \<and>
        (arrow_lib_ok (arrow e) \<and> (\<forall>b. ipc_buffer (arrow e) b \<noteq> Some []) \<and> (\<forall>i. arrow_exc e i = None) \<and>
         (\<forall>i. grpc oenv i = GrpcOk) \<longrightarrow> k = 0 \<or> ok))"
proof -
  let ?vt = "MakeOpenTelemetryExporter g oenv penv"
  let ?im = "fst (Init (psch_extra_attributes g) (Some (version_text e)) Impl_new)"
  have up: "vt_IsConnected ?vt y \<or> snd (vt_EstablishNewConnection ?vt y) \<longleftrightarrow> stub y \<or> channel_ok oenv"
    by (simp add: MakeOpenTelemetryExporter_def otel_EstablishNewConnection_def Let_def)
  obtain y' w' n k ok where P: "PschExportBatch g e penv ?vt (Some y, w) = Some ((Some y', w'), Ret n)" "otel_inv y'"
      "k \<le> nat (psch_batch_max g)" "n \<le> int k" "leaves penv w (drop k (abs_queue (fst w))) w'"
      "blocks_exported (arrow e) ?im blocks (take k (abs_queue (fst w))) (y, w) (y', w') n ok"
      "(vt_IsConnected ?vt y \<or> snd (vt_EstablishNewConnection ?vt y)) \<and> reserve_exc e = None \<longrightarrow>
        k = min (nat (psch_batch_max g)) (length (abs_queue (fst w))) \<and>
        (always_sends (arrow e) ?vt \<and> (\<forall>i. arrow_exc e i = None) \<longrightarrow> k = 0 \<or> ok)"
    using otx.PschExportBatch_spec [OF assms(3,1,2), of g g oenv] assms(4) by (simp only: if_True) blast
  obtain chunks bs rest where B: "map out_event (concat chunks @ rest) = take k (abs_queue (fst w))"
      "blocks y' = blocks y @ bs" "list_all2 (block_of (arrow e) ?im) chunks bs" "ok \<longrightarrow> rest = []"
    using P(6) unfolding blocks_exported_def fst_conv by (auto split: if_splits)
  have drop_bs: "drop (length (blocks y)) (blocks y') = bs" by (simp add: B(2))
  have read: "\<exists>sent rest. map out_event (sent @ rest) = take k (abs_queue (fst w)) \<and> (ok \<longrightarrow> rest = []) \<and>
      read_columns rd (map fst (drop (length (blocks y)) (blocks y'))) = arrow_columns ?im sent"
    if "ipc_reader (arrow e) rd" for rd
    unfolding drop_bs using B(1,4) read_columns_blocks [OF that B(3)] by blast
  from P(7) otel_always_sends [of "arrow e" oenv g penv]
  have "(stub y \<or> channel_ok oenv) \<and> reserve_exc e = None \<longrightarrow>
        k = min (nat (psch_batch_max g)) (length (abs_queue (fst w))) \<and>
        (arrow_lib_ok (arrow e) \<and> (\<forall>b. ipc_buffer (arrow e) b \<noteq> Some []) \<and> (\<forall>i. arrow_exc e i = None) \<and>
         (\<forall>i. grpc oenv i = GrpcOk) \<longrightarrow> k = 0 \<or> ok)"
    unfolding up by blast
  with P(1-6) read show ?thesis unfolding leaves_def by blast
qed

definition arrow_guc :: guc where
  "arrow_guc = guc_init\<lparr>psch_use_otel := True, psch_otel_arrow_passthrough := True\<rparr>"

lemma arrow_sample_reader: "ipc_reader arrow_sample_lib (\<lambda>buf. fst (dec_batch buf))"
  by (simp add: ipc_reader_def arrow_sample_lib_def dec_enc_batch)

theorem arrow_batch_exported_witness:
  "\<exists>y' w' ev buf. PschExportBatch arrow_guc export_sample sample_env (MakeOpenTelemetryExporter arrow_guc otel_sample sample_env)
       (Some otel_sample_conn, worker_world) = Some ((Some y', w'), Ret 1) \<and> abs_queue (fst w') = [] \<and>
     blocks y' = blocks otel_sample_conn @ [(buf, 1)] \<and> exported (fst w') = exported (fst worker_world) + 1 \<and>
     abs_queue (fst worker_world) = [out_event ev] \<and>
     read_columns (\<lambda>buf. fst (dec_batch buf)) [buf]
       = arrow_columns (fst (Init (psch_extra_attributes arrow_guc) (Some (version_text export_sample)) Impl_new)) [ev]"
proof -
  let ?vt = "MakeOpenTelemetryExporter arrow_guc otel_sample sample_env" and ?q = "abs_queue (fst worker_world)"
  let ?im = "fst (Init (psch_extra_attributes arrow_guc) (Some (version_text export_sample)) Impl_new)"
  have g: "as_arrow arrow_guc" "nat (psch_batch_max arrow_guc) = 200000" by (simp_all add: arrow_guc_def as_arrow_def guc_init_def)
  have len: "length ?q = 1" by (rule worker_world_facts)
  have h: "arrow_lib_ok arrow_sample_lib \<and> (\<forall>b. ipc_buffer arrow_sample_lib b \<noteq> Some []) \<and> (\<forall>i. grpc otel_sample i = GrpcOk)"
    by (simp add: arrow_sample_lib_def arrow_lib_ok_def otel_sample_def enc_batch_not_Nil)
  obtain y' w' n k ok where P: "PschExportBatch arrow_guc export_sample sample_env ?vt (Some otel_sample_conn, worker_world)
        = Some ((Some y', w'), Ret n)" "abs_queue (fst w') = drop k ?q"
      "blocks_exported arrow_sample_lib ?im blocks (take k ?q) (otel_sample_conn, worker_world) (y', w') n ok"
      "\<forall>rd. ipc_reader arrow_sample_lib rd \<longrightarrow>
        (\<exists>sent rest. map out_event (sent @ rest) = take k ?q \<and> (ok \<longrightarrow> rest = []) \<and>
           read_columns rd (map fst (drop (length (blocks otel_sample_conn)) (blocks y'))) = arrow_columns ?im sent)"
      "k = min (nat (psch_batch_max arrow_guc)) (length ?q)" "k = 0 \<or> ok"
    using arrow_batch_exported [OF worker_world_facts(1) export_sample_simps(5) otel_sample_conn(1) g(1), of otel_sample]
      h otel_sample_conn(2) export_sample_simps by (auto simp del: Init_def)
  have k: "k = 1" using P(5) len g(2) by simp
  then have ok using P(6) by simp
  have t: "take k ?q = ?q" using k len by simp
  obtain chunks bs where b: "map out_event (concat chunks) = ?q" "blocks y' = blocks otel_sample_conn @ bs"
      "list_all2 (block_of arrow_sample_lib ?im) chunks bs" "n = 1" "exported (fst w') = exported (fst worker_world) + word_of_int n"
    using P(3) \<open>ok\<close> len unfolding t blocks_exported_def by auto
  have c1: "length (concat chunks) = 1" using arg_cong [OF b(1), of length] len by simp
  have ne: "\<forall>c\<in>set chunks. c \<noteq> []" using b(3) by (auto simp: list_all2_conv_all_nth in_set_conv_nth block_of_def)
  obtain c where c: "chunks = [c]" "length c = 1"
  proof (cases chunks)
    case (Cons c cs)
    then have "length c = 1 \<and> concat cs = []" using c1 ne by (cases c) auto
    moreover from this have "cs = []" using ne Cons by (cases cs) auto
    ultimately show thesis using that Cons by simp
  qed (use c1 in simp)
  then obtain buf where buf: "bs = [(buf, 1)]" using b(3) by (auto simp: list_all2_Cons1 block_of_def)
  have dr: "map fst (drop (length (blocks otel_sample_conn)) (blocks y')) = [buf]" by (simp add: b(2) buf)
  obtain sent where sent: "map out_event sent = ?q" "read_columns (\<lambda>buf. fst (dec_batch buf)) [buf] = arrow_columns ?im sent"
    using P(4) [rule_format, OF arrow_sample_reader] \<open>ok\<close> unfolding t dr by auto
  have "length sent = 1" using arg_cong [OF sent(1), of length] len by simp
  then obtain ev where "sent = [ev]" by (cases sent) auto
  with P(1,2) b buf k len sent show ?thesis
    by (intro exI [of _ y'] exI [of _ w'] exI [of _ ev] exI [of _ buf]) simp
qed

end
