(* ===== verification/Psch_Bgworker.thy ===== *)
theory Psch_Bgworker
  imports Psch_Export_Live
begin

section \<open>The background worker (\<^verbatim>\<open>bgworker.c\<close>)\<close>

text \<open>
  The process that drains the queue. Its state has the exporter, the segment and its own
  process state, the configuration it last read, and the time: \<open>clock\<close> counts the calls of
  \<^verbatim>\<open>ProcessPendingSignals\<close>, and everything outside of the worker is a function of it
  (\<open>bgw_env\<close>): how the backend and the allocator behave, the signals that have arrived, a
  configuration file that is read on SIGHUP, and what the other processes did to the
  segment since the last time. \<open>waits\<close> is a trace of the timeouts of \<^verbatim>\<open>WaitLatch\<close>, and
  \<open>barriers\<close> counts the acknowledged barriers. \<^const>\<open>Throw\<close> means that the process exits (SIGTERM, death of
  the postmaster, a failed start). The drain loop has no bound of its own; it is a
  \<^theory_text>\<open>partial_function\<close>, and that it ends is proved.
\<close>

text \<open>
  \<^verbatim>\<open>CHECK_FOR_INTERRUPTS\<close> serves what is pending. A request to end or to cancel raises an error,
  which ends this process (\<open>interrupt_raises\<close>); any other interrupt is served and the call
  returns.
\<close>

record bgw_signals =
  ProcSignalBarrierPending :: bool
  InterruptPending :: bool
  interrupt_raises :: bool
  ConfigReloadPending :: "guc option"

definition exit_pending :: "bgw_signals \<Rightarrow> bool" where
  "exit_pending sig \<longleftrightarrow> InterruptPending sig \<and> interrupt_raises sig"

record 'x bgw_env =
  backend :: "guc \<Rightarrow> nat \<Rightarrow> 'x StatsExporter"
  exports :: "nat \<Rightarrow> export_env"
  signals :: "nat \<Rightarrow> bgw_signals"
  others :: "nat \<Rightarrow> PschSharedState \<Rightarrow> PschSharedState"
  postmaster_dead :: "nat \<Rightarrow> bool"

record 'x bgworker =
  g_exporter :: "'x option"
  world_of :: world
  conf :: guc
  clock :: nat
  barriers :: nat
  activity :: "char list option"
  waits :: "int list"

definition HandleConfigReload :: "bgw_signals \<Rightarrow> 'x bgworker \<Rightarrow> 'x bgworker" where
  "HandleConfigReload sig b = (case ConfigReloadPending sig of None \<Rightarrow> b | Some g \<Rightarrow> b\<lparr>conf := g\<rparr>)"

definition ProcessPendingSignals :: "'x bgw_env \<Rightarrow> 'x bgworker \<Rightarrow> 'x bgworker \<times> unit outcome" where
  "ProcessPendingSignals env b =
     (let sig = signals env (clock b);
          b = b\<lparr>world_of := (others env (clock b) (fst (world_of b)), snd (world_of b)), clock := clock b + 1\<rparr>;
          b = (if ProcSignalBarrierPending sig then b\<lparr>barriers := barriers b + 1\<rparr> else b)
      in if exit_pending sig then (b, Throw) else (HandleConfigReload sig b, Ret ()))"

subsection \<open>Draining\<close>

text \<open>\<^verbatim>\<open>PG_TRY(); exported = PschExportBatch(); PG_CATCH();\<close>: an error leaves \<^verbatim>\<open>exported\<close> at 0.\<close>

definition try_export :: "'x bgw_env \<Rightarrow> pg_env \<Rightarrow> 'x bgworker \<Rightarrow> ('x bgworker \<times> int) option" where
  "try_export env penv b =
     (case PschExportBatch (conf b) (exports env (clock b)) penv (backend env (conf b) (clock b))
             (g_exporter b, world_of b) of
        None \<Rightarrow> None
      | Some ((x, w), r) \<Rightarrow>
          Some (b\<lparr>g_exporter := x, world_of := w\<rparr>, case r of Ret n \<Rightarrow> n | Throw \<Rightarrow> 0))"

partial_function (option) drain :: "'x bgw_env \<Rightarrow> pg_env \<Rightarrow> 'x bgworker \<Rightarrow> ('x bgworker, unit) pgres" where
  "drain env penv b =
     (case try_export env penv b of
        None \<Rightarrow> None
      | Some (b, n) \<Rightarrow>
          if n < psch_batch_max (conf b) then Some (b, Ret ())
          else
            (case ProcessPendingSignals env b of
               (b, Throw) \<Rightarrow> Some (b, Throw)
             | (b, Ret _) \<Rightarrow> if \<not> psch_enabled (conf b) then Some (b, Ret ()) else drain env penv b))"

definition ExportBatchWithRecovery :: "'x bgw_env \<Rightarrow> pg_env \<Rightarrow> 'x bgworker \<Rightarrow> ('x bgworker, unit) pgres" where
  "ExportBatchWithRecovery env penv b =
     pg_bind (drain env penv (b\<lparr>activity := Some ''exporting to ClickHouse''\<rparr>))
       (\<lambda>b _. pg_ret (b\<lparr>activity := None\<rparr>) ())"

subsection \<open>Cycles\<close>

definition CalculateSleepMs :: "guc \<Rightarrow> 'x StatsExporter \<Rightarrow> 'x option \<Rightarrow> int" where
  "CalculateSleepMs g vt x =
     (let sleep_ms = psch_flush_interval_ms g; failures = PschGetConsecutiveFailures vt x
      in if 0 < failures then
           let backoff_ms = PschGetRetryDelayMs vt x
           in if backoff_ms > sleep_ms then backoff_ms else sleep_ms
         else sleep_ms)"

definition RunExportCycle :: "'x bgw_env \<Rightarrow> pg_env \<Rightarrow> 'x bgworker \<Rightarrow> ('x bgworker, unit) pgres" where
  "RunExportCycle env penv b =
     (let b = b\<lparr>waits := waits b @ [CalculateSleepMs (conf b) (backend env (conf b) (clock b)) (g_exporter b)]\<rparr>
      in if postmaster_dead env (clock b) then Some (b, Throw)
         else
           (case ProcessPendingSignals env b of
              (b, Throw) \<Rightarrow> Some (b, Throw)
            | (b, Ret _) \<Rightarrow> if psch_enabled (conf b) then ExportBatchWithRecovery env penv b else pg_ret b ()))"

text \<open>The first \<open>n\<close> turns of the main loop.\<close>

fun run_cycles :: "nat \<Rightarrow> 'x bgw_env \<Rightarrow> pg_env \<Rightarrow> 'x bgworker \<Rightarrow> ('x bgworker, unit) pgres" where
  "run_cycles 0 env penv b = pg_ret b ()"
| "run_cycles (Suc n) env penv b = pg_bind (RunExportCycle env penv b) (\<lambda>b _. run_cycles n env penv b)"

definition PschBgworkerShutdown :: "'x bgworker \<Rightarrow> 'x bgworker" where
  "PschBgworkerShutdown b =
     b\<lparr>world_of := PschSetBgworkerPid 0 (world_of b), g_exporter := PschExporterShutdown (g_exporter b)\<rparr>"

text \<open>A process that exits runs what it registered with \<^verbatim>\<open>on_proc_exit\<close>.\<close>

definition proc_exit :: "('x bgworker, unit) pgres \<Rightarrow> ('x bgworker, unit) pgres" where
  "proc_exit m =
     (case m of Some (b, Throw) \<Rightarrow> Some (PschBgworkerShutdown b, Throw) | _ \<Rightarrow> m)"

text \<open>
  \<^verbatim>\<open>PschBgworkerMain\<close> up to its \<open>n\<close>-th cycle, as the segment and process it leaves and whether
  it has exited. The virtual calls are those of the class that \<^verbatim>\<open>PschExporterInit\<close> made.
\<close>

definition bgw_loop :: "nat \<Rightarrow> 'x bgw_env \<Rightarrow> pg_env \<Rightarrow> guc \<Rightarrow> 'x \<Rightarrow> world \<Rightarrow> (world, unit) pgres" where
  "bgw_loop n env penv g x w =
     map_option (\<lambda>(b, r). (world_of b, r))
       (proc_exit (run_cycles n env penv
          \<lparr>g_exporter = Some x, world_of = w, conf = g, clock = 0, barriers = 0, activity = None, waits = []\<rparr>))"

definition PschBgworkerMain ::
    "nat \<Rightarrow> ch_state bgw_env \<Rightarrow> otel_state bgw_env \<Rightarrow> chc_env \<Rightarrow> otel_env \<Rightarrow> cxx_exception option \<Rightarrow> pg_env \<Rightarrow> guc \<Rightarrow>
       u32 \<Rightarrow> world \<Rightarrow> (world, unit) pgres" where
  "PschBgworkerMain n cw ow cenv oenv exc penv g MyProcPid w =
     (case PschDsaAttach penv (PschSetBgworkerPid MyProcPid w) of
        None \<Rightarrow> None
      | Some (w, Throw) \<Rightarrow> Some (PschSetBgworkerPid 0 w, Throw)
      | Some (w, Ret _) \<Rightarrow>
          (case PschExporterInit g cenv oenv exc of
             Throw \<Rightarrow> Some (PschSetBgworkerPid 0 w, Throw)
           | Ret (ClickHouse x, _) \<Rightarrow> bgw_loop n cw penv g x w
           | Ret (OpenTelemetry x, _) \<Rightarrow> bgw_loop n ow penv g x w))"

subsection \<open>Flush requests\<close>

text \<open>
  \<open>kill_result\<close>: 0, or the error number that \<^verbatim>\<open>kill\<close> sets. \<open>meanwhile\<close> is what other processes do
  to the segment before the compare-and-exchange.
\<close>

datatype kill_result = KillOk | ESRCH | KillError

definition PschSignalFlush ::
    "(u32 \<Rightarrow> kill_result) \<Rightarrow> (PschSharedState \<Rightarrow> PschSharedState) \<Rightarrow> world \<Rightarrow> world option" where
  "PschSignalFlush kill meanwhile w =
     (let worker_pid = PschGetBgworkerPid w
      in if worker_pid = 0 then Some w
         else
           (case kill worker_pid of
              KillOk \<Rightarrow> Some w
            | KillError \<Rightarrow> Some w
            | ESRCH \<Rightarrow>
                if \<not> psch_shared_state (snd w) then None
                else
                  let sh = meanwhile (fst w); expected = worker_pid
                  in Some (if bgworker_pid sh = expected then sh\<lparr>bgworker_pid := 0\<rparr> else sh, snd w)))"

record BackgroundWorker =
  bgw_name :: string
  bgw_type :: string
  bgw_flags :: "string set"
  bgw_start_time :: string
  bgw_restart_time :: nat
  bgw_library_name :: string
  bgw_function_name :: string

definition PschRegisterBgworker :: BackgroundWorker where
  "PschRegisterBgworker =
     \<lparr>bgw_name = ''pg_stat_ch exporter'', bgw_type = ''pg_stat_ch exporter'',
      bgw_flags = {''BGWORKER_SHMEM_ACCESS'', ''BGWORKER_BACKEND_DATABASE_CONNECTION''},
      bgw_start_time = ''BgWorkerStart_ConsistentState'', bgw_restart_time = 10,
      bgw_library_name = ''pg_stat_ch'', bgw_function_name = ''PschBgworkerMain''\<rparr>"

subsection \<open>What the worker relies on\<close>

text \<open>
  The other processes keep the queue consistent, append to it, and from time \<open>N\<close> on append
  nothing.
\<close>

definition producers_pause :: "nat \<Rightarrow> 'x bgw_env \<Rightarrow> pg_env \<Rightarrow> bool" where
  "producers_pause N env penv \<longleftrightarrow>
     (\<forall>i sh p. worker_ok penv (sh, p) \<longrightarrow> worker_ok penv (others env i sh, p) \<and>
        (\<exists>new. abs_queue (others env i sh) = abs_queue sh @ new \<and> (N \<le> i \<longrightarrow> new = [])))"

text \<open>The range of the configuration variable, and the size of a local array.\<close>

definition sane_env :: "'x bgw_env \<Rightarrow> bool" where
  "sane_env env \<longleftrightarrow>
     (\<forall>i. event_bufs (event_mem (exports env i)) \<and>
        (\<forall>g. ConfigReloadPending (signals env i) = Some g \<longrightarrow> 1 \<le> psch_batch_max g))"

definition bgw_ok :: "pg_env \<Rightarrow> ('x \<Rightarrow> bool) \<Rightarrow> 'x bgworker \<Rightarrow> bool" where
  "bgw_ok penv I b \<longleftrightarrow>
     (\<exists>x. g_exporter b = Some x \<and> I x) \<and> worker_ok penv (world_of b) \<and> 1 \<le> psch_batch_max (conf b)"

abbreviation queue_of :: "'x bgworker \<Rightarrow> abs_event list" where
  "queue_of b \<equiv> abs_queue (fst (world_of b))"

lemma signals_step:
  assumes "producers_pause N env penv" and "sane_env env" and "bgw_ok penv I b"
    and "ProcessPendingSignals env b = (b', r)"
  shows "bgw_ok penv I b'" "clock b' = Suc (clock b)" "g_exporter b' = g_exporter b"
    "\<exists>new. queue_of b' = queue_of b @ new \<and> (N \<le> clock b \<longrightarrow> new = [])"
    "snd (world_of b') = snd (world_of b)"
    "r = Ret () \<longrightarrow> conf b' = conf b \<or> ConfigReloadPending (signals env (clock b)) = Some (conf b')"
    "r = Throw \<longrightarrow> exit_pending (signals env (clock b))"
proof -
  obtain sh p where w: "world_of b = (sh, p)" by (cases "world_of b")
  have o: "worker_ok penv (others env (clock b) sh, p)"
      "\<exists>new. abs_queue (others env (clock b) sh) = abs_queue sh @ new \<and> (N \<le> clock b \<longrightarrow> new = [])"
    using assms(1,3) unfolding producers_pause_def bgw_ok_def w by blast+
  have b': "g_exporter b' = g_exporter b" "world_of b' = (others env (clock b) sh, p)" "clock b' = Suc (clock b)"
      "if r = Ret () then conf b' = conf b \<or> ConfigReloadPending (signals env (clock b)) = Some (conf b')
       else conf b' = conf b \<and> exit_pending (signals env (clock b))"
    using assms(4) by (auto simp: ProcessPendingSignals_def HandleConfigReload_def Let_def w split: if_splits option.splits)
  have "1 \<le> psch_batch_max (conf b')"
    using b'(4) assms(2,3) by (auto simp: sane_env_def bgw_ok_def split: if_splits)
  with b' o assms(3) show "bgw_ok penv I b'" "clock b' = Suc (clock b)" "g_exporter b' = g_exporter b"
      "\<exists>new. queue_of b' = queue_of b @ new \<and> (N \<le> clock b \<longrightarrow> new = [])" "snd (world_of b') = snd (world_of b)"
      "r = Ret () \<longrightarrow> conf b' = conf b \<or> ConfigReloadPending (signals env (clock b)) = Some (conf b')"
      "r = Throw \<longrightarrow> exit_pending (signals env (clock b))"
    by (auto simp: bgw_ok_def w split: if_splits)
qed

text \<open>
  The order in which the loop makes progress: time until the producers pause, then the length
  of the queue.
\<close>

definition drain_order :: "nat \<Rightarrow> ('x bgworker \<times> 'x bgworker) set" where
  "drain_order N = measures [\<lambda>b. N - clock b, \<lambda>b. length (queue_of b)]"

lemma wf_drain_order [simp]: "wf (drain_order N)"
  by (simp add: drain_order_def)

lemma drain_order_step:
  assumes "clock b' = Suc (clock b)" and "queue_of b' = drop k (queue_of b) @ new" and "N \<le> clock b \<longrightarrow> new = []"
    and "0 < k" and "k \<le> length (queue_of b)"
  shows "(b', b) \<in> drain_order N"
  using assms by (cases "N \<le> clock b") (auto simp: drain_order_def)

locale export_worker =
  fixes env :: "'x bgw_env" and penv :: pg_env
    and inv :: "'x \<Rightarrow> bool" and begun :: "'x \<Rightarrow> stat_row list \<Rightarrow> 'x \<Rightarrow> bool"
    and delivered :: "'x \<Rightarrow> 'r list" and image :: "stat_row \<Rightarrow> 'r"
    and arrow_blocks :: "'x \<Rightarrow> (char list \<times> nat) list"
  assumes backend_law: "stats_exporter (backend env g i) penv inv begun delivered image arrow_blocks"
begin

lemma try_export_spec:
  assumes "bgw_ok penv inv b" and "sane_env env" and "g_exporter b = Some x"
  shows "\<exists>x' w' n k. try_export env penv b = Some (b\<lparr>g_exporter := Some x', world_of := w'\<rparr>, n) \<and> inv x' \<and>
     leaves penv (world_of b) (drop k (queue_of b)) w' \<and> k \<le> length (queue_of b) \<and> n \<le> int k \<and>
     PschExportBatch (conf b) (exports env (clock b)) penv (backend env (conf b) (clock b)) (Some x, world_of b) =
       Some ((Some x', w'), Ret n)"
proof -
  have x: "inv x" "worker_ok penv (world_of b)" "event_bufs (event_mem (exports env (clock b)))"
    using assms by (auto simp: bgw_ok_def sane_env_def)
  obtain x' w' n k where P: "PschExportBatch (conf b) (exports env (clock b)) penv (backend env (conf b) (clock b)) (Some x, world_of b) =
       Some ((Some x', w'), Ret n)" "inv x'" "k \<le> length (queue_of b)" "n \<le> int k" "leaves penv (world_of b) (drop k (queue_of b)) w'"
    using stats_exporter.PschExportBatch_spec [OF backend_law x, of "conf b" "conf b" "clock b"] by blast
  then show ?thesis
    using assms(3) by (intro exI [of _ x'] exI [of _ w'] exI [of _ n] exI [of _ k]) (simp add: try_export_def)
qed

lemma bgw_ok_update:
  assumes "bgw_ok penv inv b" and "inv x" and "leaves penv w q w'"
  shows "bgw_ok penv inv (b\<lparr>g_exporter := Some x, world_of := w'\<rparr>)"
  using assms by (simp add: bgw_ok_def leaves_def)

text \<open>The loop ends.\<close>

lemma drain_ends:
  assumes "producers_pause N env penv" and "sane_env env" and "bgw_ok penv inv b"
  shows "\<exists>b' r. drain env penv b = Some (b', r) \<and> bgw_ok penv inv b' \<and> snd (world_of b') = snd (world_of b)"
  using wf_drain_order [of N] assms(3)
proof (induction b rule: wf_induct_rule)
  case (less b)
  obtain x where x: "g_exporter b = Some x" using less.prems by (auto simp: bgw_ok_def)
  obtain x' w' n k where T: "try_export env penv b = Some (b\<lparr>g_exporter := Some x', world_of := w'\<rparr>, n)" "inv x'"
      "leaves penv (world_of b) (drop k (queue_of b)) w'" "k \<le> length (queue_of b)" "n \<le> int k"
    using try_export_spec [OF less.prems assms(2) x] by blast
  let ?b = "b\<lparr>g_exporter := Some x', world_of := w'\<rparr>"
  have b1: "bgw_ok penv inv ?b" by (rule bgw_ok_update [OF less.prems T(2,3)])
  have p: "snd w' = snd (world_of b)" using T(3) by (simp add: leaves_def)
  show ?case
  proof (cases "n < psch_batch_max (conf b)")
    case True
    then have "drain env penv b = Some (?b, Ret ())" using T(1) by (subst drain.simps) simp
    with b1 p show ?thesis by auto
  next
    case False
    obtain b2 r where s: "ProcessPendingSignals env ?b = (b2, r)" by (cases "ProcessPendingSignals env ?b")
    note S = signals_step [OF assms(1,2) b1 s]
    obtain new where new: "queue_of b2 = drop k (queue_of b) @ new" "N \<le> clock b \<longrightarrow> new = []"
      using S(4) T(3) by (auto simp: leaves_def)
    have "0 < k" using False T(5) less.prems by (simp add: bgw_ok_def)
    then have lt: "(b2, b) \<in> drain_order N" using drain_order_step [OF _ new _ T(4)] S(2) by simp
    show ?thesis
    proof (cases "r = Ret () \<and> psch_enabled (conf b2)")
      case True
      then have "drain env penv b = drain env penv b2" using T(1) False s by (subst drain.simps) simp
      with less.IH [OF lt S(1)] S(5) p show ?thesis by simp
    next
      case stop: False
      then have "drain env penv b = Some (b2, r)" using T(1) False s by (subst drain.simps) (cases r; simp)
      with S(1,5) p show ?thesis by simp
    qed
  qed
qed

text \<open>
  If every batch takes all it can and returns that number, the loop empties the queue. \<open>P x q x'\<close>
  is what becomes of the events \<open>q\<close>.
\<close>

lemma drain_empties:
  assumes env: "producers_pause N env penv" "sane_env env" and b: "bgw_ok penv inv b" "g_exporter b = Some x" "good (conf b)"
    and sig: "\<And>i. \<not> exit_pending (signals env i)"
      "\<And>i g. ConfigReloadPending (signals env i) = Some g \<Longrightarrow> good g"
    and on: "\<And>g. good g \<Longrightarrow> psch_enabled g"
    and batch: "\<And>g i x w. good g \<Longrightarrow> inv x \<Longrightarrow> worker_ok penv w \<Longrightarrow>
      \<exists>x' w' k. PschExportBatch g (exports env i) penv (backend env g i) (Some x, w) = Some ((Some x', w'), Ret (int k)) \<and>
        inv x' \<and> k = min (nat (psch_batch_max g)) (length (abs_queue (fst w))) \<and>
        leaves penv w (drop k (abs_queue (fst w))) w' \<and> P x (take k (abs_queue (fst w))) x'"
    and comp: "\<And>x q x' q' x''. P x q x' \<Longrightarrow> P x' q' x'' \<Longrightarrow> P x (q @ q') x''"
  shows "\<exists>b' x' extra. drain env penv b = Some (b', Ret ()) \<and> bgw_ok penv inv b' \<and> queue_of b' = [] \<and>
     g_exporter b' = Some x' \<and> P x (queue_of b @ extra) x' \<and> (N \<le> clock b \<longrightarrow> extra = [])"
  using wf_drain_order [of N] b
proof (induction b arbitrary: x rule: wf_induct_rule)
  case (less b)
  let ?q = "queue_of b" and ?m = "psch_batch_max (conf b)"
  have x: "inv x" "worker_ok penv (world_of b)" "1 \<le> ?m" using less.prems(1,2) by (auto simp: bgw_ok_def)
  obtain x' w' k where T: "PschExportBatch (conf b) (exports env (clock b)) penv (backend env (conf b) (clock b)) (Some x, world_of b)
        = Some ((Some x', w'), Ret (int k))" "inv x'" "k = min (nat ?m) (length ?q)"
      "leaves penv (world_of b) (drop k ?q) w'" "P x (take k ?q) x'"
    using batch [OF less.prems(3) x(1,2)] by blast
  let ?b = "b\<lparr>g_exporter := Some x', world_of := w'\<rparr>"
  have t: "try_export env penv b = Some (?b, int k)" using T(1) less.prems(2) by (simp add: try_export_def)
  have b1: "bgw_ok penv inv ?b" by (rule bgw_ok_update [OF less.prems(1) T(2,4)])
  show ?case
  proof (cases "int k < ?m")
    case True
    then have "drain env penv b = Some (?b, Ret ())" using t by (subst drain.simps) simp
    moreover have "length ?q \<le> k" using True T(3) x(3) by auto
    moreover from this have "queue_of ?b = []" using T(4) by (simp add: leaves_def)
    ultimately show ?thesis
      using b1 T(5) by (intro exI [of _ ?b] exI [of _ x'] exI [of _ "[]"]) simp
  next
    case False
    then have k: "0 < k" "k \<le> length ?q" using T(3) x(3) by auto
    obtain b2 r where s: "ProcessPendingSignals env ?b = (b2, r)" by (cases "ProcessPendingSignals env ?b")
    note S = signals_step [OF env b1 s]
    obtain new where new: "queue_of b2 = drop k ?q @ new" "N \<le> clock b \<longrightarrow> new = []"
      using S(4) T(4) by (auto simp: leaves_def)
    have r: "r = Ret ()" using S(7) sig(1) by (cases r) auto
    have g2: "good (conf b2)" using S(6) r less.prems(3) sig(2) by auto
    have lt: "(b2, b) \<in> drain_order N" using drain_order_step [OF _ new k] S(2) by simp
    have eq: "drain env penv b = drain env penv b2" using t False s r on [OF g2] by (subst drain.simps) simp
    have e2: "g_exporter b2 = Some x'" using S(3) by simp
    obtain b' x'' extra where R: "drain env penv b2 = Some (b', Ret ())" "bgw_ok penv inv b'" "queue_of b' = []"
        "g_exporter b' = Some x''" "P x' (queue_of b2 @ extra) x''" "N \<le> clock b2 \<longrightarrow> extra = []"
      using less.IH [OF lt S(1) e2 g2] by blast
    have "?q @ new @ extra = take k ?q @ (queue_of b2 @ extra)" by (simp add: new(1))
    then have "P x (?q @ new @ extra) x''" using comp [OF T(5) R(5)] by (simp only:)
    moreover have "N \<le> clock b \<longrightarrow> new @ extra = []" using new(2) R(6) S(2) by simp
    ultimately show ?thesis using R(1-4) unfolding eq by blast
  qed
qed

end

subsection \<open>The two workers\<close>

definition ch_backend :: "(nat \<Rightarrow> chc_env) \<Rightarrow> pg_env \<Rightarrow> guc \<Rightarrow> nat \<Rightarrow> ch_state StatsExporter" where
  "ch_backend cenv penv g i = MakeClickHouseExporter g (cenv i) penv"

definition otel_backend :: "(nat \<Rightarrow> otel_env) \<Rightarrow> pg_env \<Rightarrow> guc \<Rightarrow> nat \<Rightarrow> otel_state StatsExporter" where
  "otel_backend oenv penv g i = MakeOpenTelemetryExporter g (oenv i) penv"

interpretation chw: export_worker "env\<lparr>backend := ch_backend cenv penv\<rparr>" penv ch_inv ch_begun ch_delivered ch_image "\<lambda>_. []"
  for env cenv penv
  by (rule export_worker.intro) (simp add: ch_backend_def chx.stats_exporter_axioms)

interpretation otw: export_worker "env\<lparr>backend := otel_backend oenv penv\<rparr>" penv otel_inv
    "\<lambda>x rs st. stub x \<and> otel_begun x rs st" "\<lambda>st. concat (sent st)" otel_image blocks
  for env oenv penv
  by (rule export_worker.intro) (simp add: otel_backend_def otx.stats_exporter_axioms)

subsection \<open>Cycles end\<close>

lemma queue_inv_pid [simp]:
  "queue_inv (sh\<lparr>bgworker_pid := n\<rparr>) = queue_inv sh" "abs_queue (sh\<lparr>bgworker_pid := n\<rparr>) = abs_queue sh"
  "proc_ready (sh\<lparr>bgworker_pid := n\<rparr>) p = proc_ready sh p"
proof -
  have eq: "dsa_area (sh\<lparr>bgworker_pid := n\<rparr>) = dsa_area sh" "intern_tab (sh\<lparr>bgworker_pid := n\<rparr>) = intern_tab sh"
      "live (sh\<lparr>bgworker_pid := n\<rparr>) = live sh"
    by (simp_all add: live_def)
  show "queue_inv (sh\<lparr>bgworker_pid := n\<rparr>) = queue_inv sh"
    by (simp add: queue_inv_def heap_inv_cong [OF eq(1,2)] eq(3))
  show "abs_queue (sh\<lparr>bgworker_pid := n\<rparr>) = abs_queue sh"
    by (simp add: abs_queue_def abs_slot_cong [OF eq(1)] eq(3))
qed (simp add: proc_ready_def)

text \<open>What the worker leaves: a consistent queue; after an exit nobody finds its pid.\<close>

definition left_behind :: "world \<Rightarrow> unit outcome \<Rightarrow> bool" where
  "left_behind w r \<longleftrightarrow> queue_inv (fst w) \<and> \<not> lock (fst w) \<and> \<not> holds_lock (snd w) \<and> (r = Throw \<longrightarrow> bgworker_pid (fst w) = 0)"

lemma worker_left_behind:
  assumes "worker_ok penv w"
  shows "left_behind w (Ret ())" "left_behind (PschSetBgworkerPid 0 w) Throw"
  using assms by (simp_all add: left_behind_def worker_ok_def idle_def PschSetBgworkerPid_def proc_ready_def)

context export_worker
begin

lemma cycle_ends:
  assumes "producers_pause N env penv" and "sane_env env" and "bgw_ok penv inv b"
  shows "\<exists>b' r. RunExportCycle env penv b = Some (b', r) \<and> bgw_ok penv inv b'"
proof -
  let ?b = "b\<lparr>waits := waits b @ [CalculateSleepMs (conf b) (backend env (conf b) (clock b)) (g_exporter b)]\<rparr>"
  have b1: "bgw_ok penv inv ?b" using assms(3) by (simp add: bgw_ok_def)
  obtain b2 r where s: "ProcessPendingSignals env ?b = (b2, r)" by (cases "ProcessPendingSignals env ?b")
  note S = signals_step [OF assms(1,2) b1 s]
  have "bgw_ok penv inv (b2\<lparr>activity := a\<rparr>)" for a using S(1) by (simp add: bgw_ok_def)
  from drain_ends [OF assms(1,2) this] obtain b3 r3 where
    "drain env penv (b2\<lparr>activity := Some ''exporting to ClickHouse''\<rparr>) = Some (b3, r3)" "bgw_ok penv inv b3"
    by blast
  then have "\<exists>b' r'. ExportBatchWithRecovery env penv b2 = Some (b', r') \<and> bgw_ok penv inv b'"
    by (cases r3) (auto simp: ExportBatchWithRecovery_def pg_ret_def bgw_ok_def)
  then show ?thesis
    using b1 S(1) s by (cases r) (auto simp: RunExportCycle_def Let_def pg_ret_def)
qed

lemma cycles_end:
  assumes "producers_pause N env penv" and "sane_env env" and "bgw_ok penv inv b"
  shows "\<exists>b' r. run_cycles n env penv b = Some (b', r) \<and> bgw_ok penv inv b'"
  using assms(3)
proof (induction n arbitrary: b)
  case (Suc n)
  from cycle_ends [OF assms(1,2) Suc.prems] obtain b1 r where "RunExportCycle env penv b = Some (b1, r)" "bgw_ok penv inv b1"
    by blast
  then show ?case using Suc.IH [of b1] by (cases r) auto
qed (simp add: pg_ret_def)

lemma loop_ends:
  assumes "producers_pause N env penv" and "sane_env env" and "inv x" and "worker_ok penv w" and "1 \<le> psch_batch_max g"
  shows "\<exists>w' r. bgw_loop n env penv g x w = Some (w', r) \<and> left_behind w' r"
proof -
  let ?b = "\<lparr>g_exporter = Some x, world_of = w, conf = g, clock = 0, barriers = 0, activity = None, waits = []\<rparr>"
  have "bgw_ok penv inv ?b" using assms(3-5) by (simp add: bgw_ok_def)
  from cycles_end [OF assms(1,2) this, of n] obtain b r where
    b: "run_cycles n env penv ?b = Some (b, r)" "worker_ok penv (world_of b)"
    by (auto simp: bgw_ok_def)
  show ?thesis
  proof (cases r)
    case (Ret u)
    then show ?thesis using b worker_left_behind(1) [OF b(2)] by (simp add: bgw_loop_def proc_exit_def)
  next
    case Throw
    then show ?thesis
      using b worker_left_behind(2) [OF b(2)] by (simp add: bgw_loop_def proc_exit_def PschBgworkerShutdown_def)
  qed
qed

end

lemma PschExporterInit_inv:
  "PschExporterInit g cenv oenv exc = Ret (ClickHouse x, ok) \<Longrightarrow> ch_inv x"
  "PschExporterInit g cenv oenv exc = Ret (OpenTelemetry y, ok) \<Longrightarrow> otel_inv y"
  using EstablishNewConnection_spec [OF ch_new_inv, of g cenv] otx.connect_law [of otel_new _ oenv]
  by (auto simp: PschExporterInit_def otel_EstablishNewConnection_def ConfigureLogExport_def otel_new_def otel_inv_def Let_def
      split: if_splits prod.splits)

text \<open>
  C15. The worker never hangs in a drain, and never has undefined behaviour: for any number of
  cycles of its main loop, any behaviour of the backend, the allocator and the signals, with
  either exporter, \<^verbatim>\<open>PschBgworkerMain\<close> gets there or exits, as long as the producers pause at
  some time. It leaves a consistent queue and no lock, and if it exits, its pid is cleared.
\<close>

theorem worker_cycles_end:
  assumes "queue_inv (fst w)" and "proc_ready (fst w) (snd w)" and "idle penv w"
    and "list_all abs_exportable (abs_queue (fst w))" and "1 \<le> psch_batch_max g"
    and "producers_pause N cw penv" and "sane_env cw" and "producers_pause N ow penv" and "sane_env ow"
  shows "\<exists>w' r. PschBgworkerMain n (cw\<lparr>backend := ch_backend cenvs penv\<rparr>) (ow\<lparr>backend := otel_backend oenvs penv\<rparr>)
       cenv oenv exc penv g MyProcPid w = Some (w', r) \<and> left_behind w' r"
proof -
  let ?w = "PschSetBgworkerPid MyProcPid w"
  have cw: "producers_pause N (cw\<lparr>backend := ch_backend cenvs penv\<rparr>) penv" "sane_env (cw\<lparr>backend := ch_backend cenvs penv\<rparr>)"
    and ow: "producers_pause N (ow\<lparr>backend := otel_backend oenvs penv\<rparr>) penv" "sane_env (ow\<lparr>backend := otel_backend oenvs penv\<rparr>)"
    using assms(6-9) by (simp_all add: producers_pause_def sane_env_def)
  have pid: "queue_inv (fst ?w)" "proc_ready (fst ?w) (snd ?w)" "idle penv ?w" "list_all abs_exportable (abs_queue (fst ?w))"
    using assms(1-4) by (simp_all add: PschSetBgworkerPid_def idle_def)
  show ?thesis
  proof (cases "dsa_attach_ok penv \<or> psch_dsa (snd w)")
    case True
    then obtain w1 where a: "PschDsaAttach penv ?w = Some (w1, Ret ())" "worker_ok penv w1"
    proof
      assume "psch_dsa (snd w)"
      then have "PschDsaAttach penv ?w = Some (?w, Ret ())"
        by (simp add: PschDsaAttach_def PschSetBgworkerPid_def pg_ret_def split: prod.split)
      moreover have "worker_ok penv ?w" using pid \<open>psch_dsa (snd w)\<close> by (simp add: worker_ok_def PschSetBgworkerPid_def)
      ultimately show thesis by (rule that)
    qed (use attach_worker_ok [OF pid] that in blast)
    show ?thesis
    proof (cases "PschExporterInit g cenv oenv exc")
      case Throw
      then show ?thesis using a worker_left_behind(2) [OF a(2)] by (simp add: PschBgworkerMain_def)
    next
      case (Ret r)
      obtain obj ok where r: "r = (obj, ok)" by (cases r)
      show ?thesis
      proof (cases obj)
        case (ClickHouse x)
        with Ret r have "ch_inv x" using PschExporterInit_inv(1) by blast
        from chw.loop_ends [OF cw this a(2) assms(5)] show ?thesis
          using a(1) Ret r ClickHouse by (simp add: PschBgworkerMain_def)
      next
        case (OpenTelemetry y)
        with Ret r have "otel_inv y" using PschExporterInit_inv(2) by blast
        from otw.loop_ends [OF ow this a(2) assms(5)] show ?thesis
          using a(1) Ret r OpenTelemetry by (simp add: PschBgworkerMain_def)
      qed
    qed
  next
    case False
    then have "PschDsaAttach penv ?w = Some (?w, Throw)"
      using assms(2) by (simp add: PschDsaAttach_def PschSetBgworkerPid_def proc_ready_def split: prod.split)
    moreover have "left_behind (PschSetBgworkerPid 0 ?w) Throw"
      using pid by (simp add: left_behind_def PschSetBgworkerPid_def idle_def proc_ready_def)
    ultimately show ?thesis by (simp add: PschBgworkerMain_def)
  qed
qed

definition bgw_sample :: "(guc \<Rightarrow> nat \<Rightarrow> 'x StatsExporter) \<Rightarrow> 'x bgw_env" where
  "bgw_sample vt =
     \<lparr>backend = vt, exports = (\<lambda>_. export_sample),
      signals = (\<lambda>i. \<lparr>ProcSignalBarrierPending = (i = 1), InterruptPending = True, interrupt_raises = False,
        ConfigReloadPending = None\<rparr>),
      others = (\<lambda>_ sh. sh), postmaster_dead = (\<lambda>_. False)\<rparr>"

lemma bgw_sample_simps [simp]:
  "(bgw_sample vt)\<lparr>backend := vt'\<rparr> = bgw_sample vt'" "producers_pause 0 (bgw_sample vt) penv" "sane_env (bgw_sample vt)"
  "\<not> exit_pending (signals (bgw_sample vt) i)" "ConfigReloadPending (signals (bgw_sample vt) i) = None"
  "exports (bgw_sample vt) i = export_sample" "\<not> postmaster_dead (bgw_sample vt) i"
  by (simp_all add: bgw_sample_def producers_pause_def sane_env_def exit_pending_def)

theorem worker_cycles_end_witness:
  "\<exists>w' r. PschBgworkerMain 3 (bgw_sample (ch_backend (\<lambda>_. chc_sample) sample_env))
       (bgw_sample (otel_backend (\<lambda>_. otel_sample) sample_env)) chc_sample otel_sample None sample_env guc_init 4711 worker_world
     = Some (w', r) \<and> left_behind w' r"
proof -
  have w: "queue_inv (fst worker_world)" "proc_ready (fst worker_world) (snd worker_world)" "idle sample_env worker_world"
      "list_all abs_exportable (abs_queue (fst worker_world))"
    using worker_world_facts(1) by (simp_all add: worker_ok_def)
  have g: "1 \<le> psch_batch_max guc_init" by (simp add: guc_init_def)
  from worker_cycles_end [OF w g bgw_sample_simps(2,3) bgw_sample_simps(2,3), where n = 3
      and cenvs = "\<lambda>_. chc_sample" and oenvs = "\<lambda>_. otel_sample" and cenv = chc_sample and oenv = otel_sample
      and exc = None and MyProcPid = 4711]
  show ?thesis by simp
qed

subsection \<open>What becomes of the queue\<close>

definition rows_conf :: "guc \<Rightarrow> bool" where
  "rows_conf g \<longleftrightarrow> psch_enabled g \<and> \<not> as_arrow g"

text \<open>Nothing stops the worker, and no allocation fails.\<close>

definition undisturbed :: "'x bgw_env \<Rightarrow> bool" where
  "undisturbed env \<longleftrightarrow>
     (\<forall>i. \<not> exit_pending (signals env i) \<and> \<not> postmaster_dead env i \<and> reserve_exc (exports env i) = None \<and>
        call_throws (exports env i) = (\<lambda>_. False) \<and> (\<forall>g. ConfigReloadPending (signals env i) = Some g \<longrightarrow> rows_conf g))"

text \<open>A cycle is a drain of the queue as it is after the wait.\<close>

lemma cycle_is_drain:
  assumes "producers_pause N env penv" and "sane_env env" and "undisturbed env" and "bgw_ok penv I b"
    and "rows_conf (conf b)"
  shows "\<exists>b1 new. RunExportCycle env penv b = pg_bind (drain env penv b1) (\<lambda>b _. pg_ret (b\<lparr>activity := None\<rparr>) ()) \<and>
     bgw_ok penv I b1 \<and> g_exporter b1 = g_exporter b \<and> rows_conf (conf b1) \<and> queue_of b1 = queue_of b @ new \<and>
     (N \<le> clock b \<longrightarrow> new = []) \<and> clock b1 = Suc (clock b)"
proof -
  let ?b = "b\<lparr>waits := waits b @ [CalculateSleepMs (conf b) (backend env (conf b) (clock b)) (g_exporter b)]\<rparr>"
  have b1: "bgw_ok penv I ?b" using assms(4) by (simp add: bgw_ok_def)
  obtain b2 r where s: "ProcessPendingSignals env ?b = (b2, r)" by (cases "ProcessPendingSignals env ?b")
  note S = signals_step [OF assms(1,2) b1 s]
  have u: "\<not> exit_pending (signals env i)" "\<not> postmaster_dead env i"
      "ConfigReloadPending (signals env i) = Some g \<Longrightarrow> rows_conf g" for i g
    using assms(3) unfolding undisturbed_def by blast+
  have r: "r = Ret ()" using S(7) u(1) by (cases r) auto
  have g: "rows_conf (conf b2)" using S(6) r assms(5) u(3) by auto
  let ?b2 = "b2\<lparr>activity := Some ''exporting to ClickHouse''\<rparr>"
  obtain new where "queue_of b2 = queue_of b @ new" "N \<le> clock b \<longrightarrow> new = []" using S(4) by auto
  moreover have "bgw_ok penv I ?b2" using S(1) by (simp add: bgw_ok_def)
  moreover have "RunExportCycle env penv b = pg_bind (drain env penv ?b2) (\<lambda>b _. pg_ret (b\<lparr>activity := None\<rparr>) ())"
    using s r g u(2) by (simp add: RunExportCycle_def Let_def ExportBatchWithRecovery_def rows_conf_def)
  ultimately show ?thesis using S(2,3) g by (intro exI [of _ ?b2] exI [of _ new]) simp
qed

context export_worker
begin

lemma cycle_empties:
  assumes env: "producers_pause N env penv" "sane_env env" "undisturbed env"
    and b: "bgw_ok penv inv b" "g_exporter b = Some x" "rows_conf (conf b)"
    and batch: "\<And>g i x w. rows_conf g \<Longrightarrow> inv x \<Longrightarrow> worker_ok penv w \<Longrightarrow>
      \<exists>x' w' k. PschExportBatch g (exports env i) penv (backend env g i) (Some x, w) = Some ((Some x', w'), Ret (int k)) \<and>
        inv x' \<and> k = min (nat (psch_batch_max g)) (length (abs_queue (fst w))) \<and>
        leaves penv w (drop k (abs_queue (fst w))) w' \<and> P x (take k (abs_queue (fst w))) x'"
    and comp: "\<And>x q x' q' x''. P x q x' \<Longrightarrow> P x' q' x'' \<Longrightarrow> P x (q @ q') x''"
  shows "\<exists>b' x' new. RunExportCycle env penv b = Some (b', Ret ()) \<and> bgw_ok penv inv b' \<and> queue_of b' = [] \<and>
     g_exporter b' = Some x' \<and> P x (queue_of b @ new) x' \<and> (N \<le> clock b \<longrightarrow> new = [])"
proof -
  obtain b1 new where c: "RunExportCycle env penv b = pg_bind (drain env penv b1) (\<lambda>b _. pg_ret (b\<lparr>activity := None\<rparr>) ())"
      "bgw_ok penv inv b1" "g_exporter b1 = Some x" "rows_conf (conf b1)" "queue_of b1 = queue_of b @ new"
      "N \<le> clock b \<longrightarrow> new = []" "clock b1 = Suc (clock b)"
    using cycle_is_drain [OF env b(1,3)] b(2) by auto
  have u: "\<not> exit_pending (signals env i)" "ConfigReloadPending (signals env i) = Some g \<Longrightarrow> rows_conf g" for i g
    using env(3) unfolding undisturbed_def by blast+
  have "\<exists>b' x' extra. drain env penv b1 = Some (b', Ret ()) \<and> bgw_ok penv inv b' \<and> queue_of b' = [] \<and>
     g_exporter b' = Some x' \<and> P x (queue_of b1 @ extra) x' \<and> (N \<le> clock b1 \<longrightarrow> extra = [])"
    by (rule drain_empties [where good = rows_conf and P = P and N = N];
        (fact env c u batch comp | simp add: rows_conf_def))
  then obtain b' x' extra where d: "drain env penv b1 = Some (b', Ret ())" "bgw_ok penv inv b'" "queue_of b' = []"
      "g_exporter b' = Some x'" "P x (queue_of b1 @ extra) x'" "N \<le> clock b1 \<longrightarrow> extra = []"
    by blast
  show ?thesis
    using c d by (intro exI [of _ "b'\<lparr>activity := None\<rparr>"] exI [of _ x'] exI [of _ "new @ extra"])
      (simp add: pg_ret_def bgw_ok_def)
qed

end

context stats_exporter
begin

lemma batch_delivers:
  assumes "inv x" and "worker_ok penv w" and "event_bufs (event_mem e)" and "\<not> as_arrow g"
    and "answers vt penv inv" and "reserve_exc e = None" and "call_throws e = (\<lambda>_. False)"
  shows "\<exists>x' w' k. PschExportBatch g e penv vt (Some x, w) = Some ((Some x', w'), Ret (int k)) \<and> inv x' \<and>
     k = min (nat (psch_batch_max g)) (length (abs_queue (fst w))) \<and> leaves penv w (drop k (abs_queue (fst w))) w' \<and>
     (\<exists>rs. rows_of (take k (abs_queue (fst w))) rs \<and> delivered x' = delivered x @ map image rs)"
proof -
  let ?q = "abs_queue (fst w)"
  have up: "vt_IsConnected vt x \<or> snd (vt_EstablishNewConnection vt x)"
    using assms(1,5) unfolding answers_def by blast
  obtain x' w' n k ok where P: "PschExportBatch g e penv vt (Some x, w) = Some ((Some x', w'), Ret n)" "inv x'"
      "k \<le> length ?q" "k = 0 \<longrightarrow> n = 0" "leaves penv w (drop k ?q) w'"
      "rows_exported delivered image (take k ?q) (x, w) (x', w') n ok"
      "(vt_IsConnected vt x \<or> snd (vt_EstablishNewConnection vt x)) \<and> reserve_exc e = None \<longrightarrow>
        k = min (nat (psch_batch_max g)) (length ?q) \<and> (answers vt penv inv \<and> call_throws e = (\<lambda>_. False) \<longrightarrow> k = 0 \<or> ok)"
    using PschExportBatch_spec [OF assms(1-3), of g] assms(4) by (simp only: if_False) (elim exE conjE, rule that; assumption)
  then have k: "k = min (nat (psch_batch_max g)) (length ?q)" "k = 0 \<or> ok" using up assms(5-7) by blast+
  have "\<exists>rs. rows_of (take k ?q) rs \<and> delivered x' = delivered x @ map image rs \<and> n = int k"
  proof (cases "k = 0")
    case True
    then show ?thesis using P(4,6) by (auto simp: rows_exported_def)
  next
    case False
    then have "rows_exported delivered image (take k ?q) (x, w) (x', w') n True" using P(6) k(2) by simp
    from rows_exported_all [OF this] P(3) show ?thesis by auto
  qed
  with P(1,2,5) k(1) show ?thesis by blast
qed

end

text \<open>
  C16. A worker whose ClickHouse server answers empties the queue: one cycle ends with an empty
  queue, and what it has delivered is, in order, one row for each event that was queued and
  then one row for each of some further events (\<open>new\<close>), of which there are none if the other
  processes append nothing from the start of the cycle on. It holds for any number of batches,
  reloads of the configuration and barriers on the way.
\<close>

theorem cycle_delivers_queue:
  assumes "producers_pause N env penv" and "sane_env env" and "undisturbed env"
    and "bgw_ok penv ch_inv b" and "g_exporter b = Some x" and "rows_conf (conf b)"
    and "\<forall>i. chc_ok (cenv i)" and "\<forall>g i st. ch_inv st \<longrightarrow> snd (ch_EstablishNewConnection g (cenv i) st)"
  shows "\<exists>b' x' new rs. RunExportCycle (env\<lparr>backend := ch_backend cenv penv\<rparr>) penv b = Some (b', Ret ()) \<and>
     queue_of b' = [] \<and> g_exporter b' = Some x' \<and> rows_of (queue_of b @ new) rs \<and>
     ch_delivered x' = ch_delivered x @ map ch_image rs \<and> (N \<le> clock b \<longrightarrow> new = [])"
proof -
  let ?env = "env\<lparr>backend := ch_backend cenv penv\<rparr>"
  let ?P = "\<lambda>x q x'. \<exists>rs. rows_of q rs \<and> ch_delivered x' = ch_delivered x @ map ch_image rs"
  have env: "producers_pause N ?env penv" "sane_env ?env" "undisturbed ?env"
    using assms(1-3) by (simp_all add: producers_pause_def sane_env_def undisturbed_def)
  have "\<exists>b' x' new. RunExportCycle ?env penv b = Some (b', Ret ()) \<and> bgw_ok penv ch_inv b' \<and> queue_of b' = [] \<and>
     g_exporter b' = Some x' \<and> ?P x (queue_of b @ new) x' \<and> (N \<le> clock b \<longrightarrow> new = [])"
  proof (rule chw.cycle_empties [OF env assms(4-6)])
    fix g i x w assume a: "rows_conf g" "ch_inv x" "worker_ok penv w"
    have e: "event_bufs (event_mem (exports env i))" "reserve_exc (exports env i) = None"
        "call_throws (exports env i) = (\<lambda>_. False)"
      using assms(2,3) by (simp_all add: sane_env_def undisturbed_def)
    have ans: "answers (MakeClickHouseExporter g (cenv i) penv) penv ch_inv" by (rule ch_answers) (use assms(7,8) in auto)
    show "\<exists>x' w' k. PschExportBatch g (exports ?env i) penv (backend ?env g i) (Some x, w) = Some ((Some x', w'), Ret (int k)) \<and>
        ch_inv x' \<and> k = min (nat (psch_batch_max g)) (length (abs_queue (fst w))) \<and>
        leaves penv w (drop k (abs_queue (fst w))) w' \<and> ?P x (take k (abs_queue (fst w))) x'"
      using chx.batch_delivers [OF a(2,3) e(1) _ ans e(2,3)] a(1) by (simp add: ch_backend_def rows_conf_def)
  next
    fix x q x' q' x'' assume "?P x q x'" "?P x' q' x''"
    then obtain rs rs' where "rows_of q rs" "rows_of q' rs'" "ch_delivered x' = ch_delivered x @ map ch_image rs"
        "ch_delivered x'' = ch_delivered x' @ map ch_image rs'" by blast
    then show "?P x (q @ q') x''" by (intro exI [of _ "rs @ rs'"]) (simp add: list_all2_appendI)
  qed
  then show ?thesis by blast
qed

definition worker_sample :: "ch_state bgworker" where
  "worker_sample =
     \<lparr>g_exporter = Some ch_sample_conn, world_of = worker_world, conf = guc_init\<lparr>psch_batch_max := 1\<rparr>, clock = 0, barriers = 0,
      activity = None, waits = []\<rparr>"

lemma worker_sample_facts:
  "bgw_ok sample_env ch_inv worker_sample" "g_exporter worker_sample = Some ch_sample_conn"
  "rows_conf (conf worker_sample)" "queue_of worker_sample = abs_queue (fst worker_world)"
  by (simp_all add: worker_sample_def bgw_ok_def rows_conf_def as_arrow_def guc_init_def)

lemma undisturbed_sample [simp]: "undisturbed (bgw_sample vt)"
  by (simp add: undisturbed_def)

lemma chc_sample_connects_any [simp]: "snd (ch_EstablishNewConnection g chc_sample st)"
  by (simp add: ch_EstablishNewConnection_def EnsureMemoryContexts_def TcpConnect_def TlsConnect_def chc_sample_def Let_def)

theorem cycle_delivers_queue_witness:
  "\<exists>b' x' rs. RunExportCycle (bgw_sample (ch_backend (\<lambda>_. chc_sample) sample_env)) sample_env worker_sample = Some (b', Ret ()) \<and>
     queue_of b' = [] \<and> g_exporter b' = Some x' \<and> rows_of (abs_queue (fst worker_world)) rs \<and>
     ch_delivered x' = ch_delivered ch_sample_conn @ map ch_image rs"
  using cycle_delivers_queue [OF bgw_sample_simps(2,3) undisturbed_sample worker_sample_facts(1-3), where cenv = "\<lambda>_. chc_sample"]
  by (auto simp: worker_sample_facts(4))

subsection \<open>A server that rejects\<close>

definition rejects :: "chc_env \<Rightarrow> bool" where
  "rejects env \<longleftrightarrow> (\<forall>st bb. SendInsert env st bb \<noteq> None)"

lemma RecordFailure_not_True [simp]: "ch_RecordFailure penv m cl s \<noteq> Some (s', True)"
  by (auto simp: ch_RecordFailure_def Let_def split: option.splits)

lemma commit_rejected:
  assumes "rejects env" and "ch_CommitBatch g env penv s = Some (s', ok)"
  shows "\<not> ok"
proof
  assume "ok"
  moreover have "SendInsert env st bb \<noteq> None" for st bb using assms(1) by (simp add: rejects_def)
  ultimately show False using assms(2)
    by (auto simp del: not_None_eq simp: ch_CommitBatch_def Let_def split: if_splits option.splits prod.splits bool.splits)
qed

text \<open>The rows of a rejected batch: the return value counts them, nothing is delivered.\<close>

lemma rejected_rows:
  assumes "ch_inv x" and "worker_ok penv w" and "list_all event_bufs evs" and "list_all abs_exportable (map out_event evs)"
    and "call_throws e = (\<lambda>_. False)" and "rejects env"
    and r: "export_rows e penv (MakeClickHouseExporter g env penv) evs (x, w) = Some ((Some x', w'), Ret n)"
  shows "n = int (length evs) \<and> ch_delivered x' = ch_delivered x"
proof -
  let ?vt = "MakeClickHouseExporter g env penv"
  have calls: "vt_call ?vt = ch_call" by (simp add: MakeClickHouseExporter_def)
  obtain rs where rs: "those (map event_row evs) = Some rs" "list_all row_ok rs" "length rs = length evs"
    using event_rows [OF assms(3,4)] by blast
  obtain s where s: "run_calls (\<lambda>_. False) ?vt 0 (export_calls rs) (x, w) = Some (s, Ret ())"
      "rows_held (x, w) (int (length rs)) (row_values rs) s"
    using ch_export_calls_return [OF assms(1) rs(2) calls] by blast
  obtain x1 w1 where s1: "s = (x1, w1)" by (cases s)
  note P = ch_inv_partial [OF assms(1) rows_held_partial [OF s(2) [unfolded s1]]]
  have i: "idle penv w1" using assms(2) P(4) by (simp add: worker_ok_def)
  obtain x2 w2 ok where c: "ch_CommitBatch g env penv (x1, w1) = Some ((x2, w2), ok)"
      "if ok then ch_inv x2 \<and> client x2 \<and> ch_failures x2 = 0 \<and> ch_exported x2 = ch_exported x1 \<and>
              acked x2 = acked x1 @ [(BuildInsertQuery x1, map block_col (columns x1))]
       else ch_failed x1 x2"
    using CommitBatch_spec [OF P(1) i, of g env] by blast
  have ok: "\<not> ok" by (rule commit_rejected [OF assms(6) c(1)])
  then have f: "ch_exported x2 = int (length rs)" "acked x2 = acked x"
    using c(2) P(2) s(2) by (simp_all add: ch_failed_def rows_held_def s1)
  have "export_rows e penv ?vt evs (x, w) = Some ((Some x2, w2), Ret (ch_exported x2))"
    using rs(1) s(1) c(1) ok assms(5)
    by (simp add: export_rows_def ExportEventStats_def s1) (simp add: MakeClickHouseExporter_def)
  with r f rs(3) show ?thesis by (simp add: ch_delivered_def)
qed

lemma rejected_batch:
  assumes "ch_inv x" and "worker_ok penv w" and "event_bufs (event_mem e)" and "\<not> as_arrow g"
    and "reserve_exc e = None" and "call_throws e = (\<lambda>_. False)"
    and "\<forall>st. ch_inv st \<longrightarrow> snd (ch_EstablishNewConnection g env st)" and "rejects env"
  shows "\<exists>x' w' k. PschExportBatch g e penv (MakeClickHouseExporter g env penv) (Some x, w) = Some ((Some x', w'), Ret (int k)) \<and>
     ch_inv x' \<and> k = min (nat (psch_batch_max g)) (length (abs_queue (fst w))) \<and>
     leaves penv w (drop k (abs_queue (fst w))) w' \<and> ch_delivered x' = ch_delivered x"
proof -
  let ?vt = "MakeClickHouseExporter g env penv" and ?q = "abs_queue (fst w)" and ?m = "nat (psch_batch_max g)"
  have up: "vt_IsConnected ?vt x \<or> snd (vt_EstablishNewConnection ?vt x)"
    using assms(1,7) by (simp add: MakeClickHouseExporter_def)
  obtain x' w' n k ok where P: "PschExportBatch g e penv ?vt (Some x, w) = Some ((Some x', w'), Ret n)" "ch_inv x'"
      "k = 0 \<longrightarrow> n = 0" "leaves penv w (drop k ?q) w'"
      "rows_exported ch_delivered ch_image (take k ?q) (x, w) (x', w') n ok"
      "(vt_IsConnected ?vt x \<or> snd (vt_EstablishNewConnection ?vt x)) \<and> reserve_exc e = None \<longrightarrow>
        k = min ?m (length ?q) \<and> (answers ?vt penv ch_inv \<and> call_throws e = (\<lambda>_. False) \<longrightarrow> k = 0 \<or> ok)"
    using chx.PschExportBatch_spec [OF assms(1-3), of g g env] assms(4)
    by (simp only: if_False) (elim exE conjE, rule that; assumption)
  then have k: "k = min ?m (length ?q)" using up assms(5) by blast
  have "n = int k \<and> ch_delivered x' = ch_delivered x"
  proof (cases "k = 0")
    case True
    then show ?thesis using P(3,5) by (auto simp: rows_exported_def)
  next
    case False
    obtain x1 where c: "(if vt_IsConnected ?vt x then (x, True) else vt_EstablishNewConnection ?vt x) = (x1, True)"
      using up by (cases "vt_IsConnected ?vt x"; cases "vt_EstablishNewConnection ?vt x") (simp, simp, blast | simp)+
    have x1: "ch_inv x1" "ch_delivered x1 = ch_delivered x"
      using c assms(1) chx.connect_law [OF assms(1), of g env penv x1 True] by (auto split: if_splits)
    obtain w1 evs where D: "DequeueEvents e penv (psch_batch_max g) w = Some (w1, Ret (Inr evs))"
        "leaves penv w (drop ?m ?q) w1" "list_all event_bufs evs" "map out_event evs = take ?m ?q"
        "list_all abs_exportable (map out_event evs)"
      using chx.DequeueEvents_spec [OF assms(2,3,5), of "psch_batch_max g"] by blast
    have len: "length evs = k" using arg_cong [OF D(4), of length] k by simp
    then have "evs \<noteq> []" using False by auto
    then have "export_rows e penv ?vt evs (x1, w1) = Some ((Some x', w'), Ret n)"
      using P(1) c D(1) assms(4) by (simp add: PschExportBatch_def as_arrow_def [symmetric])
    from rejected_rows [OF x1(1) _ D(3,5) assms(6,8) this] D(2) len x1(2) show ?thesis by (simp add: leaves_def)
  qed
  with P(1,2,4) k show ?thesis by blast
qed

text \<open>
  C17. A server that accepts connections but rejects every INSERT costs the whole queue: a
  failed commit returns the size of the batch just as a successful one, so a full batch does
  not stop the drain, and the cycle ends with an empty queue although nothing has been
  delivered.
\<close>

theorem rejected_cycle_loses_queue:
  assumes "producers_pause N env penv" and "sane_env env" and "undisturbed env"
    and "bgw_ok penv ch_inv b" and "g_exporter b = Some x" and "rows_conf (conf b)"
    and "\<forall>i. rejects (cenv i)" and "\<forall>g i st. ch_inv st \<longrightarrow> snd (ch_EstablishNewConnection g (cenv i) st)"
  shows "\<exists>b' x'. RunExportCycle (env\<lparr>backend := ch_backend cenv penv\<rparr>) penv b = Some (b', Ret ()) \<and>
     queue_of b' = [] \<and> g_exporter b' = Some x' \<and> ch_delivered x' = ch_delivered x"
proof -
  let ?env = "env\<lparr>backend := ch_backend cenv penv\<rparr>"
  let ?P = "\<lambda>x (q :: abs_event list) x'. ch_delivered x' = ch_delivered x"
  have env: "producers_pause N ?env penv" "sane_env ?env" "undisturbed ?env"
    using assms(1-3) by (simp_all add: producers_pause_def sane_env_def undisturbed_def)
  have "\<exists>b' x' new. RunExportCycle ?env penv b = Some (b', Ret ()) \<and> bgw_ok penv ch_inv b' \<and> queue_of b' = [] \<and>
     g_exporter b' = Some x' \<and> ?P x (queue_of b @ new) x' \<and> (N \<le> clock b \<longrightarrow> new = [])"
  proof (rule chw.cycle_empties [OF env assms(4-6)])
    fix g i x w assume a: "rows_conf g" "ch_inv x" "worker_ok penv w"
    have e: "event_bufs (event_mem (exports env i))" "reserve_exc (exports env i) = None"
        "call_throws (exports env i) = (\<lambda>_. False)"
      using assms(2,3) by (simp_all add: sane_env_def undisturbed_def)
    show "\<exists>x' w' k. PschExportBatch g (exports ?env i) penv (backend ?env g i) (Some x, w) = Some ((Some x', w'), Ret (int k)) \<and>
        ch_inv x' \<and> k = min (nat (psch_batch_max g)) (length (abs_queue (fst w))) \<and>
        leaves penv w (drop k (abs_queue (fst w))) w' \<and> ?P x (take k (abs_queue (fst w))) x'"
      using rejected_batch [OF a(2,3) e(1) _ e(2,3), of g "cenv i"] a(1) assms(7,8)
      by (simp add: ch_backend_def rows_conf_def)
  qed simp
  then show ?thesis by blast
qed

definition chc_reject :: chc_env where
  "chc_reject = chc_sample\<lparr>recv_end := (\<lambda>_. Inr (CHC_PKT_EXCEPTION (Some ''Table does not exist'')))\<rparr>"

lemma chc_reject_facts [simp]: "rejects chc_reject" "snd (ch_EstablishNewConnection g chc_reject st)"
proof -
  have "recv_loop recv t (Suc n) i \<noteq> None" if "recv i = Inr (CHC_PKT_EXCEPTION (Some m))" for recv t n i m
    using that by simp
  from this [of "recv_end chc_reject" 0 _ _ 4095] show "rejects chc_reject"
    by (auto simp: rejects_def SendInsert_def RecvUntil_def kMaxRecvPackets_def chc_reject_def split: option.splits)
  show "snd (ch_EstablishNewConnection g chc_reject st)"
    by (simp add: chc_reject_def ch_EstablishNewConnection_def EnsureMemoryContexts_def TcpConnect_def TlsConnect_def
        chc_sample_def Let_def)
qed

theorem rejected_cycle_loses_queue_witness:
  "length (abs_queue (fst worker_world)) = 1 \<and>
   (\<exists>b' x'. RunExportCycle (bgw_sample (ch_backend (\<lambda>_. chc_reject) sample_env)) sample_env worker_sample = Some (b', Ret ()) \<and>
     queue_of b' = [] \<and> g_exporter b' = Some x' \<and> ch_delivered x' = ch_delivered ch_sample_conn)"
  using rejected_cycle_loses_queue [OF bgw_sample_simps(2,3) undisturbed_sample worker_sample_facts(1-3),
      where cenv = "\<lambda>_. chc_reject"]
  by simp

subsection \<open>Waiting, and being woken\<close>

text \<open>
  The retry delay doubles from one second with every failure in a row up to a minute; the cap
  on the exponent only keeps the shift in range.
\<close>

lemma retry_delay_closed:
  "PschGetRetryDelayMs vt (Some x) =
     (let n = vt_NumConsecutiveFailures vt x in if n \<le> 0 then 0 else min 60000 (1000 * 2 ^ nat (n - 1)))"
proof -
  define n where "n = vt_NumConsecutiveFailures vt x"
  note defs = PschGetRetryDelayMs_def kMaxConsecutiveFailures_def kBaseDelayMs_def kMaxDelayMs_def Let_def
  show ?thesis
  proof (cases "10 < n")
    case True
    then have "(2 :: int) ^ 10 \<le> 2 ^ nat (n - 1)" by (intro power_increasing) auto
    then have "min 60000 (1000 * 2 ^ nat (n - 1)) = (60000 :: int)" by simp
    with True show ?thesis by (simp add: defs n_def [symmetric] push_bit_eq_mult)
  qed (auto simp: defs n_def [symmetric] push_bit_eq_mult min_def)
qed

lemma sleep_closed:
  "CalculateSleepMs g vt (Some x) =
     (let n = vt_NumConsecutiveFailures vt x
      in if n \<le> 0 then psch_flush_interval_ms g
         else max (psch_flush_interval_ms g) (min 60000 (1000 * 2 ^ nat (n - 1))))"
  by (auto simp: CalculateSleepMs_def PschGetConsecutiveFailures_def retry_delay_closed Let_def max_def)

text \<open>
  A flush request never touches the segment but for a stale pid: that of a process that does
  not exist, if no new worker has stored its own in the meantime.
\<close>

lemma signal_flush_spec:
  "\<exists>w'. PschSignalFlush kill meanwhile w = Some w' \<and>
     (w' = w \<or>
      psch_shared_state (snd w) \<and> bgworker_pid (fst w) \<noteq> 0 \<and> kill (bgworker_pid (fst w)) = ESRCH \<and> snd w' = snd w \<and>
        fst w' = (if bgworker_pid (meanwhile (fst w)) = bgworker_pid (fst w)
                  then (meanwhile (fst w))\<lparr>bgworker_pid := 0\<rparr> else meanwhile (fst w)))"
  by (cases "kill (PschGetBgworkerPid w)"; cases w)
    (auto simp: PschSignalFlush_def PschGetBgworkerPid_def Let_def)

end
