(* ===== verification/Psch_Normalize_Cache.thy ===== *)
theory Psch_Normalize_Cache
  imports Psch_Prelude
begin

section \<open>The normalized query cache (\<^verbatim>\<open>query_normalize_state.c\<close>)\<close>

text \<open>
  A backend-local LRU cache from query ids to normalized text: a hash table for the lookup,
  a list through its entries for the order of use, and a memory context that holds the
  texts. An entry has a pointer to its text; the list is the sequence of query ids of the
  linked entries, most recently used first. Deleting a node that is not linked, reading or
  freeing a text that is not allocated, and evicting from an empty list are undefined
  behaviour (\<^const>\<open>None\<close>).

  PostgreSQL's allocator and hash table are parameters: \<open>mcxt_alloc\<close> is \<^const>\<open>None\<close> where
  \<^verbatim>\<open>MemoryContextAlloc\<close> raises an out-of-memory error and otherwise returns a block of the
  requested size with the bytes \<open>raw_byte\<close>; \<open>context_ok\<close>, \<open>create_ok\<close> and \<open>enter_ok\<close> say whether
  \<^verbatim>\<open>AllocSetContextCreate\<close>, \<^verbatim>\<open>hash_create\<close> and \<^verbatim>\<open>hash_search(HASH_ENTER)\<close> find memory, and
  \<open>stale_entry\<close> is what a fresh hash element has in the fields that dynahash does not set.
  \<open>mcxt_set\<close> is \<^verbatim>\<open>cache->mcxt != NULL\<close>, \<open>mcxt\<close> what is allocated in that context.

  Both callers pass the address of the same static cache, so \<^verbatim>\<open>cache == NULL\<close> does not occur,
  nor does \<^verbatim>\<open>dst == NULL\<close> or \<^verbatim>\<open>out_len == NULL\<close>.
\<close>

abbreviation PSCH_MAX_CACHED_QUERY_LEN :: int where "PSCH_MAX_CACHED_QUERY_LEN \<equiv> 2048"
abbreviation PSCH_NORMALIZE_CACHE_MIN_MAX :: int where "PSCH_NORMALIZE_CACHE_MIN_MAX \<equiv> 64"

type_synonym text_heap = "nat \<rightharpoonup> char list"

record PschNormalizeCacheEntry =
  normalized_query :: nat
  normalized_len :: int

record PschNormalizedQueryCache =
  htab :: "(u64 \<rightharpoonup> PschNormalizeCacheEntry) option"
  lru :: "u64 list"
  mcxt_set :: bool
  mcxt :: text_heap
  max_entries :: int

record norm_env =
  mcxt_alloc :: "text_heap \<Rightarrow> int \<Rightarrow> nat option"
  raw_byte :: "nat \<Rightarrow> char"
  context_ok :: bool
  create_ok :: bool
  enter_ok :: bool
  stale_entry :: PschNormalizeCacheEntry
  normalize_cache_max :: int

subsection \<open>Operations\<close>

definition PschInitNormalizedQueryCache ::
    "norm_env \<Rightarrow> int \<Rightarrow> PschNormalizedQueryCache \<Rightarrow> (PschNormalizedQueryCache, unit) pgres" where
  "PschInitNormalizedQueryCache env max_ent c =
     (if \<not> context_ok env then Some (c, Throw)
      else
        let c = c\<lparr>mcxt_set := True, mcxt := Map.empty\<rparr>
        in if \<not> create_ok env then Some (c, Throw)
           else pg_ret (c\<lparr>htab := Some Map.empty, lru := [], max_entries := max_ent\<rparr>) ())"

definition EnsureCacheInitialized ::
    "norm_env \<Rightarrow> PschNormalizedQueryCache \<Rightarrow> (PschNormalizedQueryCache, unit) pgres" where
  "EnsureCacheInitialized env c =
     (if htab c \<noteq> None then pg_ret c ()
      else PschInitNormalizedQueryCache env
             (if max_entries c > 0 then max_entries c else normalize_cache_max env) c)"

definition ClampCachedQueryLen :: "int \<Rightarrow> int" where
  "ClampCachedQueryLen len =
     (if len \<ge> PSCH_MAX_CACHED_QUERY_LEN then PSCH_MAX_CACHED_QUERY_LEN - 1 else len)"

definition PushEntryToMru :: "u64 \<Rightarrow> PschNormalizedQueryCache \<Rightarrow> PschNormalizedQueryCache" where
  "PushEntryToMru k c = c\<lparr>lru := k # lru c\<rparr>"

text \<open>\<^verbatim>\<open>dclist_delete_from\<close> on the node of the entry of \<open>k\<close>.\<close>

definition unlink_entry ::
    "u64 \<Rightarrow> PschNormalizedQueryCache \<Rightarrow> PschNormalizedQueryCache option" where
  "unlink_entry k c = (if k \<in> set (lru c) then Some (c\<lparr>lru := remove1 k (lru c)\<rparr>) else None)"

definition PromoteEntryToMru ::
    "u64 \<Rightarrow> PschNormalizedQueryCache \<Rightarrow> PschNormalizedQueryCache option" where
  "PromoteEntryToMru k c = map_option (PushEntryToMru k) (unlink_entry k c)"

definition CopyQueryText ::
    "norm_env \<Rightarrow> char list \<Rightarrow> int \<Rightarrow> PschNormalizedQueryCache \<Rightarrow>
       (PschNormalizedQueryCache, nat) pgres" where
  "CopyQueryText env src len c =
     (case mcxt_alloc env (mcxt c) (len + 1) of
        None \<Rightarrow> Some (c, Throw)
      | Some a \<Rightarrow>
          if len < 0 then None
          else
            (case memcpy (map (raw_byte env) [0..<nat (len + 1)]) src (nat len) of
               None \<Rightarrow> None
             | Some copy \<Rightarrow>
                 (case set_byte copy (nat len) NUL of
                    None \<Rightarrow> None
                  | Some copy \<Rightarrow> pg_ret (c\<lparr>mcxt := (mcxt c)(a \<mapsto> copy)\<rparr>) a)))"

definition CopyEntryText ::
    "PschNormalizeCacheEntry \<Rightarrow> char list \<Rightarrow> u64 \<Rightarrow> PschNormalizedQueryCache \<Rightarrow>
       (char list \<times> u16) option" where
  "CopyEntryText entry dst dst_size c =
     (let len = min (word_of_int (normalized_len entry)) (dst_size - 1) in
      case mcxt c (normalized_query entry) of
        None \<Rightarrow> None
      | Some src \<Rightarrow>
          (case memcpy dst src (unat len) of
             None \<Rightarrow> None
           | Some dst \<Rightarrow>
               (case set_byte dst (unat len) NUL of
                  None \<Rightarrow> None
                | Some dst \<Rightarrow> Some (dst, ucast len))))"

text \<open>\<^verbatim>\<open>pfree\<close> of a text.\<close>

definition free_text :: "nat \<Rightarrow> PschNormalizedQueryCache \<Rightarrow> PschNormalizedQueryCache option" where
  "free_text a c =
     (case mcxt c a of None \<Rightarrow> None | Some _ \<Rightarrow> Some (c\<lparr>mcxt := (mcxt c)(a := None)\<rparr>))"

text \<open>The tail node belongs to an entry of the table; a node outside it is freed memory.\<close>

definition EvictLru :: "PschNormalizedQueryCache \<Rightarrow> PschNormalizedQueryCache option" where
  "EvictLru c =
     (case (htab c, lru c) of
        (Some tab, x # xs) \<Rightarrow>
          let k = last (x # xs) in
          (case tab k of
             None \<Rightarrow> None
           | Some victim \<Rightarrow>
               Option.bind (unlink_entry k c) (\<lambda>c.
               Option.bind (free_text (normalized_query victim) c) (\<lambda>c.
               Some (c\<lparr>htab := Some (tab(k := None))\<rparr>))))
      | _ \<Rightarrow> None)"

text \<open>
  The two branches after \<^verbatim>\<open>hash_search(HASH_ENTER)\<close>, which has put the entry in the table:
  an entry that was there gives up its text and its place in the list, and a new one may
  push out the oldest.
\<close>

definition make_room ::
    "bool \<Rightarrow> u64 \<Rightarrow> PschNormalizeCacheEntry \<Rightarrow> PschNormalizedQueryCache \<Rightarrow>
       PschNormalizedQueryCache option" where
  "make_room found k entry c =
     (if found then Option.bind (free_text (normalized_query entry) c) (unlink_entry k)
      else if int (length (lru c)) \<ge> max_entries c then EvictLru c
      else Some c)"

definition PschRememberNormalizedQuery ::
    "norm_env \<Rightarrow> u64 \<Rightarrow> char list option \<Rightarrow> int \<Rightarrow> PschNormalizedQueryCache \<Rightarrow>
       (PschNormalizedQueryCache, unit) pgres" where
  "PschRememberNormalizedQuery env k src len c =
     (case src of
        None \<Rightarrow> pg_ret c ()
      | Some src \<Rightarrow>
          if k = 0 then pg_ret c ()
          else
            pg_bind (EnsureCacheInitialized env c) (\<lambda>c _.
              case htab c of
                None \<Rightarrow> None
              | Some tab \<Rightarrow>
                  if tab k = None \<and> \<not> enter_ok env then Some (c, Throw)
                  else
                    let found = tab k \<noteq> None;
                        entry = (case tab k of Some e \<Rightarrow> e | None \<Rightarrow> stale_entry env)
                    in
                    case make_room found k entry (c\<lparr>htab := Some (tab(k \<mapsto> entry))\<rparr>) of
                      None \<Rightarrow> None
                    | Some c \<Rightarrow>
                        let len = ClampCachedQueryLen len in
                        pg_bind (CopyQueryText env src len c) (\<lambda>c a.
                          pg_ret (PushEntryToMru k
                            (c\<lparr>htab := map_option (\<lambda>tab. tab(k \<mapsto>
                                 entry\<lparr>normalized_query := a, normalized_len := len\<rparr>))
                               (htab c)\<rparr>)) ())))"

definition PschLookupNormalizedQuery ::
    "u64 \<Rightarrow> char list \<Rightarrow> u64 \<Rightarrow> PschNormalizedQueryCache \<Rightarrow>
       (PschNormalizedQueryCache \<times> (char list \<times> u16) option) option" where
  "PschLookupNormalizedQuery k dst dst_size c =
     (case htab c of
        None \<Rightarrow> Some (c, None)
      | Some tab \<Rightarrow>
          if dst_size = 0 \<or> k = 0 then Some (c, None)
          else
            (case tab k of
               None \<Rightarrow> Some (c, None)
             | Some entry \<Rightarrow>
                 (case PromoteEntryToMru k c of
                    None \<Rightarrow> None
                  | Some c \<Rightarrow>
                      (case CopyEntryText entry dst dst_size c of
                         None \<Rightarrow> None
                       | Some r \<Rightarrow> Some (c, Some r)))))"

subsection \<open>The contract of an LRU cache\<close>

text \<open>
  The abstract cache is a list of keys with values, most recently used first. The laws say
  what the two operations do to it; what a client needs is proved from them: the entries of
  the last \<open>cap\<close> distinct keys are there.
\<close>

definition mtf :: "'k \<Rightarrow> 'v \<Rightarrow> ('k \<times> 'v) list \<Rightarrow> ('k \<times> 'v) list" where
  "mtf k v l = (k, v) # filter (\<lambda>p. fst p \<noteq> k) l"

datatype ('k, 'v) cache_op = Put 'k 'v | Use 'k

fun op_key :: "('k, 'v) cache_op \<Rightarrow> 'k" where
  "op_key (Put k v) = k"
| "op_key (Use k) = k"

text \<open>The key \<open>k\<close> is in the list with value \<open>v\<close>, and only keys of \<open>S\<close> were used after it.\<close>

definition recent :: "('k \<times> 'v) list \<Rightarrow> 'k \<Rightarrow> 'v \<Rightarrow> 'k set \<Rightarrow> bool" where
  "recent l k v S \<longleftrightarrow> (\<exists>xs ys. l = xs @ (k, v) # ys \<and> fst ` set xs \<subseteq> S)"

lemma recent_mtf: "recent (mtf k v l) k v {}"
  by (force simp: recent_def mtf_def)

lemma recent_mono: "recent l k v S \<Longrightarrow> S \<subseteq> T \<Longrightarrow> recent l k v T"
  unfolding recent_def by blast

lemma recent_take:
  assumes "recent l k v S" and "distinct (map fst l)" and "k \<notin> S" and "finite S" and "card S < n"
  shows "recent (take n l) k v S"
proof -
  obtain xs ys where l: "l = xs @ (k, v) # ys" and xs: "fst ` set xs \<subseteq> S"
    using assms(1) by (auto simp: recent_def)
  have "length xs = card (fst ` set xs)"
    using assms(2) l by (metis append_assoc distinct_append distinct_card length_map list.set_map map_append)
  also have "\<dots> \<le> card S" using xs assms(4) by (rule card_mono [rotated])
  finally have "length xs < n" using assms(5) by simp
  then have "take n l = xs @ (k, v) # take (n - length xs - 1) ys"
    by (simp add: l take_Cons')
  with xs show ?thesis by (auto simp: recent_def)
qed

lemma recent_mtf_other:
  assumes "recent l k v S" and "j \<noteq> k"
  shows "recent (mtf j w l) k v (insert j S)"
proof -
  obtain xs ys where l: "l = xs @ (k, v) # ys" and xs: "fst ` set xs \<subseteq> S"
    using assms(1) by (auto simp: recent_def)
  have "mtf j w l = ((j, w) # filter (\<lambda>p. fst p \<noteq> j) xs) @ (k, v) # filter (\<lambda>p. fst p \<noteq> j) ys"
    using assms(2) by (simp add: l mtf_def)
  moreover have "fst ` set ((j, w) # filter (\<lambda>p. fst p \<noteq> j) xs) \<subseteq> insert j S" using xs by auto
  ultimately show ?thesis unfolding recent_def by blast
qed

lemma distinct_mtf: "distinct (map fst l) \<Longrightarrow> distinct (map fst (mtf k v l))"
  by (auto simp: mtf_def distinct_map_filter)

lemma recent_map_of: "recent l k v S \<Longrightarrow> distinct (map fst l) \<Longrightarrow> map_of l k = Some v"
  by (auto simp: recent_def map_add_def split: option.splits dest!: map_of_SomeD)

locale lru_cache =
  fixes inv :: "'s \<Rightarrow> bool"
    and contents :: "'s \<Rightarrow> ('k \<times> 'v) list"
    and cap :: "'s \<Rightarrow> nat"
    and put :: "'k \<Rightarrow> 'v \<Rightarrow> 's \<Rightarrow> 's option"
    and get :: "'k \<Rightarrow> 's \<Rightarrow> ('s \<times> 'v option) option"
    and ok :: "'k \<Rightarrow> 'v \<Rightarrow> bool"
  assumes keys_distinct: "inv s \<Longrightarrow> distinct (map fst (contents s))"
    and put_law: "inv s \<Longrightarrow> ok k v \<Longrightarrow>
      \<exists>s'. put k v s = Some s' \<and> inv s' \<and> cap s' = cap s \<and>
           contents s' = take (cap s) (mtf k v (contents s))"
    and get_law: "inv s \<Longrightarrow>
      \<exists>s'. get k s = Some (s', map_of (contents s) k) \<and> inv s' \<and> cap s' = cap s \<and>
           contents s' = (case map_of (contents s) k of
                            None \<Rightarrow> contents s | Some v \<Rightarrow> mtf k v (contents s))"
begin

fun step :: "('k, 'v) cache_op \<Rightarrow> 's \<Rightarrow> 's option" where
  "step (Put k v) s = put k v s"
| "step (Use k) s = map_option fst (get k s)"

primrec run :: "('k, 'v) cache_op list \<Rightarrow> 's \<Rightarrow> 's option" where
  "run [] s = Some s"
| "run (x # xs) s = Option.bind (step x s) (run xs)"

fun op_ok :: "('k, 'v) cache_op \<Rightarrow> bool" where
  "op_ok (Put k v) = ok k v"
| "op_ok (Use k) = True"

lemma step_other:
  assumes "inv s" and "recent (contents s) k v S" and "op_ok x" and "op_key x \<noteq> k"
    and "finite S" and "k \<notin> S" and "card (insert (op_key x) S) < cap s"
  shows "\<exists>s'. step x s = Some s' \<and> inv s' \<and> cap s' = cap s \<and>
              recent (contents s') k v (insert (op_key x) S)"
proof (cases x)
  case (Put j w)
  have "recent (mtf j w (contents s)) k v (insert j S)"
    using assms(2,4) Put by (auto intro: recent_mtf_other)
  moreover have "distinct (map fst (mtf j w (contents s)))"
    using keys_distinct [OF assms(1)] by (rule distinct_mtf)
  ultimately have "recent (take (cap s) (mtf j w (contents s))) k v (insert j S)"
    using assms(4-7) Put by (intro recent_take) simp_all
  then show ?thesis using put_law [OF assms(1), of j w] assms(3) Put by fastforce
next
  case (Use j)
  obtain s' where s': "get j s = Some (s', map_of (contents s) j)" "inv s'" "cap s' = cap s"
    "contents s' = (case map_of (contents s) j of
        None \<Rightarrow> contents s | Some v \<Rightarrow> mtf j v (contents s))"
    using get_law [OF assms(1), of j] by blast
  have "recent (contents s') k v (insert j S)"
  proof (cases "map_of (contents s) j")
    case None
    then show ?thesis using assms(2) s'(4) by (auto simp: recent_def)
  next
    case (Some w)
    then show ?thesis using assms(2,4) s'(4) Use by (simp add: recent_mtf_other)
  qed
  then show ?thesis using s' Use by simp
qed

lemma step_use:
  assumes "inv s" and "recent (contents s) k v S"
  shows "\<exists>s'. step (Use k) s = Some s' \<and> inv s' \<and> cap s' = cap s \<and> recent (contents s') k v S"
proof -
  have "map_of (contents s) k = Some v"
    by (rule recent_map_of [OF assms(2) keys_distinct [OF assms(1)]])
  then obtain s' where s': "get k s = Some (s', Some v)" "inv s'" "cap s' = cap s"
      "contents s' = mtf k v (contents s)"
    using get_law [OF assms(1), of k] by auto
  have "recent (contents s') k v S"
    unfolding s'(4) by (rule recent_mono [OF recent_mtf empty_subsetI])
  then show ?thesis using s' by simp
qed

lemma run_recent:
  "inv s \<Longrightarrow> recent (contents s) k v S \<Longrightarrow> finite S \<Longrightarrow> k \<notin> S \<Longrightarrow>
   (\<forall>x\<in>set xs. op_ok x \<and> (op_key x = k \<longrightarrow> x = Use k)) \<Longrightarrow>
   card (S \<union> (op_key ` set xs - {k})) < cap s \<Longrightarrow>
   \<exists>s' T. run xs s = Some s' \<and> inv s' \<and> recent (contents s') k v T"
proof (induction xs arbitrary: s S)
  case Nil
  then show ?case using run.simps(1) by blast
next
  case (Cons x xs)
  show ?case
  proof (cases "op_key x = k")
    case True
    then have x: "x = Use k" using Cons.prems(5) by simp
    obtain s' where s': "step x s = Some s'" "inv s'" "cap s' = cap s" "recent (contents s') k v S"
      using step_use [OF Cons.prems(1,2)] x by blast
    have "card (S \<union> (op_key ` set xs - {k})) < cap s'"
      using Cons.prems(6) s'(3) x by simp
    with Cons.IH [OF s'(2,4) Cons.prems(3,4)] Cons.prems(5) show ?thesis
      using s'(1) by simp
  next
    case False
    let ?S = "insert (op_key x) S"
    have sub: "S \<union> (op_key ` set (x # xs) - {k}) = ?S \<union> (op_key ` set xs - {k})"
      using False by auto
    have "card ?S \<le> card (?S \<union> (op_key ` set xs - {k}))"
      using Cons.prems(3) by (intro card_mono) auto
    then have "card ?S < cap s" using Cons.prems(6) unfolding sub by simp
    then obtain s' where s': "step x s = Some s'" "inv s'" "cap s' = cap s"
        "recent (contents s') k v ?S"
      using step_other [OF Cons.prems(1,2) _ False Cons.prems(3,4)] Cons.prems(5)
      by (meson list.set_intros(1))
    have "card (?S \<union> (op_key ` set xs - {k})) < cap s'"
      using Cons.prems(6) s'(3) unfolding sub by simp
    moreover have "finite ?S" "k \<notin> ?S" using Cons.prems(3,4) False by auto
    ultimately show ?thesis
      using Cons.IH [OF s'(2,4)] Cons.prems(5) s'(1) by simp
  qed
qed

lemma hot_key_hits:
  assumes "inv s" and "ok k v"
    and "\<forall>x\<in>set xs. op_ok x \<and> (op_key x = k \<longrightarrow> x = Use k)"
    and "card (op_key ` set xs - {k}) < cap s"
  shows "\<exists>s' s''. run (Put k v # xs) s = Some s' \<and> inv s' \<and> get k s' = Some (s'', Some v)"
proof -
  obtain s0 where s0: "put k v s = Some s0" "inv s0" "cap s0 = cap s"
      "contents s0 = take (cap s) (mtf k v (contents s))"
    using put_law [OF assms(1,2)] by blast
  have rec: "recent (contents s0) k v {}"
    unfolding s0(4)
    by (rule recent_take [OF recent_mtf distinct_mtf [OF keys_distinct [OF assms(1)]]])
       (use assms(4) in auto)
  have "card ({} \<union> (op_key ` set xs - {k})) < cap s0"
    using assms(4) s0(3) by simp
  then obtain s' T where s': "run xs s0 = Some s'" "inv s'" "recent (contents s') k v T"
    using run_recent [OF s0(2) rec finite.emptyI _ assms(3)] by blast
  have "map_of (contents s') k = Some v"
    by (rule recent_map_of [OF s'(3) keys_distinct [OF s'(2)]])
  then obtain s'' where "get k s' = Some (s'', Some v)"
    using get_law [OF s'(2), of k] by auto
  moreover have "run (Put k v # xs) s = Some s'" using s0(1) s'(1) by simp
  ultimately show ?thesis using s'(2) by blast
qed

end

subsection \<open>The invariant\<close>

definition entry_ok :: "text_heap \<Rightarrow> PschNormalizeCacheEntry \<Rightarrow> bool" where
  "entry_ok h e \<longleftrightarrow>
     (\<exists>t. h (normalized_query e) = Some (t @ [NUL]) \<and> normalized_len e = int (length t) \<and>
          length t < 2048)"

definition entry_text :: "text_heap \<Rightarrow> PschNormalizeCacheEntry \<Rightarrow> char list" where
  "entry_text h e = take (nat (normalized_len e)) (the (h (normalized_query e)))"

abbreviation text_of :: "(u64 \<rightharpoonup> PschNormalizeCacheEntry) \<Rightarrow> u64 \<Rightarrow> nat" where
  "text_of tab k \<equiv> normalized_query (the (tab k))"

text \<open>
  Table, list and context agree: the list links every entry once, every entry owns one text,
  and every text of the context has an owner.
\<close>

definition parts_inv ::
    "(u64 \<rightharpoonup> PschNormalizeCacheEntry) \<Rightarrow> u64 list \<Rightarrow> text_heap \<Rightarrow> bool" where
  "parts_inv tab l h \<longleftrightarrow>
     distinct l \<and> set l = dom tab \<and> 0 \<notin> dom tab \<and> inj_on (text_of tab) (dom tab) \<and>
     dom h = text_of tab ` dom tab \<and> (\<forall>k\<in>dom tab. entry_ok h (the (tab k)))"

definition parts_contents ::
    "(u64 \<rightharpoonup> PschNormalizeCacheEntry) \<Rightarrow> u64 list \<Rightarrow> text_heap \<Rightarrow> (u64 \<times> char list) list" where
  "parts_contents tab l h = map (\<lambda>k. (k, entry_text h (the (tab k)))) l"

definition cache_inv :: "PschNormalizedQueryCache \<Rightarrow> bool" where
  "cache_inv c \<longleftrightarrow>
     (case htab c of
        None \<Rightarrow> max_entries c \<le> 0
      | Some tab \<Rightarrow> 0 < max_entries c \<and> int (length (lru c)) \<le> max_entries c \<and>
                    parts_inv tab (lru c) (mcxt c))"

definition cache_contents :: "PschNormalizedQueryCache \<Rightarrow> (u64 \<times> char list) list" where
  "cache_contents c =
     (case htab c of None \<Rightarrow> [] | Some tab \<Rightarrow> parts_contents tab (lru c) (mcxt c))"

text \<open>The bound that the cache has, or will have once its first use creates it.\<close>

definition cache_cap :: "norm_env \<Rightarrow> PschNormalizedQueryCache \<Rightarrow> nat" where
  "cache_cap env c =
     nat (if htab c = None then normalize_cache_max env else max_entries c)"

text \<open>Memory is available, and an allocation is memory that is not in use.\<close>

definition norm_env_ok :: "norm_env \<Rightarrow> bool" where
  "norm_env_ok env \<longleftrightarrow>
     context_ok env \<and> create_ok env \<and> enter_ok env \<and>
     PSCH_NORMALIZE_CACHE_MIN_MAX \<le> normalize_cache_max env \<and>
     (\<forall>h n. finite (dom h) \<longrightarrow> (\<exists>a. mcxt_alloc env h n = Some a \<and> h a = None))"

lemma entry_ok_cong: "h (normalized_query e) = h' (normalized_query e) \<Longrightarrow> entry_ok h e = entry_ok h' e"
  by (simp add: entry_ok_def)

lemma entry_text_cong:
  "h (normalized_query e) = h' (normalized_query e) \<Longrightarrow> entry_text h e = entry_text h' e"
  by (simp add: entry_text_def)

lemma parts_invD:
  assumes "parts_inv tab l h"
  shows "distinct l" and "set l = dom tab" and "0 \<notin> dom tab"
    and "inj_on (text_of tab) (dom tab)" and "dom h = text_of tab ` dom tab"
    and "\<And>k e. tab k = Some e \<Longrightarrow> entry_ok h e"
  using assms unfolding parts_inv_def by (simp_all, metis domI option.sel)

lemma parts_contents_keys [simp]: "map fst (parts_contents tab l h) = l"
  by (simp add: parts_contents_def comp_def)

lemma parts_contents_length [simp]: "length (parts_contents tab l h) = length l"
  by (simp add: parts_contents_def)

lemma parts_contents_map_of:
  assumes "parts_inv tab l h"
  shows "map_of (parts_contents tab l h) k = map_option (entry_text h) (tab k)"
proof (cases "tab k")
  case None
  then have "k \<notin> set l" using parts_invD(2) [OF assms] by auto
  then show ?thesis using None by (simp add: parts_contents_def map_of_map_restrict)
next
  case (Some e)
  then have "k \<in> set l" using parts_invD(2) [OF assms] by auto
  then show ?thesis using Some by (simp add: parts_contents_def map_of_map_restrict)
qed

lemma parts_finite: "parts_inv tab l h \<Longrightarrow> finite (dom h)"
  by (metis parts_invD(2,5) List.finite_set finite_imageI)

lemma remove1_filter: "distinct l \<Longrightarrow> remove1 k l = filter (\<lambda>j. j \<noteq> k) l"
  by (induction l) (auto intro!: filter_True [symmetric])

text \<open>Taking an entry out: its text goes with it.\<close>

lemma parts_remove:
  assumes inv: "parts_inv tab l h" and k: "tab k = Some e"
  defines "h' \<equiv> h(normalized_query e := None)"
  shows "parts_inv (tab(k := None)) (remove1 k l) h'"
    and "parts_contents (tab(k := None)) (remove1 k l) h'
           = filter (\<lambda>p. fst p \<noteq> k) (parts_contents tab l h)"
proof -
  note D = parts_invD [OF inv]
  have other: "normalized_query e' \<noteq> normalized_query e" if "tab j = Some e'" "j \<noteq> k" for j e'
    using inj_onD [OF D(4), of j k] that k by auto
  have keep: "h' (normalized_query e') = h (normalized_query e')"
    if "tab j = Some e'" "j \<noteq> k" for j e'
    using other [OF that] by (simp add: h'_def)
  have "inj_on (text_of (tab(k := None))) (dom tab - {k})"
    using D(4) by (auto simp: inj_on_def)
  moreover have "dom h' = text_of (tab(k := None)) ` (dom tab - {k})"
  proof -
    have "dom h' = dom h - {normalized_query e}" by (auto simp: h'_def)
    also have "\<dots> = text_of tab ` (dom tab - {k})"
      using D(4) k unfolding D(5) by (auto simp: inj_on_def dest: other)
    also have "\<dots> = text_of (tab(k := None)) ` (dom tab - {k})" by (rule image_cong) auto
    finally show ?thesis .
  qed
  moreover have "entry_ok h' (the ((tab(k := None)) j))" if j: "j \<in> dom tab - {k}" for j
  proof -
    obtain e' where e': "tab j = Some e'" "j \<noteq> k" using j by auto
    show ?thesis using D(6) [OF e'(1)] entry_ok_cong [of h' e' h, OF keep [OF e']] e' by simp
  qed
  ultimately show "parts_inv (tab(k := None)) (remove1 k l) h'"
    using D(1-3) unfolding parts_inv_def by (simp add: set_remove1_eq)
  have "remove1 k l = filter (\<lambda>j. j \<noteq> k) l"
    using D(1) by (rule remove1_filter)
  moreover have "map (\<lambda>j. (j, entry_text h' (the ((tab(k := None)) j)))) (filter (\<lambda>j. j \<noteq> k) l)
      = map (\<lambda>j. (j, entry_text h (the (tab j)))) (filter (\<lambda>j. j \<noteq> k) l)"
  proof (rule map_cong [OF refl])
    fix j assume "j \<in> set (filter (\<lambda>j. j \<noteq> k) l)"
    then obtain e' where e': "tab j = Some e'" "j \<noteq> k" using D(2) by auto
    then show "(j, entry_text h' (the ((tab(k := None)) j))) = (j, entry_text h (the (tab j)))"
      using entry_text_cong [of h' e' h, OF keep [OF e']] by simp
  qed
  ultimately show "parts_contents (tab(k := None)) (remove1 k l) h'
      = filter (\<lambda>p. fst p \<noteq> k) (parts_contents tab l h)"
    by (simp add: parts_contents_def filter_map comp_def)
qed

text \<open>Putting a new entry in front, with a text of its own.\<close>

lemma parts_insert:
  assumes inv: "parts_inv tab l h" and k: "tab k = None" "k \<noteq> 0" and a: "h a = None"
    and t: "length t < 2048" and e: "normalized_query e = a" "normalized_len e = int (length t)"
  defines "h' \<equiv> h(a \<mapsto> t @ [NUL])"
  shows "parts_inv (tab(k \<mapsto> e)) (k # l) h'"
    and "parts_contents (tab(k \<mapsto> e)) (k # l) h' = (k, t) # parts_contents tab l h"
proof -
  note D = parts_invD [OF inv]
  have other: "normalized_query e' \<noteq> a" if "tab j = Some e'" for j e'
    using D(5) that a by (metis domI domIff image_eqI option.sel)
  have keep: "h' (normalized_query e') = h (normalized_query e')" if "tab j = Some e'" for j e'
    using other [OF that] by (simp add: h'_def)
  have same: "text_of (tab(k \<mapsto> e)) j = text_of tab j" if "j \<in> dom tab" for j
    using that k(1) by auto
  have k_notin: "a \<notin> text_of tab ` dom tab" using D(5) a by auto
  have img: "text_of (tab(k \<mapsto> e)) ` dom tab = text_of tab ` dom tab"
    by (rule image_cong [OF refl same])
  have "inj_on (text_of (tab(k \<mapsto> e))) (dom tab)"
    using D(4) inj_on_cong [of "dom tab", OF same] by simp
  then have "inj_on (text_of (tab(k \<mapsto> e))) (insert k (dom tab))"
    using k_notin k(1) e(1) img by (auto simp: inj_on_insert)
  moreover have "dom h' = text_of (tab(k \<mapsto> e)) ` insert k (dom tab)"
    using D(5) e(1) img by (simp add: h'_def)
  moreover have "entry_ok h' (the ((tab(k \<mapsto> e)) j))" if j: "j \<in> insert k (dom tab)" for j
  proof (cases "j = k")
    case True
    then show ?thesis using e t by (simp add: entry_ok_def h'_def)
  next
    case False
    then obtain e' where e': "tab j = Some e'" using j by auto
    then show ?thesis using D(6) [OF e'] entry_ok_cong [of h' e' h, OF keep [OF e']] False by simp
  qed
  ultimately show "parts_inv (tab(k \<mapsto> e)) (k # l) h'"
    using D(1-3) k unfolding parts_inv_def by auto
  have "map (\<lambda>j. (j, entry_text h' (the ((tab(k \<mapsto> e)) j)))) l
      = map (\<lambda>j. (j, entry_text h (the (tab j)))) l"
  proof (rule map_cong [OF refl])
    fix j assume "j \<in> set l"
    then obtain e' where e': "tab j = Some e'" "j \<noteq> k" using D(2) k by auto
    then show "(j, entry_text h' (the ((tab(k \<mapsto> e)) j))) = (j, entry_text h (the (tab j)))"
      using entry_text_cong [of h' e' h, OF keep [OF e'(1)]] by simp
  qed
  then show "parts_contents (tab(k \<mapsto> e)) (k # l) h' = (k, t) # parts_contents tab l h"
    using e by (simp add: parts_contents_def entry_text_def h'_def)
qed

text \<open>Moving an entry to the front changes only the order.\<close>

lemma parts_promote:
  assumes "parts_inv tab l h" and "tab k = Some e"
  shows "parts_inv tab (k # remove1 k l) h"
    and "parts_contents tab (k # remove1 k l) h = mtf k (entry_text h e) (parts_contents tab l h)"
proof -
  note D = parts_invD [OF assms(1)]
  have "k \<in> set l" using D(2) assms(2) by auto
  then have "set (k # remove1 k l) = dom tab" using D(1,2) by auto
  then show "parts_inv tab (k # remove1 k l) h"
    using assms(1) unfolding parts_inv_def by simp
  have "remove1 k l = filter (\<lambda>j. j \<noteq> k) l"
    using D(1) by (rule remove1_filter)
  then show "parts_contents tab (k # remove1 k l) h = mtf k (entry_text h e) (parts_contents tab l h)"
    using assms(2) by (simp add: parts_contents_def mtf_def filter_map comp_def)
qed

subsection \<open>The operations keep the contract\<close>

lemma ClampCachedQueryLen_nat: "ClampCachedQueryLen (int n) = int (min n 2047)"
  by (auto simp: ClampCachedQueryLen_def)

lemma EvictLru_eq:
  assumes "htab c = Some tab" and "lru c \<noteq> []" and "tab (last (lru c)) = Some e"
    and "mcxt c (normalized_query e) = Some t"
  shows "EvictLru c =
    Some (c\<lparr>htab := Some (tab(last (lru c) := None)), lru := remove1 (last (lru c)) (lru c),
            mcxt := (mcxt c)(normalized_query e := None)\<rparr>)"
proof -
  have "EvictLru c = (let k = last (lru c) in
          case tab k of None \<Rightarrow> None
          | Some victim \<Rightarrow>
               Option.bind (unlink_entry k c) (\<lambda>c.
               Option.bind (free_text (normalized_query victim) c) (\<lambda>c.
               Some (c\<lparr>htab := Some (tab(k := None))\<rparr>))))"
    using assms(1,2) by (cases "lru c") (simp_all add: EvictLru_def)
  then show ?thesis using assms by (simp add: unlink_entry_def free_text_def Let_def)
qed

lemma filter_last_butlast:
  assumes "distinct (map fst xs)" and "xs \<noteq> []" and "v = fst (last xs)"
  shows "filter (\<lambda>p. fst p \<noteq> v) xs = butlast xs"
proof -
  obtain ys y where "xs = ys @ [y]" using assms(2) by (cases xs rule: rev_cases) auto
  moreover from this have "\<forall>p\<in>set ys. fst p \<noteq> fst y"
    using assms(1) by (simp, metis image_eqI)
  ultimately show ?thesis using assms(3) by (simp add: filter_id_conv)
qed

text \<open>What the table and the list are after \<^const>\<open>make_room\<close>, but for the entry of \<open>k\<close> itself.\<close>

lemma make_room_spec:
  assumes tab: "htab c = Some tab" and inv: "parts_inv tab (lru c) (mcxt c)"
    and sz: "0 < max_entries c" "int (length (lru c)) \<le> max_entries c"
    and entry: "entry = (case tab k of Some e \<Rightarrow> e | None \<Rightarrow> stale)"
  shows "\<exists>tab0 l0 h0.
     make_room (tab k \<noteq> None) k entry (c\<lparr>htab := Some (tab(k \<mapsto> entry))\<rparr>)
       = Some (c\<lparr>htab := Some (tab0(k \<mapsto> entry)), lru := l0, mcxt := h0\<rparr>) \<and>
     parts_inv tab0 l0 h0 \<and> tab0 k = None \<and> int (length l0) < max_entries c \<and>
     parts_contents tab0 l0 h0 =
       take (nat (max_entries c) - 1)
         (filter (\<lambda>p. fst p \<noteq> k) (parts_contents tab (lru c) (mcxt c)))"
proof (cases "tab k")
  case (Some e)
  let ?h = "(mcxt c)(normalized_query e := None)" and ?l = "remove1 k (lru c)"
  note D = parts_invD [OF inv] and R = parts_remove [OF inv Some]
  have k: "k \<in> set (lru c)" using D(2) Some by auto
  then have len: "length ?l = length (lru c) - 1" and pos: "0 < length (lru c)"
    by (auto simp: length_remove1)
  obtain t where t: "mcxt c (normalized_query e) = Some t"
    using D(6) [OF Some] by (auto simp: entry_ok_def)
  have "make_room True k e (c\<lparr>htab := Some (tab(k \<mapsto> e))\<rparr>)
      = Some (c\<lparr>htab := Some ((tab(k := None))(k \<mapsto> e)), lru := ?l, mcxt := ?h\<rparr>)"
    using t k by (simp add: make_room_def free_text_def unlink_entry_def)
  moreover have "length (filter (\<lambda>p. fst p \<noteq> k) (parts_contents tab (lru c) (mcxt c))) = length ?l"
    using R(2) by (metis parts_contents_length)
  ultimately show ?thesis
    using R len pos sz entry Some by (intro exI [of _ "tab(k := None)"] exI [of _ ?l] exI [of _ ?h]) auto
next
  case None
  note D = parts_invD [OF inv]
  have nk: "k \<notin> set (lru c)" using D(2) None by auto
  then have flt: "filter (\<lambda>p. fst p \<noteq> k) (parts_contents tab (lru c) (mcxt c))
      = parts_contents tab (lru c) (mcxt c)"
    by (auto simp: parts_contents_def intro!: filter_True)
  show ?thesis
  proof (cases "int (length (lru c)) \<ge> max_entries c")
    case False
    then have "make_room False k entry (c\<lparr>htab := Some (tab(k \<mapsto> entry))\<rparr>)
        = Some (c\<lparr>htab := Some (tab(k \<mapsto> entry)), lru := lru c, mcxt := mcxt c\<rparr>)"
      by (simp add: make_room_def)
    then show ?thesis
      using False inv None flt by (intro exI [of _ tab] exI [of _ "lru c"] exI [of _ "mcxt c"]) auto
  next
    case True
    then have full: "int (length (lru c)) = max_entries c" using sz by simp
    then have ne: "lru c \<noteq> []" using sz by auto
    define v where "v = last (lru c)"
    have v: "v \<in> set (lru c)" "v \<noteq> k" using ne nk by (auto simp: v_def)
    then obtain e where e: "tab v = Some e" using D(2) by auto
    let ?h = "(mcxt c)(normalized_query e := None)" and ?l = "remove1 v (lru c)"
    note R = parts_remove [OF inv e]
    obtain t where t: "mcxt c (normalized_query e) = Some t"
      using D(6) [OF e] by (auto simp: entry_ok_def)
    have "EvictLru (c\<lparr>htab := Some (tab(k \<mapsto> entry))\<rparr>)
        = Some (c\<lparr>htab := Some ((tab(v := None))(k \<mapsto> entry)), lru := ?l, mcxt := ?h\<rparr>)"
      using EvictLru_eq [of "c\<lparr>htab := Some (tab(k \<mapsto> entry))\<rparr>" "tab(k \<mapsto> entry)" e t] ne v e t
      by (simp add: v_def [symmetric] fun_upd_twist)
    then have mk: "make_room False k entry (c\<lparr>htab := Some (tab(k \<mapsto> entry))\<rparr>)
        = Some (c\<lparr>htab := Some ((tab(v := None))(k \<mapsto> entry)), lru := ?l, mcxt := ?h\<rparr>)"
      using True by (simp add: make_room_def)
    let ?P = "parts_contents tab (lru c) (mcxt c)"
    have "?P \<noteq> []" and "fst (last ?P) = v"
      using ne by (auto simp: parts_contents_def last_map v_def)
    then have "filter (\<lambda>p. fst p \<noteq> v) ?P = take (nat (max_entries c) - 1) ?P"
      using filter_last_butlast [of ?P v] D(1) full [symmetric] by (simp add: butlast_conv_take)
    moreover have "int (length ?l) < max_entries c"
      using full v sz by (simp add: length_remove1)
    ultimately show ?thesis
      using mk R v None flt
      by (intro exI [of _ "tab(v := None)"] exI [of _ ?l] exI [of _ ?h]) simp
  qed
qed

lemma CopyQueryText_fits:
  "mcxt_alloc env (mcxt c) (int n + 1) = Some a \<Longrightarrow> n \<le> length src \<Longrightarrow>
     CopyQueryText env src (int n) c = pg_ret (c\<lparr>mcxt := (mcxt c)(a \<mapsto> take n src @ [NUL])\<rparr>) a"
  by (simp add: CopyQueryText_def nat_add_distrib list_update_append)

lemma remember_initialized:
  assumes tab: "htab c = Some tab" and inv: "cache_inv c" and env: "norm_env_ok env"
    and k: "k \<noteq> 0" and n: "n \<le> length src"
  shows "\<exists>c'. PschRememberNormalizedQuery env k (Some src) (int n) c = pg_ret c' () \<and>
              cache_inv c' \<and> htab c' \<noteq> None \<and> max_entries c' = max_entries c \<and>
              cache_contents c' =
                take (nat (max_entries c)) (mtf k (take (min n 2047) src) (cache_contents c))"
proof -
  define entry where "entry = (case tab k of Some e \<Rightarrow> e | None \<Rightarrow> stale_entry env)"
  define t where "t = take (min n 2047) src"
  have P: "parts_inv tab (lru c) (mcxt c)" "0 < max_entries c"
      "int (length (lru c)) \<le> max_entries c"
    using inv tab by (auto simp: cache_inv_def)
  obtain tab0 l0 h0 where room:
      "make_room (tab k \<noteq> None) k entry (c\<lparr>htab := Some (tab(k \<mapsto> entry))\<rparr>)
         = Some (c\<lparr>htab := Some (tab0(k \<mapsto> entry)), lru := l0, mcxt := h0\<rparr>)"
      "parts_inv tab0 l0 h0" "tab0 k = None" "int (length l0) < max_entries c"
      "parts_contents tab0 l0 h0 = take (nat (max_entries c) - 1)
         (filter (\<lambda>p. fst p \<noteq> k) (parts_contents tab (lru c) (mcxt c)))"
    using make_room_spec [OF tab P entry_def] by blast
  obtain a where a: "mcxt_alloc env h0 (int (min n 2047) + 1) = Some a" "h0 a = None"
    using env parts_finite [OF room(2)] unfolding norm_env_ok_def by blast
  have lt: "length t = min n 2047" "length t < 2048" using n by (auto simp: t_def)
  let ?e = "entry\<lparr>normalized_query := a, normalized_len := int (min n 2047)\<rparr>"
  let ?c = "c\<lparr>htab := Some (tab0(k \<mapsto> ?e)), lru := k # l0, mcxt := h0(a \<mapsto> t @ [NUL])\<rparr>"
  have I: "parts_inv (tab0(k \<mapsto> ?e)) (k # l0) (h0(a \<mapsto> t @ [NUL]))"
      "parts_contents (tab0(k \<mapsto> ?e)) (k # l0) (h0(a \<mapsto> t @ [NUL])) = (k, t) # parts_contents tab0 l0 h0"
    using parts_insert [OF room(2,3) k a(2) lt(2)] lt(1) by simp_all
  have "enter_ok env" using env by (simp add: norm_env_ok_def)
  then have "PschRememberNormalizedQuery env k (Some src) (int n) c = pg_ret ?c ()"
    using k tab room(1) a(1) min.coboundedI1 [OF n, of 2047]
    by (simp add: PschRememberNormalizedQuery_def EnsureCacheInitialized_def entry_def [symmetric]
        Let_def ClampCachedQueryLen_nat CopyQueryText_fits PushEntryToMru_def t_def pg_ret_def)
  moreover have "cache_inv ?c" using I(1) P(2) room(4) by (simp add: cache_inv_def)
  moreover have "cache_contents ?c = take (nat (max_entries c)) (mtf k t (cache_contents c))"
    using I(2) room(5) P(2) tab by (simp add: cache_contents_def mtf_def take_Cons')
  ultimately show ?thesis unfolding t_def [symmetric] by (intro exI [of _ ?c]) simp
qed

lemma remember_spec:
  assumes inv: "cache_inv c" and env: "norm_env_ok env" and k: "k \<noteq> 0" and n: "n \<le> length src"
  shows "\<exists>c'. PschRememberNormalizedQuery env k (Some src) (int n) c = pg_ret c' () \<and>
              cache_inv c' \<and> cache_cap env c' = cache_cap env c \<and>
              cache_contents c' =
                take (cache_cap env c) (mtf k (take (min n 2047) src) (cache_contents c))"
proof (cases "htab c")
  case (Some tab)
  obtain c' where "PschRememberNormalizedQuery env k (Some src) (int n) c = pg_ret c' ()"
      "cache_inv c'" "htab c' \<noteq> None" "max_entries c' = max_entries c"
      "cache_contents c' = take (nat (max_entries c))
         (mtf k (take (min n 2047) src) (cache_contents c))"
    using remember_initialized [OF Some inv env k n] by blast
  then show ?thesis using Some by (intro exI [of _ c']) (auto simp: cache_cap_def)
next
  case None
  let ?c = "c\<lparr>mcxt_set := True, mcxt := Map.empty, htab := Some Map.empty, lru := [],
              max_entries := normalize_cache_max env\<rparr>"
  have env': "context_ok env" "create_ok env" "64 \<le> normalize_cache_max env"
    using env by (auto simp: norm_env_ok_def)
  have "max_entries c \<le> 0" using inv None by (simp add: cache_inv_def)
  then have ens: "EnsureCacheInitialized env c = pg_ret ?c ()"
    using None env' by (simp add: EnsureCacheInitialized_def PschInitNormalizedQueryCache_def)
  then have "PschRememberNormalizedQuery env k (Some src) (int n) c
      = PschRememberNormalizedQuery env k (Some src) (int n) ?c"
    using k by (simp add: PschRememberNormalizedQuery_def)
       (simp add: EnsureCacheInitialized_def)
  moreover have "cache_inv ?c" using env' by (simp add: cache_inv_def parts_inv_def)
  moreover have "cache_cap env ?c = cache_cap env c" "cache_contents ?c = []" "cache_contents c = []"
    using None by (simp_all add: cache_cap_def cache_contents_def parts_contents_def)
  moreover obtain c' where "PschRememberNormalizedQuery env k (Some src) (int n) ?c = pg_ret c' ()"
      "cache_inv c'" "htab c' \<noteq> None" "max_entries c' = max_entries ?c"
      "cache_contents c' = take (nat (max_entries ?c))
         (mtf k (take (min n 2047) src) (cache_contents ?c))"
    using remember_initialized [OF _ \<open>cache_inv ?c\<close> env k n] by auto
  ultimately show ?thesis
    using None by (intro exI [of _ c']) (auto simp: cache_cap_def)
qed

lemma CopyEntryText_spec:
  assumes "entry_ok (mcxt c) e" and "0 < unat sz" and "unat sz \<le> length dst"
  shows "\<exists>dst' n. CopyEntryText e dst sz c = Some (dst', n) \<and> length dst' = length dst \<and>
     unat n = min (length (entry_text (mcxt c) e)) (unat sz - 1) \<and>
     holds_str dst' (take (unat sz - 1) (entry_text (mcxt c) e))"
proof -
  obtain t where t: "mcxt c (normalized_query e) = Some (t @ [NUL])"
      "normalized_len e = int (length t)" "length t < 2048"
    using assms(1) by (auto simp: entry_ok_def)
  then have te: "entry_text (mcxt c) e = t" by (simp add: entry_text_def)
  define m where "m = min (length t) (unat sz - 1)"
  define L :: u64 where "L = min (word_of_int (normalized_len e)) (sz - 1)"
  define dst' where "dst' = take m t @ NUL # drop (Suc m) dst"
  have "sz \<noteq> 0" using assms(2) by auto
  then have len: "unat L = m"
    using t(2,3)
    by (simp add: L_def m_def unat_min_word unat_sub1_word unat_of_nat take_bit_nat_eq_self)
  have m: "m < length dst" "m \<le> length t" "m < 2 ^ 16" using assms(2,3) t(3) by (auto simp: m_def)
  have "CopyEntryText e dst sz c = Some (dst', ucast L)"
    unfolding CopyEntryText_def L_def [symmetric] Let_def t(1) len
    using m by (simp add: copy_terminated [of m dst t] dst'_def)
  moreover have "unat (ucast L :: u16) = m"
    using m(3) len by (simp add: unsigned_ucast_eq take_bit_nat_eq_self)
  moreover have "take (unat sz - 1) t = take m t" by (auto simp: m_def min_def)
  moreover have "length dst' = length dst" "holds_str dst' (take m t)"
    using m by (simp_all add: dst'_def)
  ultimately show ?thesis unfolding te by (simp add: m_def)
qed

lemma lookup_spec:
  assumes inv: "cache_inv c" and sz: "0 < unat sz" "unat sz \<le> length dst"
  shows "\<exists>c' r. PschLookupNormalizedQuery k dst sz c = Some (c', r) \<and> cache_inv c' \<and>
     cache_cap env c' = cache_cap env c \<and>
     (case map_of (cache_contents c) k of
        None \<Rightarrow> r = None \<and> c' = c
      | Some t \<Rightarrow>
          cache_contents c' = mtf k t (cache_contents c) \<and>
          (\<exists>dst' n. r = Some (dst', n) \<and> length dst' = length dst \<and>
             unat n = min (length t) (unat sz - 1) \<and> holds_str dst' (take (unat sz - 1) t)))"
proof (cases "htab c")
  case None
  then show ?thesis using inv by (simp add: PschLookupNormalizedQuery_def cache_contents_def)
next
  case (Some tab)
  then have P: "parts_inv tab (lru c) (mcxt c)" "0 < max_entries c"
      "int (length (lru c)) \<le> max_entries c"
    using inv by (auto simp: cache_inv_def)
  note D = parts_invD [OF P(1)]
  have look: "map_of (cache_contents c) k = map_option (entry_text (mcxt c)) (tab k)"
    using Some parts_contents_map_of [OF P(1)] by (simp add: cache_contents_def)
  have sz0: "sz \<noteq> 0" using sz by auto
  show ?thesis
  proof (cases "tab k")
    case None
    then show ?thesis using Some inv look by (simp add: PschLookupNormalizedQuery_def)
  next
    case e: (Some e)
    have k: "k \<noteq> 0" "k \<in> set (lru c)" using D(2,3) e by auto
    let ?c = "c\<lparr>lru := k # remove1 k (lru c)\<rparr>"
    obtain dst' n where r: "CopyEntryText e dst sz ?c = Some (dst', n)" "length dst' = length dst"
        "unat n = min (length (entry_text (mcxt c) e)) (unat sz - 1)"
        "holds_str dst' (take (unat sz - 1) (entry_text (mcxt c) e))"
      using CopyEntryText_spec [of ?c e sz dst] D(6) [OF e] sz by auto
    have "PschLookupNormalizedQuery k dst sz c = Some (?c, Some (dst', n))"
      using Some e k sz0 r(1)
      by (simp add: PschLookupNormalizedQuery_def PromoteEntryToMru_def unlink_entry_def PushEntryToMru_def)
    moreover have "int (length (k # remove1 k (lru c))) \<le> max_entries c"
      using k(2) P(3) by (simp add: length_remove1) (metis Suc_pred length_pos_if_in_set of_nat_Suc)
    then have "cache_inv ?c"
      using Some P(2) parts_promote(1) [OF P(1) e] by (simp add: cache_inv_def)
    moreover have "cache_contents ?c = mtf k (entry_text (mcxt c) e) (cache_contents c)"
      using Some parts_promote(2) [OF P(1) e] by (simp add: cache_contents_def)
    ultimately show ?thesis using r look e
      by (intro exI [of _ ?c] exI [of _ "Some (dst', n)"]) (simp add: cache_cap_def)
  qed
qed

text \<open>
  The operations as the contract names them: storing a text, and looking one up with a buffer
  of the size that an event has.
\<close>

definition cache_put ::
    "norm_env \<Rightarrow> u64 \<Rightarrow> char list \<Rightarrow> PschNormalizedQueryCache \<Rightarrow> PschNormalizedQueryCache option" where
  "cache_put env k t c =
     (case PschRememberNormalizedQuery env k (Some t) (int (length t)) c of
        Some (c', Ret _) \<Rightarrow> Some c' | _ \<Rightarrow> None)"

definition cache_get ::
    "u64 \<Rightarrow> PschNormalizedQueryCache \<Rightarrow> (PschNormalizedQueryCache \<times> char list option) option" where
  "cache_get k c =
     map_option (\<lambda>(c, r). (c, map_option (\<lambda>(dst, n). take (unat n) dst) r))
       (PschLookupNormalizedQuery k (replicate 2048 NUL) 2048 c)"

definition cache_valid :: "norm_env \<Rightarrow> PschNormalizedQueryCache \<Rightarrow> bool" where
  "cache_valid env c \<longleftrightarrow> cache_inv c \<and> norm_env_ok env"

definition cacheable :: "u64 \<Rightarrow> char list \<Rightarrow> bool" where
  "cacheable k t \<longleftrightarrow> k \<noteq> 0 \<and> length t < 2048"

lemma cache_contents_ok:
  assumes "cache_inv c"
  shows "distinct (map fst (cache_contents c))"
    and "map_of (cache_contents c) k = Some t \<Longrightarrow> length t < 2048"
proof -
  show "distinct (map fst (cache_contents c))"
    using assms by (auto simp: cache_inv_def cache_contents_def split: option.splits dest: parts_invD(1))
  assume t: "map_of (cache_contents c) k = Some t"
  then obtain tab where tab: "htab c = Some tab" by (cases "htab c") (auto simp: cache_contents_def)
  then have P: "parts_inv tab (lru c) (mcxt c)" using assms by (simp add: cache_inv_def)
  then obtain e where "tab k = Some e" "t = entry_text (mcxt c) e"
    using t tab parts_contents_map_of [OF P, of k] by (auto simp: cache_contents_def)
  then show "length t < 2048" using parts_invD(6) [OF P, of k e] by (auto simp: entry_ok_def entry_text_def)
qed

lemma cache_get_spec:
  assumes "cache_inv c"
  shows "\<exists>c'. cache_get k c = Some (c', map_of (cache_contents c) k) \<and> cache_inv c' \<and>
     cache_cap env c' = cache_cap env c \<and>
     cache_contents c' = (case map_of (cache_contents c) k of
        None \<Rightarrow> cache_contents c | Some t \<Rightarrow> mtf k t (cache_contents c))"
proof -
  have sz: "0 < unat (2048 :: u64)" "unat (2048 :: u64) \<le> length (replicate 2048 NUL)" by simp_all
  show ?thesis
  proof (cases "map_of (cache_contents c) k")
    case None
    then show ?thesis using lookup_spec [OF assms sz, of k env] by (auto simp: cache_get_def)
  next
    case (Some t)
    then obtain c' dst' n where l:
        "PschLookupNormalizedQuery k (replicate 2048 NUL) 2048 c = Some (c', Some (dst', n))"
        "cache_inv c'" "cache_cap env c' = cache_cap env c"
        "cache_contents c' = mtf k t (cache_contents c)"
        "unat n = min (length t) 2047" "holds_str dst' (take 2047 t)"
      using lookup_spec [OF assms sz, of k env] by auto
    have "length t < 2048" using cache_contents_ok(2) [OF assms Some] .
    then have "take (unat n) dst' = t" using l(5,6) by (simp add: holds_str_def)
    then show ?thesis using l Some by (auto simp: cache_get_def)
  qed
qed

lemma cache_put_spec:
  assumes "cache_inv c" and "norm_env_ok env" and "cacheable k t"
  shows "\<exists>c'. cache_put env k t c = Some c' \<and> cache_inv c' \<and> cache_cap env c' = cache_cap env c \<and>
              cache_contents c' = take (cache_cap env c) (mtf k t (cache_contents c))"
proof -
  obtain c' where "PschRememberNormalizedQuery env k (Some t) (int (length t)) c = pg_ret c' ()"
      "cache_inv c'" "cache_cap env c' = cache_cap env c"
      "cache_contents c' = take (cache_cap env c) (mtf k t (cache_contents c))"
    using remember_spec [OF assms(1,2), of k "length t" t] assms(3) by (auto simp: cacheable_def)
  then show ?thesis by (intro exI [of _ c']) (simp add: cache_put_def pg_ret_def)
qed

interpretation nqc: lru_cache "cache_valid env" cache_contents "cache_cap env" "cache_put env"
    cache_get cacheable for env
proof
  fix c k t
  assume v: "cache_valid env c"
  then have inv: "cache_inv c" and env: "norm_env_ok env" by (simp_all add: cache_valid_def)
  show "distinct (map fst (cache_contents c))" using cache_contents_ok(1) [OF inv] .
  show "\<exists>s'. cache_get k c = Some (s', map_of (cache_contents c) k) \<and> cache_valid env s' \<and>
      cache_cap env s' = cache_cap env c \<and> cache_contents s' =
        (case map_of (cache_contents c) k of None \<Rightarrow> cache_contents c
         | Some v \<Rightarrow> mtf k v (cache_contents c))"
    using cache_get_spec [OF inv, of k env] env by (auto simp: cache_valid_def)
  assume "cacheable k t"
  then show "\<exists>s'. cache_put env k t c = Some s' \<and> cache_valid env s' \<and>
      cache_cap env s' = cache_cap env c \<and>
      cache_contents s' = take (cache_cap env c) (mtf k t (cache_contents c))"
    using cache_put_spec [OF inv env] env by (auto simp: cache_valid_def)
qed

subsection \<open>Properties\<close>

text \<open>An environment with an unbounded supply of memory, and the cache of a new backend.\<close>

definition norm_sample_env :: norm_env where
  "norm_sample_env =
     \<lparr>mcxt_alloc = (\<lambda>h n. if \<exists>a. h a = None then Some (LEAST a. h a = None) else None),
      raw_byte = (\<lambda>i. CHR 0x7F), context_ok = True, create_ok = True, enter_ok = True,
      stale_entry = \<lparr>normalized_query = 0, normalized_len = 0\<rparr>, normalize_cache_max = 64\<rparr>"

definition norm_cache_init :: PschNormalizedQueryCache where
  "norm_cache_init = \<lparr>htab = None, lru = [], mcxt_set = False, mcxt = Map.empty, max_entries = 0\<rparr>"

lemma norm_sample_env_ok: "norm_env_ok norm_sample_env"
proof -
  have "\<exists>a. mcxt_alloc norm_sample_env h n = Some a \<and> h a = None" if "finite (dom h)" for h n
  proof -
    have "\<exists>a. h a = None" using ex_new_if_finite [OF infinite_UNIV_nat that] by (simp add: domIff)
    then show ?thesis by (auto simp: norm_sample_env_def intro: LeastI)
  qed
  then show ?thesis by (simp add: norm_env_ok_def) (simp add: norm_sample_env_def)
qed

lemma norm_cache_init_facts [simp]:
  "cache_inv norm_cache_init" "cache_contents norm_cache_init = []"
  "cache_cap norm_sample_env norm_cache_init = 64"
  by (simp_all add: cache_inv_def cache_contents_def cache_cap_def norm_cache_init_def norm_sample_env_def)

definition norm_cache_one :: PschNormalizedQueryCache where
  "norm_cache_one =
     \<lparr>htab = Some [7 \<mapsto> \<lparr>normalized_query = 0, normalized_len = 5\<rparr>], lru = [7],
      mcxt_set = True, mcxt = [0 \<mapsto> ''BEGIN'' @ [NUL]], max_entries = 64\<rparr>"

lemma norm_cache_one_facts [simp]:
  "cache_inv norm_cache_one" "cache_contents norm_cache_one = [(7, ''BEGIN'')]"
  by (auto simp: cache_inv_def parts_inv_def cache_contents_def norm_cache_one_def entry_ok_def
      entry_text_def parts_contents_def)

text \<open>
  C26. Storing a text keeps the cache's invariant and never has undefined behaviour: the new
  entry is the most recently used one, its text is cut at 2047 bytes, an entry of the same
  query id is replaced, and when the bound is reached exactly the least recently used entry
  goes. The first call creates the cache with the configured bound.
\<close>

theorem remember_refines_lru:
  assumes "cache_inv c" and "norm_env_ok env" and "k \<noteq> 0" and "n \<le> length src"
  shows "\<exists>c'. PschRememberNormalizedQuery env k (Some src) (int n) c = pg_ret c' () \<and>
              cache_inv c' \<and> cache_cap env c' = cache_cap env c \<and>
              cache_contents c' =
                take (cache_cap env c) (mtf k (take (min n 2047) src) (cache_contents c))"
  using remember_spec [OF assms] .

theorem remember_refines_lru_witness:
  "\<exists>c'. PschRememberNormalizedQuery norm_sample_env 7 (Some ''SELECT $1'') (int 9) norm_cache_init
          = pg_ret c' () \<and> cache_inv c' \<and> cache_contents c' = [(7, ''SELECT $1'')]"
  using remember_refines_lru [OF norm_cache_init_facts(1) norm_sample_env_ok, of 7 9 "''SELECT $1''"]
  by (auto simp: mtf_def)

text \<open>
  C27. A lookup keeps the invariant; a miss changes nothing, not even the destination, and a
  hit writes the cached text NUL-terminated inside the buffer, returns its length and makes
  the entry the most recently used one.
\<close>

theorem lookup_refines_lru:
  assumes "cache_inv c" and "0 < unat sz" and "unat sz \<le> length dst"
  shows "\<exists>c' r. PschLookupNormalizedQuery k dst sz c = Some (c', r) \<and> cache_inv c' \<and>
     (case map_of (cache_contents c) k of
        None \<Rightarrow> r = None \<and> c' = c
      | Some t \<Rightarrow>
          cache_contents c' = mtf k t (cache_contents c) \<and>
          (\<exists>dst' n. r = Some (dst', n) \<and> length dst' = length dst \<and>
             unat n = min (length t) (unat sz - 1) \<and> holds_str dst' (take (unat sz - 1) t)))"
  using lookup_spec [OF assms, of k undefined] by blast

theorem lookup_refines_lru_witness:
  "(\<exists>c' dst'. PschLookupNormalizedQuery 7 (replicate 4 NUL) 4 norm_cache_one = Some (c', Some (dst', 3)) \<and>
      holds_str dst' ''BEG'') \<and>
   PschLookupNormalizedQuery 8 (replicate 4 NUL) 4 norm_cache_one = Some (norm_cache_one, None)"
proof -
  have three: "n = 3" if "unat n = Suc (Suc (Suc 0))" for n :: u16
    using that by (simp add: word_unat_eq_iff)
  show ?thesis
    using lookup_refines_lru [OF norm_cache_one_facts(1), of 4 "replicate 4 NUL" 7]
      lookup_refines_lru [OF norm_cache_one_facts(1), of 4 "replicate 4 NUL" 8]
    by (auto dest!: three)
qed

text \<open>
  C28. After a text is stored for a query id, and as long as fewer other query ids than the
  bound of the cache are stored or looked up, a lookup of that id finds the text, whatever
  the sequence of the other operations.
\<close>

theorem recently_stored_text_found:
  assumes "cache_valid env c" and "cacheable k t"
    and "\<forall>x\<in>set ops. nqc.op_ok x \<and> (op_key x = k \<longrightarrow> x = Use k)"
    and "card (op_key ` set ops - {k}) < cache_cap env c"
  shows "\<exists>c' c''. nqc.run env (Put k t # ops) c = Some c' \<and> cache_get k c' = Some (c'', Some t)"
  using nqc.hot_key_hits [OF assms] by blast

theorem recently_stored_text_found_witness:
  "\<exists>c' c''. nqc.run norm_sample_env [Put 7 ''SELECT $1'', Use 8, Put 9 ''COMMIT''] norm_cache_init = Some c'
      \<and> cache_get 7 c' = Some (c'', Some ''SELECT $1'')"
  using recently_stored_text_found [of norm_sample_env norm_cache_init 7 "''SELECT $1''"
      "[Use 8, Put 9 ''COMMIT'']"] norm_sample_env_ok
  by (simp add: cache_valid_def cacheable_def card_insert_if)

text \<open>
  C29. When the allocation of the text raises an out-of-memory error, the new hash entry stays
  in the table without a text and outside the list, and the next lookup of that query id has
  undefined behaviour: it unlinks a node that is not linked. The invariant does not survive
  the error.
\<close>

theorem oom_leaves_dangling_entry:
  assumes "cache_inv c" and "htab c = Some tab" and "tab k = None" and "k \<noteq> 0" and "enter_ok env"
    and "int (length (lru c)) < max_entries c"
    and "mcxt_alloc env (mcxt c) (ClampCachedQueryLen len + 1) = None" and "sz \<noteq> 0"
  shows "\<exists>c'. PschRememberNormalizedQuery env k (Some src) len c = Some (c', Throw) \<and>
              PschLookupNormalizedQuery k dst sz c' = None \<and> \<not> cache_inv c'"
proof -
  let ?c = "c\<lparr>htab := Some (tab(k \<mapsto> stale_entry env))\<rparr>"
  have "k \<notin> set (lru c)" using assms(1-3) by (auto simp: cache_inv_def dest: parts_invD(2))
  then have "PschLookupNormalizedQuery k dst sz ?c = None" "\<not> cache_inv ?c"
    using assms(4,8)
    by (auto simp: PschLookupNormalizedQuery_def PromoteEntryToMru_def unlink_entry_def cache_inv_def
        dest: parts_invD(2))
  moreover have "PschRememberNormalizedQuery env k (Some src) len c = Some (?c, Throw)"
    using assms(2-7)
    by (simp add: PschRememberNormalizedQuery_def EnsureCacheInitialized_def make_room_def Let_def
        CopyQueryText_def)
  ultimately show ?thesis by blast
qed

theorem oom_leaves_dangling_entry_witness:
  "\<exists>c'. PschRememberNormalizedQuery (norm_sample_env\<lparr>mcxt_alloc := \<lambda>_ _. None\<rparr>) 7 (Some ''BEGIN'') 5
            \<lparr>htab = Some Map.empty, lru = [], mcxt_set = True, mcxt = Map.empty, max_entries = 64\<rparr> = Some (c', Throw) \<and>
        PschLookupNormalizedQuery 7 (replicate 16 NUL) 16 c' = None \<and> \<not> cache_inv c'"
  by (rule oom_leaves_dangling_entry [where tab = Map.empty])
     (simp_all add: cache_inv_def parts_inv_def norm_sample_env_def)

end
