(* ===== verification/Psch_Hook_Event.thy ===== *)
theory Psch_Hook_Event
  imports Psch_Boot Psch_String_Utils Psch_Normalize_Cache Psch_Normalize
begin

section \<open>Building an event (\<^verbatim>\<open>hooks.c\<close>, first half)\<close>

text \<open>
  What a backend knows about itself, and how an event is filled from it. The session's
  names are cached in \<open>PschBackendState\<close>; the functions below pass that state explicitly.

  \<open>hook_env\<close> holds what PostgreSQL answers during one hook call: the session's identity, the
  catalog lookups (which may find nothing, and may raise), the client address, the clocks and
  counters, and the macros of its headers. \<open>pg_getnameinfo_all\<close> is the return code and the host
  name; \<open>total_us\<close> is the conversion of an instrumentation total to microseconds, which is
  floating-point arithmetic before version 19. A local variable \<^verbatim>\<open>PschEvent event\<close> has arbitrary
  contents: the functions that fill one take it as an argument.
\<close>

subsection \<open>Types\<close>

record timeval =
  tv_sec :: i64
  tv_usec :: i64

record rusage =
  ru_utime :: timeval
  ru_stime :: timeval

record BufferUsage =
  bu_shared_blks_hit :: i64
  bu_shared_blks_read :: i64
  bu_shared_blks_dirtied :: i64
  bu_shared_blks_written :: i64
  bu_local_blks_hit :: i64
  bu_local_blks_read :: i64
  bu_local_blks_dirtied :: i64
  bu_local_blks_written :: i64
  bu_temp_blks_read :: i64
  bu_temp_blks_written :: i64
  bu_shared_blk_read_time :: i64
  bu_shared_blk_write_time :: i64
  bu_local_blk_read_time :: i64
  bu_local_blk_write_time :: i64
  bu_temp_blk_read_time :: i64
  bu_temp_blk_write_time :: i64

record WalUsage =
  wu_wal_records :: i64
  wu_wal_fpi :: i64
  wu_wal_bytes :: u64

record Instrumentation =
  instr_total :: i64
  instr_bufusage :: BufferUsage
  instr_walusage :: WalUsage

record JitInstrumentation =
  created_functions :: u64
  generation_counter :: i64
  deform_counter :: i64
  inlining_counter :: i64
  optimization_counter :: i64
  emission_counter :: i64

datatype CmdType =
  CMD_UNKNOWN | CMD_SELECT | CMD_UPDATE | CMD_INSERT | CMD_DELETE | CMD_MERGE | CMD_UTILITY | CMD_NOTHING

record QueryDesc =
  operation :: CmdType
  qd_queryId :: u64
  es_processed :: u64
  totaltime :: "Instrumentation option"
  es_jit :: "JitInstrumentation option"
  es_parallel_workers_to_launch :: i32
  es_parallel_workers_launched :: i32

record hook_env =
  pg :: pg_env
  norm_mem :: norm_env
  norm_scan :: norm_lib
  PG_VERSION_NUM :: nat
  MyDatabaseId :: Oid
  GetUserId :: Oid
  MyProcPid :: i32
  IsTransactionState :: bool
  IsParallelWorker :: bool
  MyProc :: bool
  IsUnderPostmaster :: bool
  MyBgworkerEntry :: bool
  get_database_name :: "Oid \<Rightarrow> char list option outcome"
  GetUserNameFromId :: "Oid \<Rightarrow> char list option outcome"
  application_name_guc :: "char list option"
  MyProcPort :: bool
  pg_getnameinfo_all :: "int \<times> char list"
  pg_prng_double :: real
  getrusage :: "rusage option"
  rusage_garbage :: rusage
  instr_now :: i64
  INSTR_TIME_GET_MICROSEC :: "i64 \<Rightarrow> i64"
  total_us :: "i64 \<Rightarrow> u64"
  InstrAlloc :: "Instrumentation outcome"
  InstrEndLoop :: "Instrumentation \<Rightarrow> Instrumentation"
  pgBufferUsage :: BufferUsage
  pgWalUsage :: WalUsage
  BufferUsageAccumDiff :: "BufferUsage \<Rightarrow> BufferUsage \<Rightarrow> BufferUsage"
  WalUsageAccumDiff :: "WalUsage \<Rightarrow> WalUsage \<Rightarrow> WalUsage"
  CleanQuerytext :: "char list \<Rightarrow> int \<Rightarrow> int \<Rightarrow> char list \<times> int \<times> int"

record PschBackendState =
  be_initialized :: bool
  be_datname :: "char list"
  be_datname_len :: u8
  cached_userid :: Oid
  be_username :: "char list"
  be_username_len :: u8
  be_client_addr :: "char list"
  be_client_addr_len :: u8
  normalize_cache :: PschNormalizedQueryCache

text \<open>Lifting a computation that is undefined or returns.\<close>

definition pg_opt :: "'s \<Rightarrow> 'a option \<Rightarrow> ('s, 'a) pgres" where
  "pg_opt s m = (case m of None \<Rightarrow> None | Some x \<Rightarrow> pg_ret s x)"

text \<open>A call into PostgreSQL that returns a value or raises.\<close>

definition pg_call :: "'s \<Rightarrow> 'a outcome \<Rightarrow> ('s, 'a) pgres" where
  "pg_call s r = Some (s, r)"

lemma pg_opt_simps [simp]: "pg_opt s None = None" "pg_opt s (Some x) = pg_ret s x"
  by (simp_all add: pg_opt_def)

lemma pg_call_simps [simp]:
  "pg_bind (pg_call s (Ret x)) f = f s x" "pg_bind (pg_call s Throw) f = Some (s, Throw)"
  by (simp_all add: pg_call_def)

subsection \<open>The session cache\<close>

definition unknown_name :: "char list" where
  "unknown_name = ''<unknown>''"

definition name_or_unknown :: "char list option \<Rightarrow> char list" where
  "name_or_unknown n = (case n of Some s \<Rightarrow> s | None \<Rightarrow> unknown_name)"

definition CacheUsername ::
    "hook_env \<Rightarrow> Oid \<Rightarrow> bool \<Rightarrow> PschBackendState \<Rightarrow> (PschBackendState, unit) pgres" where
  "CacheUsername env uid fallback_on_null bs =
     pg_bind (pg_call bs (GetUserNameFromId env uid)) (\<lambda>bs nm.
       case nm of
         Some nm \<Rightarrow>
           pg_bind (pg_opt bs (PschCopyName (be_username bs) (of_nat NAMEDATALEN) nm)) (\<lambda>bs (buf, n).
             pg_ret (bs\<lparr>be_username := buf, be_username_len := n, cached_userid := uid\<rparr>) ())
       | None \<Rightarrow>
           if fallback_on_null then
             pg_bind (pg_opt bs (PschCopyName (be_username bs) (of_nat NAMEDATALEN) unknown_name))
               (\<lambda>bs (buf, n).
                  pg_ret (bs\<lparr>be_username := buf, be_username_len := n, cached_userid := uid\<rparr>) ())
           else pg_ret bs ())"

definition GetClientAddress :: "hook_env \<Rightarrow> char list \<Rightarrow> u64 \<Rightarrow> (char list \<times> u64) option" where
  "GetClientAddress env buf buf_size =
     (case set_byte buf 0 NUL of
        None \<Rightarrow> None
      | Some buf \<Rightarrow>
          if \<not> MyProcPort env then Some (buf, 0)
          else
            let (ret, remote_host) = pg_getnameinfo_all env in
            if ret \<noteq> 0 \<or> cstr remote_host = [] then Some (buf, 0)
            else
              let host = (if cstr remote_host = ''[local]'' then ''127.0.0.1'' else remote_host) in
              case strlcpy_into buf host buf_size of
                None \<Rightarrow> None
              | Some (buf, src_len) \<Rightarrow> Some (buf, min src_len (buf_size - 1)))"

definition EnsureBackendCache ::
    "hook_env \<Rightarrow> PschBackendState \<Rightarrow> (PschBackendState, unit) pgres" where
  "EnsureBackendCache env bs =
     (let uid = GetUserId env in
      if \<not> be_initialized bs then
        if \<not> IsTransactionState env then pg_ret bs ()
        else
          pg_bind (pg_call bs (get_database_name env (MyDatabaseId env))) (\<lambda>bs nm.
          pg_bind (pg_opt bs (PschCopyName (be_datname bs) (of_nat NAMEDATALEN) (name_or_unknown nm)))
            (\<lambda>bs (buf, n).
          let bs = bs\<lparr>be_datname := buf, be_datname_len := n\<rparr> in
          pg_bind (pg_opt bs (GetClientAddress env (be_client_addr bs) (of_nat INET6_ADDRSTRLEN)))
            (\<lambda>bs (buf, n).
          pg_bind (CacheUsername env uid True
                     (bs\<lparr>be_client_addr := buf, be_client_addr_len := ucast n\<rparr>)) (\<lambda>bs _.
          pg_ret (bs\<lparr>be_initialized := True\<rparr>) ()))))
      else if cached_userid bs \<noteq> uid \<and> IsTransactionState env then CacheUsername env uid False bs
      else pg_ret bs ())"

subsection \<open>Small conversions\<close>

definition ConvertCmdType :: "hook_env \<Rightarrow> CmdType \<Rightarrow> PschCmdType" where
  "ConvertCmdType env cmd =
     (case cmd of
        CMD_SELECT \<Rightarrow> PSCH_CMD_SELECT
      | CMD_UPDATE \<Rightarrow> PSCH_CMD_UPDATE
      | CMD_INSERT \<Rightarrow> PSCH_CMD_INSERT
      | CMD_DELETE \<Rightarrow> PSCH_CMD_DELETE
      | CMD_MERGE \<Rightarrow> (if PG_VERSION_NUM env \<ge> 150000 then PSCH_CMD_MERGE else PSCH_CMD_UNKNOWN)
      | CMD_UTILITY \<Rightarrow> PSCH_CMD_UTILITY
      | CMD_NOTHING \<Rightarrow> PSCH_CMD_NOTHING
      | CMD_UNKNOWN \<Rightarrow> PSCH_CMD_UNKNOWN)"

definition TimeDiffMicrosec :: "timeval \<Rightarrow> timeval \<Rightarrow> i64" where
  "TimeDiffMicrosec t_end t_start =
     (tv_sec t_end - tv_sec t_start) * 1000000 + (tv_usec t_end - tv_usec t_start)"

text \<open>\<^verbatim>\<open>PGUNSIXBIT(val)\<close>: the low six bits as a character from \<^verbatim>\<open>'0'\<close> on.\<close>

definition PGUNSIXBIT :: "int \<Rightarrow> char" where
  "PGUNSIXBIT v = char_of (take_bit 6 v + 48)"

primrec unpack_sixbits :: "nat \<Rightarrow> int \<Rightarrow> char list" where
  "unpack_sixbits 0 sql_state = []"
| "unpack_sixbits (Suc n) sql_state = PGUNSIXBIT sql_state # unpack_sixbits n (drop_bit 6 sql_state)"

definition UnpackSqlState :: "int \<Rightarrow> char list \<Rightarrow> char list option" where
  "UnpackSqlState sql_state buf =
     (if 6 \<le> length buf then Some (unpack_sixbits 5 sql_state @ NUL # drop 6 buf) else None)"

definition GetApplicationName :: "hook_env \<Rightarrow> char list \<Rightarrow> u64 \<Rightarrow> (char list \<times> nat) option" where
  "GetApplicationName env buf buf_size =
     (case application_name_guc env of
        Some nm \<Rightarrow>
          if cstr nm \<noteq> [] then PschCopyTrimmed buf buf_size (Some nm)
          else map_option (\<lambda>buf. (buf, 0)) (set_byte buf 0 NUL)
      | None \<Rightarrow> map_option (\<lambda>buf. (buf, 0)) (set_byte buf 0 NUL))"

definition ShouldSampleEvent :: "guc \<Rightarrow> hook_env \<Rightarrow> u64 \<Rightarrow> bool" where
  "ShouldSampleEvent g env dur =
     (if psch_min_duration_us g = 0 \<and> psch_sample_rate g \<ge> 1 then True
      else if dur \<ge> word_of_int (psch_min_duration_us g) then True
      else if psch_sample_rate g \<le> 0 then False
      else if psch_sample_rate g \<ge> 1 then True
      else pg_prng_double env < psch_sample_rate g)"

subsection \<open>Filling in the event\<close>

definition CopyBufferUsage :: "PschEvent \<Rightarrow> BufferUsage \<Rightarrow> PschEvent" where
  "CopyBufferUsage ev buf =
     ev\<lparr>shared_blks_hit := bu_shared_blks_hit buf,
        shared_blks_read := bu_shared_blks_read buf,
        shared_blks_dirtied := bu_shared_blks_dirtied buf,
        shared_blks_written := bu_shared_blks_written buf,
        local_blks_hit := bu_local_blks_hit buf,
        local_blks_read := bu_local_blks_read buf,
        local_blks_dirtied := bu_local_blks_dirtied buf,
        local_blks_written := bu_local_blks_written buf,
        temp_blks_read := bu_temp_blks_read buf,
        temp_blks_written := bu_temp_blks_written buf\<rparr>"

text \<open>Before version 17 the block times of the two shared fields are \<^verbatim>\<open>blk_read_time\<close> and \<^verbatim>\<open>blk_write_time\<close>.\<close>

definition CopyIoTiming :: "hook_env \<Rightarrow> PschEvent \<Rightarrow> BufferUsage \<Rightarrow> PschEvent" where
  "CopyIoTiming env ev buf =
     (let us = INSTR_TIME_GET_MICROSEC env;
          ev = ev\<lparr>shared_blk_read_time_us := us (bu_shared_blk_read_time buf),
                  shared_blk_write_time_us := us (bu_shared_blk_write_time buf)\<rparr>;
          ev = (if PG_VERSION_NUM env \<ge> 170000
                then ev\<lparr>local_blk_read_time_us := us (bu_local_blk_read_time buf),
                        local_blk_write_time_us := us (bu_local_blk_write_time buf)\<rparr> else ev)
      in if PG_VERSION_NUM env \<ge> 150000
         then ev\<lparr>temp_blk_read_time_us := us (bu_temp_blk_read_time buf),
                 temp_blk_write_time_us := us (bu_temp_blk_write_time buf)\<rparr> else ev)"

definition CopyWalUsage :: "PschEvent \<Rightarrow> WalUsage \<Rightarrow> PschEvent" where
  "CopyWalUsage ev wal =
     ev\<lparr>wal_records := wu_wal_records wal, wal_fpi := wu_wal_fpi wal, wal_bytes := wu_wal_bytes wal\<rparr>"

definition InitEventPartial :: "PschEvent \<Rightarrow> PschEvent" where
  "InitEventPartial ev =
     psch_fixed.extend zero_fixed
       (PschEvent.fields ((err_message ev)[0 := NUL]) ((query ev)[0 := NUL]))"

definition ResolveNames ::
    "hook_env \<Rightarrow> PschEvent \<Rightarrow> PschBackendState \<Rightarrow> (PschBackendState, PschEvent) pgres" where
  "ResolveNames env ev bs =
     pg_bind (EnsureBackendCache env bs) (\<lambda>bs _.
       if be_initialized bs then
         pg_bind (pg_opt bs (memcpy (datname ev) (be_datname bs) (unat (be_datname_len bs) + 1)))
           (\<lambda>bs dbuf.
         pg_bind (pg_opt bs (memcpy (username ev) (be_username bs) (unat (be_username_len bs) + 1)))
           (\<lambda>bs ubuf.
         pg_ret bs (ev\<lparr>datname := dbuf, datname_len := be_datname_len bs,
                       username := ubuf, username_len := be_username_len bs\<rparr>)))
       else
         pg_bind (if IsTransactionState env then pg_call bs (get_database_name env (dbid ev))
                  else pg_ret bs None) (\<lambda>bs dname.
         pg_bind (if IsTransactionState env then pg_call bs (GetUserNameFromId env (userid ev))
                  else pg_ret bs None) (\<lambda>bs uname.
         pg_bind (pg_opt bs (PschCopyName (datname ev) (of_nat NAMEDATALEN) (name_or_unknown dname)))
           (\<lambda>bs (dbuf, dn).
         pg_bind (pg_opt bs (PschCopyName (username ev) (of_nat NAMEDATALEN) (name_or_unknown uname)))
           (\<lambda>bs (ubuf, un).
         pg_ret bs (ev\<lparr>datname := dbuf, datname_len := dn, username := ubuf, username_len := un\<rparr>))))))"

definition InitBaseEvent ::
    "hook_env \<Rightarrow> PschEvent \<Rightarrow> TimestampTz \<Rightarrow> bool \<Rightarrow> PschCmdType \<Rightarrow> PschBackendState \<Rightarrow>
       (PschBackendState, PschEvent) pgres" where
  "InitBaseEvent env ev ts is_top cmd bs =
     ResolveNames env
       ((InitEventPartial ev)\<lparr>ts_start := ts, dbid := MyDatabaseId env, userid := GetUserId env,
                              pid := MyProcPid env, top_level := is_top, cmd_type := cmd\<rparr>) bs"

definition CopyClientContext ::
    "hook_env \<Rightarrow> PschEvent \<Rightarrow> PschBackendState \<Rightarrow> (PschBackendState, PschEvent) pgres" where
  "CopyClientContext env ev bs =
     pg_bind (pg_opt bs (GetApplicationName env (application_name ev) (of_nat NAMEDATALEN)))
       (\<lambda>bs (abuf, an).
     let ev = ev\<lparr>application_name := abuf, application_name_len := of_nat an\<rparr> in
     pg_bind (EnsureBackendCache env bs) (\<lambda>bs _.
       if be_initialized bs then
         pg_bind (pg_opt bs (memcpy (client_addr ev) (be_client_addr bs)
                               (unat (be_client_addr_len bs) + 1))) (\<lambda>bs cbuf.
         pg_ret bs (ev\<lparr>client_addr := cbuf, client_addr_len := be_client_addr_len bs\<rparr>))
       else
         pg_bind (pg_opt bs (GetClientAddress env (client_addr ev) (of_nat INET6_ADDRSTRLEN)))
           (\<lambda>bs (cbuf, cn).
         pg_ret bs (ev\<lparr>client_addr := cbuf, client_addr_len := ucast cn\<rparr>))))"

definition CopyQueryText ::
    "PschEvent \<Rightarrow> u64 \<Rightarrow> PschBackendState \<Rightarrow> (PschBackendState, PschEvent) pgres" where
  "CopyQueryText ev query_id bs =
     (case PschLookupNormalizedQuery query_id (query ev) (of_nat PSCH_MAX_QUERY_LEN)
             (normalize_cache bs) of
        None \<Rightarrow> None
      | Some (c, None) \<Rightarrow> pg_ret (bs\<lparr>normalize_cache := c\<rparr>) ev
      | Some (c, Some (buf, n)) \<Rightarrow>
          pg_ret (bs\<lparr>normalize_cache := c\<rparr>) (ev\<lparr>query := buf, query_len := n\<rparr>))"

definition CopyJitInstrumentation :: "hook_env \<Rightarrow> PschEvent \<Rightarrow> QueryDesc \<Rightarrow> PschEvent" where
  "CopyJitInstrumentation env ev qd =
     (case es_jit qd of
        Some jit \<Rightarrow>
          if PG_VERSION_NUM env \<ge> 150000 then
            let us = (\<lambda>t. ucast (INSTR_TIME_GET_MICROSEC env t) :: i32);
                ev = ev\<lparr>jit_functions := ucast (created_functions jit),
                        jit_generation_time_us := us (generation_counter jit),
                        jit_inlining_time_us := us (inlining_counter jit),
                        jit_optimization_time_us := us (optimization_counter jit),
                        jit_emission_time_us := us (emission_counter jit)\<rparr>
            in if PG_VERSION_NUM env \<ge> 170000
               then ev\<lparr>jit_deform_time_us := us (deform_counter jit)\<rparr> else ev
          else ev
      | None \<Rightarrow> ev)"

definition CopyParallelWorkerInfo :: "hook_env \<Rightarrow> PschEvent \<Rightarrow> QueryDesc \<Rightarrow> PschEvent" where
  "CopyParallelWorkerInfo env ev qd =
     (if PG_VERSION_NUM env \<ge> 180000
      then ev\<lparr>parallel_workers_planned := ucast (es_parallel_workers_to_launch qd),
              parallel_workers_launched := ucast (es_parallel_workers_launched qd)\<rparr> else ev)"

text \<open>The duration: the instrumentation's total, or the time since the start of the query.\<close>

definition query_duration_us :: "hook_env \<Rightarrow> QueryDesc \<Rightarrow> TimestampTz \<Rightarrow> u64" where
  "query_duration_us env qd start_ts =
     (case totaltime qd of
        Some t \<Rightarrow> total_us env (instr_total t)
      | None \<Rightarrow> GetCurrentTimestamp (pg env) - start_ts)"

definition BuildEventFromQueryDesc ::
    "hook_env \<Rightarrow> QueryDesc \<Rightarrow> PschEvent \<Rightarrow> TimestampTz \<Rightarrow> bool \<Rightarrow> i64 \<Rightarrow> i64 \<Rightarrow> PschBackendState \<Rightarrow>
       (PschBackendState, PschEvent) pgres" where
  "BuildEventFromQueryDesc env qd ev start_ts is_top cpu_user_us cpu_sys_us bs =
     pg_bind (InitBaseEvent env ev start_ts is_top (ConvertCmdType env (operation qd)) bs) (\<lambda>bs ev.
     let ev = ev\<lparr>queryid := qd_queryId qd, rows := es_processed qd,
                 cpu_user_time_us := cpu_user_us, cpu_sys_time_us := cpu_sys_us,
                 duration_us := query_duration_us env qd start_ts\<rparr>;
         ev = (case totaltime qd of
                 Some t \<Rightarrow> CopyWalUsage (CopyIoTiming env (CopyBufferUsage ev (instr_bufusage t))
                                            (instr_bufusage t)) (instr_walusage t)
               | None \<Rightarrow> ev);
         ev = CopyParallelWorkerInfo env (CopyJitInstrumentation env ev qd) qd
     in pg_bind (CopyClientContext env ev bs) (\<lambda>bs ev. CopyQueryText ev (qd_queryId qd) bs))"

definition BuildEventForUtility ::
    "hook_env \<Rightarrow> PschEvent \<Rightarrow> u64 \<Rightarrow> TimestampTz \<Rightarrow> u64 \<Rightarrow> bool \<Rightarrow> u64 \<Rightarrow> BufferUsage \<Rightarrow> WalUsage \<Rightarrow>
       i64 \<Rightarrow> i64 \<Rightarrow> PschBackendState \<Rightarrow> (PschBackendState, PschEvent) pgres" where
  "BuildEventForUtility env ev query_id start_ts dur is_top nrows bufusage walusage cpu_user_us cpu_sys_us bs =
     pg_bind (InitBaseEvent env ev start_ts is_top PSCH_CMD_UTILITY bs) (\<lambda>bs ev.
     let ev = ev\<lparr>queryid := query_id, duration_us := dur, rows := nrows,
                 cpu_user_time_us := cpu_user_us, cpu_sys_time_us := cpu_sys_us\<rparr>;
         ev = CopyWalUsage (CopyIoTiming env (CopyBufferUsage ev bufusage) bufusage) walusage
     in pg_bind (CopyClientContext env ev bs) (\<lambda>bs ev. CopyQueryText ev query_id bs))"

subsection \<open>Well-formed events\<close>

text \<open>
  \<open>terminated buf n\<close>: the text of length \<open>n\<close> is inside the buffer and a NUL follows it. An
  event is well formed when each of its texts is; so are the texts of an initialised session
  cache.
\<close>

definition terminated :: "char list \<Rightarrow> nat \<Rightarrow> bool" where
  "terminated buf n \<longleftrightarrow> n < length buf \<and> buf ! n = NUL"

definition event_wf :: "PschEvent \<Rightarrow> bool" where
  "event_wf ev \<longleftrightarrow> event_shape ev \<and>
     terminated (datname ev) (unat (datname_len ev)) \<and>
     terminated (username ev) (unat (username_len ev)) \<and>
     terminated (application_name ev) (unat (application_name_len ev)) \<and>
     terminated (client_addr ev) (unat (client_addr_len ev)) \<and>
     terminated (err_message ev) (unat (err_message_len ev)) \<and>
     terminated (query ev) (unat (query_len ev))"

definition backend_ok :: "PschBackendState \<Rightarrow> bool" where
  "backend_ok bs \<longleftrightarrow>
     length (be_datname bs) = NAMEDATALEN \<and> length (be_username bs) = NAMEDATALEN \<and>
     length (be_client_addr bs) = INET6_ADDRSTRLEN \<and> cache_inv (normalize_cache bs) \<and>
     (be_initialized bs \<longrightarrow>
        terminated (be_datname bs) (unat (be_datname_len bs)) \<and>
        terminated (be_username bs) (unat (be_username_len bs)) \<and>
        terminated (be_client_addr bs) (unat (be_client_addr_len bs)))"

lemma terminated_holds: "holds_str buf s \<Longrightarrow> terminated buf (length s)"
  by (simp add: holds_str_def terminated_def)

lemma ok_opt: "(\<exists>x. m = Some x \<and> Q s x) \<Longrightarrow> ok_res T Q (pg_opt s m)"
  by auto

lemma ok_call: "T s \<Longrightarrow> (\<And>x. r = Ret x \<Longrightarrow> Q s x) \<Longrightarrow> ok_res T Q (pg_call s r)"
  by (cases r) (auto simp: pg_call_def)

text \<open>The copies, at the size of the buffer they write.\<close>

lemma strlcpy_into_terminated:
  assumes "0 < unat sz" and "unat sz \<le> length dst"
  shows "\<exists>buf. strlcpy_into dst src sz = Some (buf, of_nat (length (cstr src))) \<and>
     length buf = length dst \<and> terminated buf (min (length (cstr src)) (unat sz - 1)) \<and>
     take (min (length (cstr src)) (unat sz - 1)) buf = take (unat sz - 1) (cstr src)"
proof -
  define m where "m = min (length (cstr src)) (unat sz - 1)"
  have t: "take (unat sz - 1) (cstr src) = take m (cstr src)" by (auto simp: m_def min_def)
  have m: "m \<le> length (cstr src)" "m < length dst" using assms by (auto simp: m_def)
  have "strlcpy_into dst src sz
      = Some (take m (cstr src) @ NUL # drop (Suc m) dst, of_nat (length (cstr src)))"
    using strlcpy_into_eq [OF assms, of src] unfolding t by (simp add: m_def)
  then show ?thesis unfolding m_def [symmetric] t
    using m by (auto simp: terminated_def nth_append)
qed

lemma unat_narrow:
  "unat (w :: u64) = m \<Longrightarrow> m < 256 \<Longrightarrow> unat (ucast w :: u8) = m"
  by (simp add: unsigned_ucast_eq take_bit_nat_eq_self)

lemma PschCopyName_spec:
  assumes "length dst = n" "0 < n" "n \<le> 256" "length (cstr src) < 2 ^ 64"
  shows "\<exists>buf l. PschCopyName dst (of_nat n) src = Some (buf, l) \<and> length buf = n \<and>
           terminated buf (unat l) \<and> take (unat l) buf = take (n - 1) (cstr src)"
proof -
  define sz :: u64 where "sz = of_nat n"
  define W where "W = min (of_nat (length (cstr src))) (sz - 1)"
  have sz: "unat sz = n" using assms(3) by (simp add: sz_def unat_of_nat take_bit_nat_eq_self)
  have W: "unat W = min (length (cstr src)) (n - 1)"
    using clamp_len [of sz "length (cstr src)"] assms(2,4) sz by (simp add: W_def)
  then have l: "unat (ucast W :: u8) = min (length (cstr src)) (n - 1)"
    using assms(2,3) by (intro unat_narrow) auto
  obtain buf where "strlcpy_into dst src sz = Some (buf, of_nat (length (cstr src)))"
      "length buf = n" "terminated buf (min (length (cstr src)) (n - 1))"
      "take (min (length (cstr src)) (n - 1)) buf = take (n - 1) (cstr src)"
    using strlcpy_into_terminated [of sz dst src] assms(1,2) sz by auto
  then show ?thesis
    unfolding PschCopyName_def sz_def [symmetric] by (simp add: W_def [symmetric] l)
qed

lemma GetClientAddress_spec:
  assumes "length buf = INET6_ADDRSTRLEN" "length (cstr (snd (pg_getnameinfo_all env))) < 2 ^ 64"
  shows "\<exists>buf' l. GetClientAddress env buf (of_nat INET6_ADDRSTRLEN) = Some (buf', l) \<and>
           length buf' = INET6_ADDRSTRLEN \<and> terminated buf' (unat (ucast l :: u8))"
proof -
  obtain ret host where h: "pg_getnameinfo_all env = (ret, host)" by fastforce
  define b where "b = buf[0 := NUL]"
  define sz :: u64 where "sz = 46"
  have b: "length b = 46" "terminated b 0" using assms(1) by (simp_all add: b_def terminated_def)
  define s where "s = (if cstr host = ''[local]'' then ''127.0.0.1'' else host)"
  define W where "W = min (of_nat (length (cstr s))) (sz - 1)"
  have "length (cstr s) < 2 ^ 64" using assms(2) h by (simp add: s_def cstr_def)
  then have W: "unat W = min (length (cstr s)) 45"
    using clamp_len [of sz "length (cstr s)"] by (simp add: W_def sz_def)
  then have l: "unat (ucast W :: u8) = min (length (cstr s)) 45" by (intro unat_narrow) auto
  obtain buf' where "strlcpy_into b s sz = Some (buf', of_nat (length (cstr s)))"
      "length buf' = 46" "terminated buf' (min (length (cstr s)) 45)"
    using strlcpy_into_terminated [of sz b s] b(1) by (auto simp: sz_def)
  then have "(case strlcpy_into b s sz of None \<Rightarrow> None
      | Some (buf, src_len) \<Rightarrow> Some (buf, min src_len (sz - 1))) = Some (buf', W)"
    "length buf' = 46" "terminated buf' (unat (ucast W :: u8))"
    by (simp_all add: W_def [symmetric] l)
  moreover have sz: "of_nat INET6_ADDRSTRLEN = sz" by (simp add: sz_def)
  ultimately show ?thesis
    unfolding GetClientAddress_def h sz using assms(1) b
    by (simp add: b_def [symmetric] s_def [symmetric] Let_def)
qed

lemma GetApplicationName_spec:
  assumes "length buf = NAMEDATALEN" and "pred_option (\<lambda>s. length (cstr s) < 2 ^ 64) (application_name_guc env)"
  shows "\<exists>buf' l. GetApplicationName env buf (of_nat NAMEDATALEN) = Some (buf', l) \<and>
           length buf' = NAMEDATALEN \<and> terminated buf' (unat (of_nat l :: u8))"
proof (cases "\<exists>nm. application_name_guc env = Some nm \<and> cstr nm \<noteq> []")
  case True
  then obtain nm where nm: "application_name_guc env = Some nm" "cstr nm \<noteq> []" by blast
  define t where "t = rtrim (take 63 (ltrim (cstr nm)))"
  have "length t \<le> 63" using rtrim_length [of "take 63 (ltrim (cstr nm))"] by (simp add: t_def)
  then have l: "unat (of_nat (length t) :: u8) = length t" by (simp add: unat_of_nat take_bit_nat_eq_self)
  have "length (cstr nm) < 2 ^ 64" using assms(2) nm by simp
  then obtain dst' where "PschCopyTrimmed buf (of_nat NAMEDATALEN) (Some nm) = Some (dst', length t)"
      "length dst' = 64" "holds_str dst' t"
    using copy_trimmed_holds [of "of_nat NAMEDATALEN" buf nm] assms(1) by (auto simp: t_def)
  then show ?thesis using nm l terminated_holds [of dst' t] by (simp add: GetApplicationName_def)
next
  case False
  then have "GetApplicationName env buf (of_nat NAMEDATALEN) = Some (buf[0 := NUL], 0)"
    using assms(1) by (cases "application_name_guc env") (auto simp: GetApplicationName_def)
  then show ?thesis using assms(1) by (auto simp: terminated_def)
qed

text \<open>What PostgreSQL's strings satisfy: no string in memory has \<open>2 ^ 64\<close> bytes.\<close>

definition strings_ok :: "hook_env \<Rightarrow> bool" where
  "strings_ok env \<longleftrightarrow>
     (\<forall>i s. get_database_name env i = Ret (Some s) \<longrightarrow> length (cstr s) < 2 ^ 64) \<and>
     (\<forall>i s. GetUserNameFromId env i = Ret (Some s) \<longrightarrow> length (cstr s) < 2 ^ 64) \<and>
     pred_option (\<lambda>s. length (cstr s) < 2 ^ 64) (application_name_guc env) \<and>
     length (cstr (snd (pg_getnameinfo_all env))) < 2 ^ 64"

lemma copy_name_ok:
  assumes "length dst = NAMEDATALEN" and "pred_option (\<lambda>s. length (cstr s) < 2 ^ 64) nm"
  shows "\<exists>buf l. PschCopyName dst (of_nat NAMEDATALEN) (name_or_unknown nm) = Some (buf, l) \<and>
           length buf = NAMEDATALEN \<and> terminated buf (unat l)"
proof -
  have "length (cstr (name_or_unknown nm)) < 2 ^ 64"
    using assms(2) by (cases nm) (auto simp: name_or_unknown_def unknown_name_def cstr_def)
  then show ?thesis using PschCopyName_spec [of dst NAMEDATALEN "name_or_unknown nm"] assms(1) by auto
qed

text \<open>Only the name and its owner change.\<close>

definition but_username :: "PschBackendState \<Rightarrow> PschBackendState" where
  "but_username bs = bs\<lparr>be_username := [], be_username_len := 0, cached_userid := 0\<rparr>"

lemma but_usernameD:
  assumes "but_username bs' = but_username bs"
  shows "be_initialized bs' = be_initialized bs" "be_datname bs' = be_datname bs"
    "be_datname_len bs' = be_datname_len bs" "be_client_addr bs' = be_client_addr bs"
    "be_client_addr_len bs' = be_client_addr_len bs" "normalize_cache bs' = normalize_cache bs"
  using assms by (cases bs; cases bs'; simp add: but_username_def)+

lemma CacheUsername_ok:
  assumes "backend_ok bs" and "strings_ok env"
  shows "ok_res (\<lambda>bs'. bs' = bs)
     (\<lambda>bs' _. backend_ok bs' \<and> but_username bs' = but_username bs \<and>
              (fallback \<longrightarrow> terminated (be_username bs') (unat (be_username_len bs'))))
     (CacheUsername env uid fallback bs)"
proof (cases "GetUserNameFromId env uid")
  case Throw
  then show ?thesis by (simp add: CacheUsername_def)
next
  case (Ret nm)
  have "pred_option (\<lambda>s. length (cstr s) < 2 ^ 64) nm"
    using assms(2) Ret by (cases nm) (auto simp: strings_ok_def)
  then obtain buf l where c: "PschCopyName (be_username bs) (of_nat NAMEDATALEN) (name_or_unknown nm) = Some (buf, l)"
      "length buf = NAMEDATALEN" "terminated buf (unat l)"
    using copy_name_ok [of "be_username bs" nm] assms(1) by (auto simp: backend_ok_def)
  then show ?thesis using assms(1) Ret
    by (cases nm) (auto simp: CacheUsername_def name_or_unknown_def backend_ok_def but_username_def)
qed

text \<open>Resolving names and addresses does not touch the query cache \<open>c0\<close>.\<close>

definition kept :: "PschNormalizedQueryCache \<Rightarrow> PschBackendState \<Rightarrow> bool" where
  "kept c0 bs \<longleftrightarrow> backend_ok bs \<and> normalize_cache bs = c0"

lemma kept_backend_ok: "kept c0 bs \<Longrightarrow> backend_ok bs"
  by (simp add: kept_def)

lemma CacheUsername_kept:
  assumes "kept c0 bs" and "strings_ok env"
  shows "ok_res (\<lambda>bs'. bs' = bs)
     (\<lambda>bs' _. kept c0 bs' \<and> but_username bs' = but_username bs \<and>
              (fallback \<longrightarrow> terminated (be_username bs') (unat (be_username_len bs'))))
     (CacheUsername env uid fallback bs)"
  by (rule ok_weaken [OF CacheUsername_ok [OF kept_backend_ok [OF assms(1)] assms(2)]])
     (use assms(1) in \<open>auto simp: kept_def dest: but_usernameD(6)\<close>)

lemma EnsureBackendCache_ok:
  assumes ok: "kept c0 bs" and env: "strings_ok env"
  shows "ok_res (kept c0)
     (\<lambda>bs' _. kept c0 bs' \<and> (be_initialized bs' \<longleftrightarrow> be_initialized bs \<or> IsTransactionState env))
     (EnsureBackendCache env bs)"
proof (cases "be_initialized bs")
  case True
  then show ?thesis
    using ok CacheUsername_kept [OF ok env, of False "GetUserId env"]
    by (auto simp: EnsureBackendCache_def Let_def elim!: ok_weaken dest: but_usernameD(1))
next
  case False
  show ?thesis
  proof (cases "IsTransactionState env")
    case False
    then show ?thesis using ok \<open>\<not> be_initialized bs\<close> by (simp add: EnsureBackendCache_def)
  next
    case True
    show ?thesis
    proof (cases "get_database_name env (MyDatabaseId env)")
      case Throw
      then show ?thesis using ok True False by (simp add: EnsureBackendCache_def)
    next
      case (Ret nm)
      have "pred_option (\<lambda>s. length (cstr s) < 2 ^ 64) nm"
        using env Ret by (cases nm) (auto simp: strings_ok_def)
      then obtain dbuf dl where d: "PschCopyName (be_datname bs) (of_nat NAMEDATALEN) (name_or_unknown nm) = Some (dbuf, dl)"
          "length dbuf = NAMEDATALEN" "terminated dbuf (unat dl)"
        using copy_name_ok [of "be_datname bs" nm] ok by (auto simp: kept_def backend_ok_def)
      obtain cbuf cl where c: "GetClientAddress env (be_client_addr bs) (of_nat INET6_ADDRSTRLEN) = Some (cbuf, cl)"
          "length cbuf = INET6_ADDRSTRLEN" "terminated cbuf (unat (ucast cl :: u8))"
        using GetClientAddress_spec [of "be_client_addr bs" env] ok env
        by (auto simp: kept_def backend_ok_def strings_ok_def)
      let ?bs = "bs\<lparr>be_datname := dbuf, be_datname_len := dl, be_client_addr := cbuf,
                    be_client_addr_len := ucast cl\<rparr>"
      have bs: "kept c0 ?bs" using ok d c False by (auto simp: kept_def backend_ok_def)
      have "EnsureBackendCache env bs
          = pg_bind (CacheUsername env (GetUserId env) True ?bs) (\<lambda>bs _. pg_ret (bs\<lparr>be_initialized := True\<rparr>) ())"
        using True False Ret d(1) c(1) by (simp add: EnsureBackendCache_def Let_def)
      moreover have "ok_res (kept c0) (\<lambda>bs' _. kept c0 (bs'\<lparr>be_initialized := True\<rparr>))
          (CacheUsername env (GetUserId env) True ?bs)"
      proof (rule ok_weaken [OF CacheUsername_kept [OF bs env]], use bs in simp, elim conjE)
        fix bs' assume "kept c0 bs'" and b: "but_username bs' = but_username ?bs"
          and "True \<longrightarrow> terminated (be_username bs') (unat (be_username_len bs'))"
        then show "kept c0 (bs'\<lparr>be_initialized := True\<rparr>)"
          using d c but_usernameD [OF b] by (auto simp: kept_def backend_ok_def)
      qed
      ultimately show ?thesis using True by (auto intro: ok_bind)
    qed
  qed
qed

lemma memcpy_terminated:
  assumes "terminated src n" and "n < length dst"
  shows "\<exists>buf. memcpy dst src (n + 1) = Some buf \<and> length buf = length dst \<and> terminated buf n \<and>
               take n buf = take n src"
  using assms by (auto simp: terminated_def memcpy_def nth_append take_Suc_conv_app_nth)

lemma ResolveNames_ok:
  assumes ok: "kept c0 bs" and env: "strings_ok env"
    and ev: "length (datname ev) = NAMEDATALEN" "length (username ev) = NAMEDATALEN"
  shows "ok_res (kept c0)
     (\<lambda>bs' ev'. kept c0 bs' \<and>
        (\<exists>d dl u ul. ev' = ev\<lparr>datname := d, datname_len := dl, username := u, username_len := ul\<rparr> \<and>
           length d = NAMEDATALEN \<and> length u = NAMEDATALEN \<and>
           terminated d (unat dl) \<and> terminated u (unat ul)))
     (ResolveNames env ev bs)"
  unfolding ResolveNames_def
proof (rule ok_bind [OF EnsureBackendCache_ok [OF ok env]], elim conjE)
  fix bs assume bs: "kept c0 bs"
  let ?Q = "\<lambda>bs' ev'. kept c0 bs' \<and>
        (\<exists>d dl u ul. ev' = ev\<lparr>datname := d, datname_len := dl, username := u, username_len := ul\<rparr> \<and>
           length d = NAMEDATALEN \<and> length u = NAMEDATALEN \<and>
           terminated d (unat dl) \<and> terminated u (unat ul))"
  show "ok_res (kept c0) ?Q (if be_initialized bs then
         pg_bind (pg_opt bs (memcpy (datname ev) (be_datname bs) (unat (be_datname_len bs) + 1)))
           (\<lambda>bs dbuf.
         pg_bind (pg_opt bs (memcpy (username ev) (be_username bs) (unat (be_username_len bs) + 1)))
           (\<lambda>bs ubuf.
         pg_ret bs (ev\<lparr>datname := dbuf, datname_len := be_datname_len bs,
                       username := ubuf, username_len := be_username_len bs\<rparr>)))
       else
         pg_bind (if IsTransactionState env then pg_call bs (get_database_name env (dbid ev))
                  else pg_ret bs None) (\<lambda>bs dname.
         pg_bind (if IsTransactionState env then pg_call bs (GetUserNameFromId env (userid ev))
                  else pg_ret bs None) (\<lambda>bs uname.
         pg_bind (pg_opt bs (PschCopyName (datname ev) (of_nat NAMEDATALEN) (name_or_unknown dname)))
           (\<lambda>bs (dbuf, dn).
         pg_bind (pg_opt bs (PschCopyName (username ev) (of_nat NAMEDATALEN) (name_or_unknown uname)))
           (\<lambda>bs (ubuf, un).
         pg_ret bs (ev\<lparr>datname := dbuf, datname_len := dn, username := ubuf, username_len := un\<rparr>))))))"
    (is "ok_res _ _ (if _ then ?A else ?B)")
  proof (cases "be_initialized bs")
    case True
    then have t: "terminated (be_datname bs) (unat (be_datname_len bs))" "unat (be_datname_len bs) < length (datname ev)"
        "terminated (be_username bs) (unat (be_username_len bs))" "unat (be_username_len bs) < length (username ev)"
      using bs ev by (auto simp: kept_def backend_ok_def terminated_def)
    obtain d u where m: "memcpy (datname ev) (be_datname bs) (unat (be_datname_len bs) + 1) = Some d"
        "memcpy (username ev) (be_username bs) (unat (be_username_len bs) + 1) = Some u"
        "length d = NAMEDATALEN" "length u = NAMEDATALEN" "terminated d (unat (be_datname_len bs))"
        "terminated u (unat (be_username_len bs))"
      using memcpy_terminated [OF t(1,2)] memcpy_terminated [OF t(3,4)] ev by auto
    have "ok_res (kept c0) ?Q ?A"
      unfolding m(1,2) pg_opt_simps pg_bind_ret ok_res_simps
      using bs m(3-6) by (intro conjI exI) (assumption | rule refl)+
    then show ?thesis using True by simp
  next
    case False
    let ?S = "\<lambda>nm. pred_option (\<lambda>s. length (cstr s) < 2 ^ 64) nm"
    have d: "ok_res (kept c0) (\<lambda>bs' nm. bs' = bs \<and> ?S nm)
        (if IsTransactionState env then pg_call bs (get_database_name env (dbid ev)) else pg_ret bs None)"
      using bs env by (auto intro!: ok_call simp: strings_ok_def option.pred_set)
    have u: "ok_res (kept c0) (\<lambda>bs' nm. bs' = bs \<and> ?S nm)
        (if IsTransactionState env then pg_call bs (GetUserNameFromId env (userid ev)) else pg_ret bs None)"
      using bs env by (auto intro!: ok_call simp: strings_ok_def option.pred_set)
    have rest: "ok_res (kept c0) ?Q
         (pg_bind (pg_opt bs (PschCopyName (datname ev) (of_nat NAMEDATALEN) (name_or_unknown dname)))
           (\<lambda>bs (dbuf, dn).
         pg_bind (pg_opt bs (PschCopyName (username ev) (of_nat NAMEDATALEN) (name_or_unknown uname)))
           (\<lambda>bs (ubuf, un).
         pg_ret bs (ev\<lparr>datname := dbuf, datname_len := dn, username := ubuf, username_len := un\<rparr>))))"
      if n: "?S dname" "?S uname" for dname uname
    proof -
      obtain d dl u ul where m: "PschCopyName (datname ev) (of_nat NAMEDATALEN) (name_or_unknown dname) = Some (d, dl)"
          "PschCopyName (username ev) (of_nat NAMEDATALEN) (name_or_unknown uname) = Some (u, ul)"
          "length d = NAMEDATALEN" "length u = NAMEDATALEN" "terminated d (unat dl)" "terminated u (unat ul)"
        using copy_name_ok [OF ev(1) n(1)] copy_name_ok [OF ev(2) n(2)] by auto
      show ?thesis
        unfolding m(1,2) pg_opt_simps pg_bind_ret ok_res_simps prod.case
        using bs m(3-6) by (intro conjI exI) (assumption | rule refl)+
    qed
    have "ok_res (kept c0) ?Q ?B"
      by (rule ok_bind [OF d], elim conjE, hypsubst, rule ok_bind [OF u], elim conjE, hypsubst, rule rest)
    then show ?thesis using False by simp
  qed
qed

text \<open>What identifies an event, apart from its texts and its counters.\<close>

definition event_head ::
    "PschEvent \<Rightarrow> TimestampTz \<times> Oid \<times> Oid \<times> i32 \<times> bool \<times> PschCmdType \<times> u64 \<times> u64 \<times> u64" where
  "event_head ev =
     (ts_start ev, dbid ev, userid ev, pid ev, top_level ev, cmd_type ev, queryid ev,
      duration_us ev, rows ev)"

lemma InitEventPartial_simps [simp]:
  "datname (InitEventPartial ev) = replicate NAMEDATALEN NUL"
  "username (InitEventPartial ev) = replicate NAMEDATALEN NUL"
  "err_sqlstate (InitEventPartial ev) = replicate 6 NUL"
  "application_name (InitEventPartial ev) = replicate NAMEDATALEN NUL"
  "client_addr (InitEventPartial ev) = replicate INET6_ADDRSTRLEN NUL"
  "err_message (InitEventPartial ev) = (err_message ev)[0 := NUL]"
  "query (InitEventPartial ev) = (query ev)[0 := NUL]"
  "datname_len (InitEventPartial ev) = 0" "username_len (InitEventPartial ev) = 0"
  "application_name_len (InitEventPartial ev) = 0" "client_addr_len (InitEventPartial ev) = 0"
  "err_message_len (InitEventPartial ev) = 0" "query_len (InitEventPartial ev) = 0"
  "queryid (InitEventPartial ev) = 0" "duration_us (InitEventPartial ev) = 0"
  "rows (InitEventPartial ev) = 0" "err_elevel (InitEventPartial ev) = 0"
  by (simp_all add: InitEventPartial_def zero_fixed_def psch_fixed.defs PschEvent.defs)

lemma InitBaseEvent_ok:
  assumes ok: "kept c0 bs" and env: "strings_ok env" and ev: "event_shape ev"
  shows "ok_res (kept c0)
     (\<lambda>bs' ev'. kept c0 bs' \<and> event_wf ev' \<and>
        event_head ev' = (ts, MyDatabaseId env, GetUserId env, MyProcPid env, is_top, cmd, 0, 0, 0) \<and>
        err_message_len ev' = 0 \<and> query_len ev' = 0)
     (InitBaseEvent env ev ts is_top cmd bs)"
proof -
  let ?ev = "(InitEventPartial ev)\<lparr>ts_start := ts, dbid := MyDatabaseId env, userid := GetUserId env,
                              pid := MyProcPid env, top_level := is_top, cmd_type := cmd\<rparr>"
  have "length (datname ?ev) = NAMEDATALEN" "length (username ?ev) = NAMEDATALEN" by simp_all
  from ResolveNames_ok [OF ok env this] show ?thesis
    unfolding InitBaseEvent_def
  proof (rule ok_weaken, blast)
    fix bs' ev'
    assume A: "kept c0 bs' \<and>
        (\<exists>d dl u ul. ev' = ?ev\<lparr>datname := d, datname_len := dl, username := u, username_len := ul\<rparr> \<and>
           length d = NAMEDATALEN \<and> length u = NAMEDATALEN \<and>
           terminated d (unat dl) \<and> terminated u (unat ul))"
    then obtain d dl u ul where e: "ev' = ?ev\<lparr>datname := d, datname_len := dl, username := u, username_len := ul\<rparr>"
        "length d = NAMEDATALEN" "length u = NAMEDATALEN" "terminated d (unat dl)" "terminated u (unat ul)"
      by blast
    have "event_wf ev'" using ev e(2-5) unfolding e(1)
      by (simp add: event_wf_def event_shape_def terminated_def)
    then show "kept c0 bs' \<and> event_wf ev' \<and>
        event_head ev' = (ts, MyDatabaseId env, GetUserId env, MyProcPid env, is_top, cmd, 0, 0, 0) \<and>
        err_message_len ev' = 0 \<and> query_len ev' = 0"
      using A by (simp add: e(1) event_head_def)
  qed
qed

text \<open>The client context leaves the rest of the event alone.\<close>

definition but_client :: "PschEvent \<Rightarrow> PschEvent" where
  "but_client ev =
     ev\<lparr>application_name := [], application_name_len := 0, client_addr := [], client_addr_len := 0\<rparr>"

lemma CopyClientContext_ok:
  assumes ok: "kept c0 bs" and env: "strings_ok env" and ev: "event_wf ev"
  shows "ok_res (kept c0) (\<lambda>bs' ev'. kept c0 bs' \<and> event_wf ev' \<and> but_client ev' = but_client ev)
     (CopyClientContext env ev bs)"
proof -
  have len: "length (application_name ev) = NAMEDATALEN" "length (client_addr ev) = INET6_ADDRSTRLEN"
    using ev by (simp_all add: event_wf_def event_shape_def)
  obtain a al where a: "GetApplicationName env (application_name ev) (of_nat NAMEDATALEN) = Some (a, al)"
      "length a = NAMEDATALEN" "terminated a (unat (of_nat al :: u8))"
    using GetApplicationName_spec [OF len(1), of env] env by (auto simp: strings_ok_def)
  obtain c cl where c: "GetClientAddress env (client_addr ev) (of_nat INET6_ADDRSTRLEN) = Some (c, cl)"
      "length c = INET6_ADDRSTRLEN" "terminated c (unat (ucast cl :: u8))"
    using GetClientAddress_spec [OF len(2), of env] env by (auto simp: strings_ok_def)
  have rest: "ok_res (kept c0) (\<lambda>bs' ev'. kept c0 bs' \<and> event_wf ev' \<and> but_client ev' = but_client ev)
     (if be_initialized bs then
         pg_bind (pg_opt bs (memcpy (client_addr (ev\<lparr>application_name := a, application_name_len := of_nat al\<rparr>))
             (be_client_addr bs) (unat (be_client_addr_len bs) + 1))) (\<lambda>bs cbuf. pg_ret bs (ev\<lparr>application_name := a, application_name_len := of_nat al,
                client_addr := cbuf, client_addr_len := be_client_addr_len bs\<rparr>))
       else pg_ret bs (ev\<lparr>application_name := a, application_name_len := of_nat al,
                client_addr := c, client_addr_len := ucast cl\<rparr>))"
    if bs: "kept c0 bs" for bs
  proof (cases "be_initialized bs")
    case True
    then have t: "terminated (be_client_addr bs) (unat (be_client_addr_len bs))"
        "unat (be_client_addr_len bs) < length (client_addr ev)"
      using bs len by (auto simp: kept_def backend_ok_def terminated_def)
    obtain b where "memcpy (client_addr ev) (be_client_addr bs) (unat (be_client_addr_len bs) + 1) = Some b"
        "length b = INET6_ADDRSTRLEN" "terminated b (unat (be_client_addr_len bs))"
      using memcpy_terminated [OF t] len by auto
    then show ?thesis using True bs ev a by (simp add: event_wf_def event_shape_def but_client_def)
  next
    case False
    then show ?thesis using bs ev a c by (simp add: event_wf_def event_shape_def but_client_def)
  qed
  have *: "pg_opt s (GetClientAddress env (client_addr (ev\<lparr>application_name := a, application_name_len := of_nat al\<rparr>))
      (of_nat INET6_ADDRSTRLEN)) = pg_ret s (c, cl)" for s :: PschBackendState
    using c(1) by simp
  show ?thesis
    unfolding CopyClientContext_def a(1) pg_opt_simps pg_bind_ret prod.case Let_def *
    by (rule ok_bind [OF ok_weaken [OF EnsureBackendCache_ok [OF ok env], where Q' = "\<lambda>bs _. kept c0 bs"]])
       (blast, blast, rule rest)
qed

lemma but_clientD:
  assumes "but_client ev' = but_client ev"
  shows "event_head ev' = event_head ev" "query ev' = query ev" "query_len ev' = query_len ev"
    "err_message ev' = err_message ev" "err_message_len ev' = err_message_len ev"
    "err_sqlstate ev' = err_sqlstate ev" "err_elevel ev' = err_elevel ev"
  using arg_cong [OF assms, of ts_start] arg_cong [OF assms, of dbid] arg_cong [OF assms, of userid]
    arg_cong [OF assms, of pid] arg_cong [OF assms, of top_level] arg_cong [OF assms, of cmd_type]
    arg_cong [OF assms, of queryid] arg_cong [OF assms, of duration_us] arg_cong [OF assms, of rows]
    arg_cong [OF assms, of query] arg_cong [OF assms, of query_len]
    arg_cong [OF assms, of err_message] arg_cong [OF assms, of err_message_len]
    arg_cong [OF assms, of err_sqlstate] arg_cong [OF assms, of err_elevel]
  by (simp_all add: but_client_def event_head_def)

lemma CopyQueryText_ok:
  assumes ok: "kept c0 bs" and ev: "event_wf ev" "query_len ev = 0"
  shows "ok_res T
     (\<lambda>bs' ev'. backend_ok bs' \<and> event_wf ev' \<and> event_head ev' = event_head ev \<and>
        err_message_len ev' = err_message_len ev \<and>
        query_text ev' = (case map_of (cache_contents c0) k of
                            Some t \<Rightarrow> t | None \<Rightarrow> []))
     (CopyQueryText ev k bs)"
proof -
  let ?c = c0
  have inv: "cache_inv ?c" using ok by (auto simp: kept_def backend_ok_def)
  have len: "length (query ev) = PSCH_MAX_QUERY_LEN" using ev by (simp add: event_wf_def event_shape_def)
  have sz: "0 < unat (of_nat PSCH_MAX_QUERY_LEN :: u64)" "unat (of_nat PSCH_MAX_QUERY_LEN :: u64) \<le> length (query ev)"
    "unat (of_nat PSCH_MAX_QUERY_LEN :: u64) = 2048"
    using len by simp_all
  have keep: "backend_ok (bs\<lparr>normalize_cache := c'\<rparr>)" if "cache_inv c'" for c'
    using ok that by (simp add: kept_def backend_ok_def)
  show ?thesis
  proof (cases "map_of (cache_contents ?c) k")
    case None
    then have "PschLookupNormalizedQuery k (query ev) (of_nat PSCH_MAX_QUERY_LEN) ?c = Some (?c, None)"
      using lookup_spec [OF inv sz(1,2), of k undefined] by auto
    then show ?thesis using None ev keep [OF inv] ok by (simp add: kept_def CopyQueryText_def query_text_def)
  next
    case (Some t)
    then obtain c' dst' n where l:
        "PschLookupNormalizedQuery k (query ev) (of_nat PSCH_MAX_QUERY_LEN) ?c = Some (c', Some (dst', n))"
        "cache_inv c'" "length dst' = 2048" "unat n = min (length t) 2047" "holds_str dst' (take 2047 t)"
      using lookup_spec [OF inv sz(1,2), of k undefined] len sz(3) by auto
    have "length t < 2048" using cache_contents_ok(2) [OF inv Some] .
    then have t: "take 2047 t = t" "unat n = length t" using l(4) by simp_all
    then have "terminated dst' (unat n)" "take (unat n) dst' = t"
      using l(5) terminated_holds [of dst' t] by (simp_all add: holds_str_def)
    then show ?thesis using l(1-3) keep [OF l(2)] ev Some ok
      by (simp add: kept_def CopyQueryText_def query_text_def event_wf_def event_shape_def event_head_def)
  qed
qed

lemma copy_counters [simp]:
  "event_wf (CopyBufferUsage ev b) = event_wf ev" "event_wf (CopyIoTiming env ev b) = event_wf ev"
  "event_wf (CopyWalUsage ev w) = event_wf ev" "event_wf (CopyJitInstrumentation env ev qd) = event_wf ev"
  "event_wf (CopyParallelWorkerInfo env ev qd) = event_wf ev"
  "event_head (CopyBufferUsage ev b) = event_head ev" "event_head (CopyIoTiming env ev b) = event_head ev"
  "event_head (CopyWalUsage ev w) = event_head ev" "event_head (CopyJitInstrumentation env ev qd) = event_head ev"
  "event_head (CopyParallelWorkerInfo env ev qd) = event_head ev"
  "query_len (CopyBufferUsage ev b) = query_len ev" "query_len (CopyIoTiming env ev b) = query_len ev"
  "query_len (CopyWalUsage ev w) = query_len ev" "query_len (CopyJitInstrumentation env ev qd) = query_len ev"
  "query_len (CopyParallelWorkerInfo env ev qd) = query_len ev"
  "err_message_len (CopyBufferUsage ev b) = err_message_len ev" "err_message_len (CopyIoTiming env ev b) = err_message_len ev"
  "err_message_len (CopyWalUsage ev w) = err_message_len ev" "err_message_len (CopyJitInstrumentation env ev qd) = err_message_len ev"
  "err_message_len (CopyParallelWorkerInfo env ev qd) = err_message_len ev"
  by (simp_all add: CopyBufferUsage_def CopyIoTiming_def CopyWalUsage_def CopyJitInstrumentation_def
      CopyParallelWorkerInfo_def event_wf_def event_shape_def event_head_def Let_def split: option.split)

text \<open>
  A finished event: well formed, with the given head, no error message, and the text that
  the cache \<open>c0\<close> has for the query id, or none.
\<close>

definition built ::
    "PschNormalizedQueryCache \<Rightarrow> TimestampTz \<times> Oid \<times> Oid \<times> i32 \<times> bool \<times> PschCmdType \<times> u64 \<times> u64 \<times> u64 \<Rightarrow>
       u64 \<Rightarrow> PschEvent \<Rightarrow> bool" where
  "built c0 h k ev \<longleftrightarrow> event_wf ev \<and> event_head ev = h \<and> err_message_len ev = 0 \<and>
     query_text ev = (case map_of (cache_contents c0) k of Some t \<Rightarrow> t | None \<Rightarrow> [])"

lemma finish_event_ok:
  assumes "kept c0 bs" and env: "strings_ok env"
    and ev: "event_wf ev" "query_len ev = 0" "err_message_len ev = 0"
  shows "ok_res backend_ok (\<lambda>bs' ev'. backend_ok bs' \<and> built c0 (event_head ev) k ev')
     (pg_bind (CopyClientContext env ev bs) (\<lambda>bs ev. CopyQueryText ev k bs))"
proof (rule ok_bind [OF ok_weaken [OF CopyClientContext_ok [OF assms(1) env ev(1)] kept_backend_ok]])
  fix bs' ev'
  assume A: "kept c0 bs' \<and> event_wf ev' \<and> but_client ev' = but_client ev"
  then have B: "event_head ev' = event_head ev" "query_len ev' = 0" "err_message_len ev' = 0"
    using but_clientD(1,3,5) [of ev' ev] ev(2,3) by auto
  show "ok_res backend_ok (\<lambda>bs' ev'. backend_ok bs' \<and> built c0 (event_head ev) k ev') (CopyQueryText ev' k bs')"
    by (rule ok_weaken [OF CopyQueryText_ok [of c0 bs' ev' backend_ok]])
       (use A B in \<open>auto simp: built_def\<close>)
qed simp_all

lemma event_wf_numbers [simp]:
  "event_wf (ev\<lparr>queryid := a\<rparr>) = event_wf ev" "event_wf (ev\<lparr>rows := a\<rparr>) = event_wf ev"
  "event_wf (ev\<lparr>cpu_user_time_us := i\<rparr>) = event_wf ev" "event_wf (ev\<lparr>cpu_sys_time_us := i\<rparr>) = event_wf ev"
  "event_wf (ev\<lparr>duration_us := a\<rparr>) = event_wf ev"
  by (simp_all add: event_wf_def event_shape_def)

lemma BuildEventFromQueryDesc_ok:
  assumes ok: "kept c0 bs" and env: "strings_ok env" and ev: "event_shape ev"
  shows "ok_res backend_ok
     (\<lambda>bs' ev'. backend_ok bs' \<and>
        built c0 (start_ts, MyDatabaseId env, GetUserId env, MyProcPid env, is_top,
          ConvertCmdType env (operation qd), qd_queryId qd, query_duration_us env qd start_ts,
          es_processed qd) (qd_queryId qd) ev')
     (BuildEventFromQueryDesc env qd ev start_ts is_top cu cs bs)"
  unfolding BuildEventFromQueryDesc_def Let_def
proof (rule ok_bind [OF ok_weaken [OF InitBaseEvent_ok [OF ok env ev] kept_backend_ok]], assumption, assumption,
    elim conjE)
  fix bs1 ev1
  assume A: "kept c0 bs1" "event_wf ev1" "err_message_len ev1 = 0" "query_len ev1 = 0"
    "event_head ev1 = (start_ts, MyDatabaseId env, GetUserId env, MyProcPid env, is_top,
        ConvertCmdType env (operation qd), 0, 0, 0)"
  let ?ev = "CopyParallelWorkerInfo env (CopyJitInstrumentation env
      (let ev = ev1\<lparr>queryid := qd_queryId qd, rows := es_processed qd, cpu_user_time_us := cu,
              cpu_sys_time_us := cs, duration_us := query_duration_us env qd start_ts\<rparr> in
       case totaltime qd of
         None \<Rightarrow> ev
       | Some t \<Rightarrow> CopyWalUsage (CopyIoTiming env (CopyBufferUsage ev (instr_bufusage t)) (instr_bufusage t))
                     (instr_walusage t)) qd) qd"
  have h0: "event_head (ev1\<lparr>queryid := qd_queryId qd, rows := es_processed qd, cpu_user_time_us := cu,
              cpu_sys_time_us := cs, duration_us := query_duration_us env qd start_ts\<rparr>)
      = (start_ts, MyDatabaseId env, GetUserId env, MyProcPid env, is_top,
      ConvertCmdType env (operation qd), qd_queryId qd, query_duration_us env qd start_ts, es_processed qd)"
    using A(5) by (simp add: event_head_def)
  have "event_wf ?ev" "query_len ?ev = 0" "err_message_len ?ev = 0"
    and "event_head ?ev = (start_ts, MyDatabaseId env, GetUserId env, MyProcPid env, is_top,
      ConvertCmdType env (operation qd), qd_queryId qd, query_duration_us env qd start_ts, es_processed qd)"
    using A(2-4) by (simp_all add: Let_def h0 split: option.split)
  with finish_event_ok [OF A(1) env, of ?ev "qd_queryId qd"]
  show "ok_res backend_ok
     (\<lambda>bs' ev'. backend_ok bs' \<and>
        built c0 (start_ts, MyDatabaseId env, GetUserId env, MyProcPid env, is_top,
          ConvertCmdType env (operation qd), qd_queryId qd, query_duration_us env qd start_ts,
          es_processed qd) (qd_queryId qd) ev')
     (pg_bind (CopyClientContext env (CopyParallelWorkerInfo env (CopyJitInstrumentation env
      (case totaltime qd of
         None \<Rightarrow> ev1\<lparr>queryid := qd_queryId qd, rows := es_processed qd, cpu_user_time_us := cu,
            cpu_sys_time_us := cs, duration_us := query_duration_us env qd start_ts\<rparr>
       | Some t \<Rightarrow> CopyWalUsage (CopyIoTiming env (CopyBufferUsage (ev1\<lparr>queryid := qd_queryId qd,
            rows := es_processed qd, cpu_user_time_us := cu, cpu_sys_time_us := cs,
            duration_us := query_duration_us env qd start_ts\<rparr>) (instr_bufusage t)) (instr_bufusage t))
                     (instr_walusage t)) qd) qd) bs1)
       (\<lambda>bs ev. CopyQueryText ev (qd_queryId qd) bs))"
    by (simp add: Let_def)
qed

lemma BuildEventForUtility_ok:
  assumes ok: "kept c0 bs" and env: "strings_ok env" and ev: "event_shape ev"
  shows "ok_res backend_ok
     (\<lambda>bs' ev'. backend_ok bs' \<and>
        built c0 (start_ts, MyDatabaseId env, GetUserId env, MyProcPid env, is_top, PSCH_CMD_UTILITY,
          k, dur, nrows) k ev')
     (BuildEventForUtility env ev k start_ts dur is_top nrows bu wu cu cs bs)"
  unfolding BuildEventForUtility_def Let_def
proof (rule ok_bind [OF ok_weaken [OF InitBaseEvent_ok [OF ok env ev] kept_backend_ok]], assumption, assumption,
    elim conjE)
  fix bs1 ev1
  assume A: "kept c0 bs1" "event_wf ev1" "err_message_len ev1 = 0" "query_len ev1 = 0"
    "event_head ev1 = (start_ts, MyDatabaseId env, GetUserId env, MyProcPid env, is_top, PSCH_CMD_UTILITY, 0, 0, 0)"
  let ?ev = "CopyWalUsage (CopyIoTiming env (CopyBufferUsage
      (ev1\<lparr>queryid := k, duration_us := dur, rows := nrows, cpu_user_time_us := cu, cpu_sys_time_us := cs\<rparr>)
      bu) bu) wu"
  have h0: "event_head (ev1\<lparr>queryid := k, duration_us := dur, rows := nrows, cpu_user_time_us := cu,
        cpu_sys_time_us := cs\<rparr>) = (start_ts, MyDatabaseId env, GetUserId env, MyProcPid env, is_top,
      PSCH_CMD_UTILITY, k, dur, nrows)"
    using A(5) by (simp add: event_head_def)
  have e: "event_wf ?ev" "query_len ?ev = 0" "err_message_len ?ev = 0"
    and h: "event_head ?ev = (start_ts, MyDatabaseId env, GetUserId env, MyProcPid env, is_top,
      PSCH_CMD_UTILITY, k, dur, nrows)"
    using A(2-4) by (simp_all add: h0)
  show "ok_res backend_ok
     (\<lambda>bs' ev'. backend_ok bs' \<and>
        built c0 (start_ts, MyDatabaseId env, GetUserId env, MyProcPid env, is_top, PSCH_CMD_UTILITY,
          k, dur, nrows) k ev')
     (pg_bind (CopyClientContext env ?ev bs1) (\<lambda>bs ev. CopyQueryText ev k bs))"
    using finish_event_ok [OF A(1) env e, of k] unfolding h .
qed

subsection \<open>Properties\<close>

text \<open>A session that answers every lookup, and its state before the first query.\<close>

definition hook_sample_env :: hook_env where
  "hook_sample_env =
     \<lparr>pg = sample_env, norm_mem = norm_sample_env, norm_scan = norm_sample_lib, PG_VERSION_NUM = 180000,
      MyDatabaseId = 5, GetUserId = 10, MyProcPid = 4711, IsTransactionState = True,
      IsParallelWorker = False, MyProc = True, IsUnderPostmaster = True, MyBgworkerEntry = False,
      get_database_name = (\<lambda>_. Ret (Some ''postgres'')), GetUserNameFromId = (\<lambda>_. Ret (Some ''alice'')),
      application_name_guc = Some ''psql'', MyProcPort = True, pg_getnameinfo_all = (0, ''[local]''),
      pg_prng_double = 0, getrusage = None,
      rusage_garbage = \<lparr>ru_utime = \<lparr>tv_sec = 0, tv_usec = 0\<rparr>, ru_stime = \<lparr>tv_sec = 0, tv_usec = 0\<rparr>\<rparr>, instr_now = 0, INSTR_TIME_GET_MICROSEC = (\<lambda>t. t),
      total_us = (\<lambda>t. t),
      InstrAlloc = Ret \<lparr>instr_total = 0,
        instr_bufusage = \<lparr>bu_shared_blks_hit = 0, bu_shared_blks_read = 0, bu_shared_blks_dirtied = 0,
          bu_shared_blks_written = 0, bu_local_blks_hit = 0, bu_local_blks_read = 0,
          bu_local_blks_dirtied = 0, bu_local_blks_written = 0, bu_temp_blks_read = 0,
          bu_temp_blks_written = 0, bu_shared_blk_read_time = 0, bu_shared_blk_write_time = 0,
          bu_local_blk_read_time = 0, bu_local_blk_write_time = 0, bu_temp_blk_read_time = 0,
          bu_temp_blk_write_time = 0\<rparr>,
        instr_walusage = \<lparr>wu_wal_records = 0, wu_wal_fpi = 0, wu_wal_bytes = 0\<rparr>\<rparr>,
      InstrEndLoop = (\<lambda>t. t),
      pgBufferUsage = \<lparr>bu_shared_blks_hit = 0, bu_shared_blks_read = 0, bu_shared_blks_dirtied = 0,
          bu_shared_blks_written = 0, bu_local_blks_hit = 0, bu_local_blks_read = 0,
          bu_local_blks_dirtied = 0, bu_local_blks_written = 0, bu_temp_blks_read = 0,
          bu_temp_blks_written = 0, bu_shared_blk_read_time = 0, bu_shared_blk_write_time = 0,
          bu_local_blk_read_time = 0, bu_local_blk_write_time = 0, bu_temp_blk_read_time = 0,
          bu_temp_blk_write_time = 0\<rparr>,
      pgWalUsage = \<lparr>wu_wal_records = 0, wu_wal_fpi = 0, wu_wal_bytes = 0\<rparr>,
      BufferUsageAccumDiff = (\<lambda>a b. a), WalUsageAccumDiff = (\<lambda>a b. a),
      CleanQuerytext = (\<lambda>s loc len. (s, 0, int (length s)))\<rparr>"

definition backend_init :: PschBackendState where
  "backend_init =
     \<lparr>be_initialized = False, be_datname = replicate NAMEDATALEN NUL, be_datname_len = 0,
      cached_userid = 0, be_username = replicate NAMEDATALEN NUL, be_username_len = 0,
      be_client_addr = replicate INET6_ADDRSTRLEN NUL, be_client_addr_len = 0,
      normalize_cache = norm_cache_init\<rparr>"

definition sample_query :: QueryDesc where
  "sample_query =
     \<lparr>operation = CMD_SELECT, qd_queryId = 7, es_processed = 1, totaltime = None, es_jit = None,
      es_parallel_workers_to_launch = 0, es_parallel_workers_launched = 0\<rparr>"

lemma hook_sample_ok [simp]:
  "strings_ok hook_sample_env" "backend_ok backend_init"
  by (simp_all add: strings_ok_def hook_sample_env_def cstr_def backend_ok_def backend_init_def)

text \<open>
  The sampling filter captures exactly the events at or above the minimum duration, all
  events when the sample rate is 1, and otherwise those for which the random number is below
  the rate.
\<close>

lemma sampling_decision:
  assumes "0 \<le> psch_min_duration_us g" and "psch_min_duration_us g < 2 ^ 31"
  shows "ShouldSampleEvent g env dur \<longleftrightarrow>
     psch_min_duration_us g \<le> uint dur \<or> 1 \<le> psch_sample_rate g \<or>
     (0 < psch_sample_rate g \<and> pg_prng_double env < psch_sample_rate g)"
proof -
  have "uint (word_of_int (psch_min_duration_us g) :: u64) = psch_min_duration_us g"
    using assms by (simp add: uint_word_of_int take_bit_int_eq_self)
  then have "(word_of_int (psch_min_duration_us g) :: u64) \<le> dur \<longleftrightarrow> psch_min_duration_us g \<le> uint dur"
    by (simp add: word_le_def)
  then show ?thesis by (auto simp: ShouldSampleEvent_def)
qed

text \<open>PostgreSQL's packing of an SQLSTATE (\<^verbatim>\<open>MAKE_SQLSTATE\<close>): six bits a character.\<close>

fun make_sqlstate :: "char list \<Rightarrow> int" where
  "make_sqlstate [] = 0"
| "make_sqlstate (c # cs) = take_bit 6 (of_char c - 48) + 64 * make_sqlstate cs"

lemma unpack_make_sqlstate:
  "\<forall>c\<in>set s. 48 \<le> (of_char c :: int) \<and> of_char c < (112 :: int) \<Longrightarrow>
     unpack_sixbits (length s) (make_sqlstate s) = s"
proof (induction s)
  case (Cons c s)
  define x where "x = (of_char c :: int) - 48"
  have x: "0 \<le> x" "x < 64" using Cons.prems by (simp_all add: x_def)
  then have "take_bit 6 x = x" by (simp add: take_bit_eq_mod)
  moreover from x have "take_bit 6 (x + 64 * make_sqlstate s) = x" "drop_bit 6 (x + 64 * make_sqlstate s) = make_sqlstate s"
    by (simp_all add: take_bit_eq_mod drop_bit_eq_div)
  ultimately show ?case using Cons by (simp add: PGUNSIXBIT_def x_def)
qed simp

text \<open>
  C32. Unpacking inverts PostgreSQL's packing: the five characters of the SQLSTATE come back,
  NUL-terminated, and no byte outside the six is written.
\<close>

theorem sqlstate_roundtrip:
  assumes "length s = 5" and "\<forall>c\<in>set s. 48 \<le> (of_char c :: int) \<and> of_char c < (112 :: int)"
    and "length buf = 6"
  shows "UnpackSqlState (make_sqlstate s) buf = Some (s @ [NUL])"
  using unpack_make_sqlstate [OF assms(2)] assms(1,3) by (simp add: UnpackSqlState_def)

theorem sqlstate_roundtrip_witness:
  "UnpackSqlState (make_sqlstate ''42P01'') (replicate 6 NUL) = Some (''42P01'' @ [NUL])"
  by (rule sqlstate_roundtrip) simp_all

text \<open>
  C23. The event for a finished query is built without an access outside any buffer, whatever
  the session cache, the catalogs and the client connection answer, and also when a lookup
  raises. Every text in it is NUL-terminated inside its buffer, its identity is that of the
  query and of the session, it carries no error message, and its query text is exactly the
  one that the cache has for the query id: no other text is ever exported.
\<close>

theorem query_event_well_formed:
  assumes "backend_ok bs" and "strings_ok env" and "event_shape ev"
  shows "ok_res backend_ok
     (\<lambda>bs' ev'. backend_ok bs' \<and>
        built (normalize_cache bs) (start_ts, MyDatabaseId env, GetUserId env, MyProcPid env, is_top,
          ConvertCmdType env (operation qd), qd_queryId qd, query_duration_us env qd start_ts,
          es_processed qd) (qd_queryId qd) ev')
     (BuildEventFromQueryDesc env qd ev start_ts is_top cu cs bs)"
  by (rule BuildEventFromQueryDesc_ok) (use assms in \<open>simp_all add: kept_def\<close>)

theorem query_event_well_formed_witness:
  "ok_res backend_ok
     (\<lambda>bs' ev'. backend_ok bs' \<and>
        built norm_cache_init (42, 5, 10, 4711, True, PSCH_CMD_SELECT, 7, 0, 1) 7 ev')
     (BuildEventFromQueryDesc hook_sample_env sample_query zero_event 42 True 0 0 backend_init)"
  using query_event_well_formed [OF hook_sample_ok(2,1) zero_event_shape, of 42 True sample_query 0 0]
  by (simp add: sample_query_def query_duration_us_def ConvertCmdType_def backend_init_def hook_sample_env_def
      sample_env_def)

end
