(* ===== verification/Psch_Hooks.thy ===== *)
theory Psch_Hooks
  imports Psch_Hook_Event
begin

section \<open>The executor, utility and log hooks (\<^verbatim>\<open>hooks.c\<close>, second half)\<close>

text \<open>
  Each hook wraps a call of the previous hook or of the standard function; that call is an
  argument (\<open>inner\<close>), because it is PostgreSQL's code, and because it re-enters these hooks
  when a function or trigger runs nested statements. A hook is a function on the state of
  the backend: the shared segment and the process state of the queue, and the static
  variables of \<^verbatim>\<open>hooks.c\<close>. Each takes the environment of its own call.

  Statements with their nested statements are a tree, and \<open>exec_stmt\<close> runs a tree through the
  hooks in the order in which PostgreSQL calls them.
\<close>

subsection \<open>State\<close>

record hook_state =
  nesting_level :: int
  rusage_start :: rusage
  current_query_is_top_level :: bool
  query_start_ts :: TimestampTz
  system_init :: bool
  backend_state :: PschBackendState

type_synonym hworld = "world \<times> hook_state"

definition on_backend ::
    "(PschBackendState \<Rightarrow> (PschBackendState, 'a) pgres) \<Rightarrow> hworld \<Rightarrow> (hworld, 'a) pgres" where
  "on_backend f w =
     (case f (backend_state (snd w)) of
        None \<Rightarrow> None
      | Some (bs, r) \<Rightarrow> Some ((fst w, (snd w)\<lparr>backend_state := bs\<rparr>), r))"

definition enqueue_event :: "guc \<Rightarrow> hook_env \<Rightarrow> PschEvent \<Rightarrow> hworld \<Rightarrow> (hworld, unit) pgres" where
  "enqueue_event g env ev w =
     (case PschEnqueueEvent g (pg env) ev (fst w) of
        None \<Rightarrow> None
      | Some (q, r) \<Rightarrow> Some ((q, snd w), case r of Ret _ \<Rightarrow> Ret () | Throw \<Rightarrow> Throw))"

text \<open>\<^verbatim>\<open>nesting_level++; PG_TRY(); inner PG_FINALLY(); nesting_level--; PG_END_TRY();\<close>\<close>

definition with_nesting :: "(hworld \<Rightarrow> (hworld, 'a) pgres) \<Rightarrow> hworld \<Rightarrow> (hworld, 'a) pgres" where
  "with_nesting inner w =
     pg_finally (inner (fst w, (snd w)\<lparr>nesting_level := nesting_level (snd w) + 1\<rparr>))
       (\<lambda>w. (fst w, (snd w)\<lparr>nesting_level := nesting_level (snd w) - 1\<rparr>))"

subsection \<open>Parsing\<close>

record parsed_query =
  pq_queryId :: u64
  stmt_location :: int
  stmt_len :: int

text \<open>The text to export: normalized if there are constants, otherwise the trimmed statement.\<close>

definition exported_query ::
    "hook_env \<Rightarrow> char list \<Rightarrow> int \<Rightarrow> int \<Rightarrow> JumbleState option \<Rightarrow> (char list \<times> int) option option" where
  "exported_query env qtext query_loc qlen jstate =
     (if (case jstate of None \<Rightarrow> False | Some js \<Rightarrow> length (clocations js) > 0)
      then PschNormalizeQuery (norm_scan env) qtext query_loc qlen jstate
      else
        map_option (map_option (\<lambda>s. (s, int (length (cstr s)))))
          (PschCopyTrimmedStatement (Some qtext) qlen))"

definition remember_query ::
    "guc \<Rightarrow> hook_env \<Rightarrow> u64 \<Rightarrow> char list \<Rightarrow> int \<Rightarrow> PschBackendState \<Rightarrow> (PschBackendState, unit) pgres" where
  "remember_query g env k s len bs =
     (case PschRememberNormalizedQuery
             ((norm_mem env)\<lparr>normalize_cache_max := psch_normalize_cache_max g\<rparr>)
             k (Some s) len (normalize_cache bs) of
        None \<Rightarrow> None
      | Some (c, r) \<Rightarrow> Some (bs\<lparr>normalize_cache := c\<rparr>, r))"

definition PschPostParseAnalyze ::
    "guc \<Rightarrow> hook_env \<Rightarrow> (hworld \<Rightarrow> (hworld, unit) pgres) \<Rightarrow> char list \<Rightarrow> parsed_query \<Rightarrow>
       JumbleState option \<Rightarrow> hworld \<Rightarrow> (hworld, unit) pgres" where
  "PschPostParseAnalyze g env prev sourcetext q jstate w =
     pg_bind (prev w) (\<lambda>w _.
       if \<not> psch_enabled g \<or> IsParallelWorker env then pg_ret w ()
       else if pq_queryId q = 0 then pg_ret w ()
       else
         let (qtext, query_loc, qlen) =
               CleanQuerytext env sourcetext (stmt_location q) (stmt_len q)
         in
         case exported_query env qtext query_loc qlen jstate of
           None \<Rightarrow> None
         | Some None \<Rightarrow> pg_ret w ()
         | Some (Some (s, len)) \<Rightarrow> on_backend (remember_query g env (pq_queryId q) s len) w)"

subsection \<open>Executor\<close>

definition PschExecutorStart ::
    "guc \<Rightarrow> hook_env \<Rightarrow> (QueryDesc \<Rightarrow> hworld \<Rightarrow> (hworld, QueryDesc) pgres) \<Rightarrow> QueryDesc \<Rightarrow> hworld \<Rightarrow>
       (hworld, QueryDesc) pgres" where
  "PschExecutorStart g env inner qd w =
     (if IsParallelWorker env then inner qd w
      else
        let hs = snd w;
            hs = (if nesting_level hs = 0
                  then hs\<lparr>current_query_is_top_level := True,
                          query_start_ts := GetCurrentTimestamp (pg env),
                          rusage_start := (case getrusage env of
                                             Some r \<Rightarrow> if psch_enabled g then r else rusage_start hs
                                           | None \<Rightarrow> rusage_start hs)\<rparr>
                  else hs\<lparr>current_query_is_top_level := False\<rparr>)
        in pg_bind (inner qd (fst w, hs)) (\<lambda>w qd.
             if psch_enabled g \<and> qd_queryId qd \<noteq> 0 \<and> totaltime qd = None
             then pg_bind (pg_call w (InstrAlloc env)) (\<lambda>w t. pg_ret w (qd\<lparr>totaltime := Some t\<rparr>))
             else pg_ret w qd))"

definition PschExecutorRun ::
    "hook_env \<Rightarrow> (hworld \<Rightarrow> (hworld, unit) pgres) \<Rightarrow> hworld \<Rightarrow> (hworld, unit) pgres" where
  "PschExecutorRun env inner w =
     (if IsParallelWorker env then inner w else with_nesting inner w)"

definition PschExecutorFinish ::
    "hook_env \<Rightarrow> (hworld \<Rightarrow> (hworld, unit) pgres) \<Rightarrow> hworld \<Rightarrow> (hworld, unit) pgres" where
  "PschExecutorFinish env inner w =
     (if IsParallelWorker env then inner w else with_nesting inner w)"

text \<open>The CPU time since \<open>start\<close>, zero if \<^verbatim>\<open>getrusage\<close> fails.\<close>

definition cpu_delta :: "hook_env \<Rightarrow> rusage \<Rightarrow> i64 \<times> i64" where
  "cpu_delta env start =
     (case getrusage env of
        None \<Rightarrow> (0, 0)
      | Some r \<Rightarrow> (TimeDiffMicrosec (ru_utime r) (ru_utime start),
                   TimeDiffMicrosec (ru_stime r) (ru_stime start)))"

definition PschExecutorEnd ::
    "guc \<Rightarrow> hook_env \<Rightarrow> PschEvent \<Rightarrow> (hworld \<Rightarrow> (hworld, unit) pgres) \<Rightarrow> QueryDesc \<Rightarrow> hworld \<Rightarrow>
       (hworld, unit) pgres" where
  "PschExecutorEnd g env ev inner qd w =
     (if \<not> psch_enabled g \<or> IsParallelWorker env \<or> qd_queryId qd = 0 then inner w
      else
        let qd = qd\<lparr>totaltime := map_option (InstrEndLoop env) (totaltime qd)\<rparr>;
            hs = snd w
        in if \<not> ShouldSampleEvent g env (query_duration_us env qd (query_start_ts hs)) then inner w
           else
             let (cpu_user_us, cpu_sys_us) = cpu_delta env (rusage_start hs) in
             pg_bind (on_backend (BuildEventFromQueryDesc env qd ev (query_start_ts hs)
                        (current_query_is_top_level hs) cpu_user_us cpu_sys_us) w) (\<lambda>w ev.
             pg_bind (enqueue_event g env ev w) (\<lambda>w _. inner w)))"

subsection \<open>Utility statements\<close>

datatype NodeTag =
  T_ExecuteStmt | T_PrepareStmt | T_DeallocateStmt | T_TransactionStmt | T_OtherStmt

datatype CommandTag =
  CMDTAG_COPY | CMDTAG_FETCH | CMDTAG_SELECT | CMDTAG_REFRESH_MATERIALIZED_VIEW | CMDTAG_OTHER

record QueryCompletion =
  commandTag :: CommandTag
  nprocessed :: u64

definition ShouldTrackUtility :: "guc \<Rightarrow> hook_env \<Rightarrow> NodeTag \<Rightarrow> bool" where
  "ShouldTrackUtility g env parsetree =
     (if \<not> psch_enabled g \<or> IsParallelWorker env then False
      else if parsetree = T_ExecuteStmt \<or> parsetree = T_PrepareStmt \<or> parsetree = T_DeallocateStmt then False
      else if parsetree = T_TransactionStmt then False
      else True)"

definition GetUtilityRowCount :: "QueryCompletion option \<Rightarrow> u64" where
  "GetUtilityRowCount qc =
     (case qc of
        None \<Rightarrow> 0
      | Some qc \<Rightarrow>
          (case commandTag qc of
             CMDTAG_COPY \<Rightarrow> nprocessed qc
           | CMDTAG_FETCH \<Rightarrow> nprocessed qc
           | CMDTAG_SELECT \<Rightarrow> nprocessed qc
           | CMDTAG_REFRESH_MATERIALIZED_VIEW \<Rightarrow> nprocessed qc
           | CMDTAG_OTHER \<Rightarrow> 0))"

definition ExecuteUtilityWithNesting ::
    "(hworld \<Rightarrow> (hworld, QueryCompletion option) pgres) \<Rightarrow> hworld \<Rightarrow>
       (hworld, QueryCompletion option) pgres" where
  "ExecuteUtilityWithNesting call w = with_nesting call w"

text \<open>
  \<open>env\<close> is the environment before the call, \<open>env'\<close> the one after it. Where \<^verbatim>\<open>getrusage\<close> fails
  before the call, the local variable keeps the arbitrary bytes it had.
\<close>

definition PschProcessUtility ::
    "guc \<Rightarrow> hook_env \<Rightarrow> hook_env \<Rightarrow> PschEvent \<Rightarrow> (hworld \<Rightarrow> (hworld, QueryCompletion option) pgres) \<Rightarrow>
       NodeTag \<Rightarrow> u64 \<Rightarrow> hworld \<Rightarrow> (hworld, unit) pgres" where
  "PschProcessUtility g env env' ev call parsetree query_id w =
     (if \<not> ShouldTrackUtility g env parsetree then pg_bind (call w) (\<lambda>w _. pg_ret w ())
      else
        let is_top_level = (nesting_level (snd w) = 0);
            start_ts = GetCurrentTimestamp (pg env);
            rusage_util_start = (case getrusage env of Some r \<Rightarrow> r | None \<Rightarrow> rusage_garbage env)
        in pg_bind (ExecuteUtilityWithNesting call w) (\<lambda>w qc.
             let dur = INSTR_TIME_GET_MICROSEC env' (instr_now env' - instr_now env) in
             if \<not> ShouldSampleEvent g env' dur then pg_ret w ()
             else
               let bufusage_delta = BufferUsageAccumDiff env' (pgBufferUsage env') (pgBufferUsage env);
                   walusage_delta = WalUsageAccumDiff env' (pgWalUsage env') (pgWalUsage env);
                   (cpu_user_us, cpu_sys_us) = cpu_delta env' rusage_util_start
               in pg_bind (on_backend (BuildEventForUtility env' ev query_id start_ts dur is_top_level
                             (GetUtilityRowCount qc) bufusage_delta walusage_delta cpu_user_us
                             cpu_sys_us) w) (\<lambda>w ev.
                  enqueue_event g env' ev w)))"

subsection \<open>Log messages\<close>

record ErrorData =
  elevel :: int
  sqlerrcode :: int
  message :: "char list option"

definition ShouldCaptureLog :: "guc \<Rightarrow> hook_env \<Rightarrow> ErrorData option \<Rightarrow> hworld \<Rightarrow> bool" where
  "ShouldCaptureLog g env edata w =
     (case edata of
        None \<Rightarrow> False
      | Some ed \<Rightarrow>
          if \<not> system_init (snd w) \<or> \<not> psch_enabled g \<or> disable_error_capture (snd (fst w)) then False
          else if elevel ed < psch_log_min_elevel g then False
          else if \<not> MyProc env \<or> IsParallelWorker env then False
          else if MyDatabaseId env = InvalidOid \<or> \<not> IsUnderPostmaster env \<or>
                  \<not> psch_shared_state (snd (fst w)) \<or> MyBgworkerEntry env then False
          else True)"

text \<open>The event before it is enqueued.\<close>

definition log_event ::
    "hook_env \<Rightarrow> PschEvent \<Rightarrow> ErrorData \<Rightarrow> bool \<Rightarrow> PschBackendState \<Rightarrow> (PschBackendState, PschEvent) pgres" where
  "log_event env ev ed is_top bs =
     pg_bind (InitBaseEvent env ev (GetCurrentTimestamp (pg env)) is_top PSCH_CMD_UNKNOWN bs) (\<lambda>bs ev.
     pg_bind (pg_opt bs (UnpackSqlState (sqlerrcode ed) (err_sqlstate ev))) (\<lambda>bs st.
     let ev = ev\<lparr>err_sqlstate := st, err_elevel := word_of_int (elevel ed)\<rparr> in
     pg_bind (case message ed of
                None \<Rightarrow> pg_ret bs ev
              | Some msg \<Rightarrow>
                  pg_bind (pg_opt bs (PschCopyTrimmed (err_message ev) (of_nat PSCH_MAX_ERR_MSG_LEN) (Some msg)))
                    (\<lambda>bs (buf, n). pg_ret bs (ev\<lparr>err_message := buf, err_message_len := of_nat n\<rparr>)))
       (\<lambda>bs ev. CopyClientContext env ev bs)))"

definition CaptureLogEvent ::
    "guc \<Rightarrow> hook_env \<Rightarrow> PschEvent \<Rightarrow> ErrorData \<Rightarrow> hworld \<Rightarrow> (hworld, unit) pgres" where
  "CaptureLogEvent g env ev ed w =
     pg_bind (on_backend (log_event env ev ed (nesting_level (snd w) = 0)) w) (\<lambda>w ev.
       enqueue_event g env ev w)"

definition set_capture_guard :: "bool \<Rightarrow> hworld \<Rightarrow> hworld" where
  "set_capture_guard b w =
     ((fst (fst w), (snd (fst w))\<lparr>disable_error_capture := b\<rparr>), snd w)"

text \<open>
  The previous hook may rewrite the report. \<^verbatim>\<open>PG_CATCH\<close> drops the error of the capture
  (\<^verbatim>\<open>FlushErrorState\<close>).
\<close>

definition PschEmitLogHook ::
    "guc \<Rightarrow> hook_env \<Rightarrow> PschEvent \<Rightarrow> (ErrorData option \<Rightarrow> hworld \<Rightarrow> hworld \<times> ErrorData option) \<Rightarrow>
       ErrorData option \<Rightarrow> hworld \<Rightarrow> (hworld, unit) pgres" where
  "PschEmitLogHook g env ev prev edata w =
     (let (w, edata) = prev edata w in
      if \<not> ShouldCaptureLog g env edata w then pg_ret w ()
      else
        case edata of
          None \<Rightarrow> pg_ret w ()
        | Some ed \<Rightarrow>
            pg_bind (pg_catch (CaptureLogEvent g env ev ed (set_capture_guard True w)) (\<lambda>w. pg_ret w ()))
              (\<lambda>w _. pg_ret (set_capture_guard False w) ()))"

subsection \<open>Installation\<close>

text \<open>The hook variables of the server, each with the extension that was there before.\<close>

datatype hook_fn = NoHook | OtherHook nat | PschHook

record server_hooks =
  post_parse_analyze_hook :: hook_fn
  ExecutorStart_hook :: hook_fn
  ExecutorRun_hook :: hook_fn
  ExecutorFinish_hook :: hook_fn
  ExecutorEnd_hook :: hook_fn
  ProcessUtility_hook :: hook_fn
  emit_log_hook :: hook_fn
  query_id_enabled :: bool

text \<open>The result: the server's hooks, the saved previous ones, and \<^verbatim>\<open>system_init\<close>.\<close>

definition PschInstallHooks ::
    "nat \<Rightarrow> server_hooks \<Rightarrow> hook_state \<Rightarrow> server_hooks \<times> server_hooks \<times> hook_state" where
  "PschInstallHooks version sv hs =
     (sv\<lparr>query_id_enabled := (if version \<ge> 140000 then True else query_id_enabled sv),
         post_parse_analyze_hook := PschHook, ExecutorStart_hook := PschHook,
         ExecutorRun_hook := PschHook, ExecutorFinish_hook := PschHook,
         ExecutorEnd_hook := PschHook, ProcessUtility_hook := PschHook, emit_log_hook := PschHook\<rparr>,
      sv, hs\<lparr>system_init := True\<rparr>)"

subsection \<open>Statement trees\<close>

text \<open>
  \<open>Query env env' qd body raises after after_raises\<close>: a planned statement that \<open>body\<close> runs under; it
  starts in \<open>env\<close>, ends in \<open>env'\<close>, and fails at the end of its run if \<open>raises\<close>. \<open>after\<close> are the
  statements of the triggers that \<^verbatim>\<open>ExecutorFinish\<close> fires, which fails if \<open>after_raises\<close>. \<open>Util\<close> is
  a utility statement, \<open>Block\<close> a block with an exception handler, which swallows an error of its
  body, and \<open>Log\<close> a message below \<^verbatim>\<open>ERROR\<close>, which \<^verbatim>\<open>errfinish\<close> hands to the log hook at once. An error
  is reported only when no block has caught it, after the unwinding (\<open>exec_toplevel\<close>).
\<close>

datatype stmt =
    Query hook_env hook_env QueryDesc "stmt list" bool "stmt list" bool
  | Util hook_env hook_env NodeTag u64 "QueryCompletion option" "stmt list" bool
  | Block "stmt list"
  | Log hook_env ErrorData

definition then_raise :: "bool \<Rightarrow> 'a \<Rightarrow> (hworld \<Rightarrow> (hworld, unit) pgres) \<Rightarrow> hworld \<Rightarrow> (hworld, 'a) pgres" where
  "then_raise b x f w = pg_bind (f w) (\<lambda>w _. if b then Some (w, Throw) else pg_ret w x)"

text \<open>The calls of a planned statement before \<^verbatim>\<open>ExecutorEnd\<close>.\<close>

definition run_query ::
    "guc \<Rightarrow> hook_env \<Rightarrow> QueryDesc \<Rightarrow> (hworld \<Rightarrow> (hworld, unit) pgres) \<Rightarrow> bool \<Rightarrow>
       (hworld \<Rightarrow> (hworld, unit) pgres) \<Rightarrow> bool \<Rightarrow> hworld \<Rightarrow> (hworld, QueryDesc) pgres" where
  "run_query g env qd body raises after after_raises w =
     pg_bind (PschExecutorStart g env (\<lambda>qd w. pg_ret w qd) qd w) (\<lambda>w qd.
     pg_bind (PschExecutorRun env (then_raise raises () body) w) (\<lambda>w _.
     pg_bind (PschExecutorFinish env (then_raise after_raises () after) w) (\<lambda>w _. pg_ret w qd)))"

fun exec_stmt :: "guc \<Rightarrow> PschEvent \<Rightarrow> stmt \<Rightarrow> hworld \<Rightarrow> (hworld, unit) pgres"
  and exec_stmts :: "guc \<Rightarrow> PschEvent \<Rightarrow> stmt list \<Rightarrow> hworld \<Rightarrow> (hworld, unit) pgres" where
  "exec_stmt g ev (Query env env' qd body raises after after_raises) =
     (\<lambda>w. pg_bind (run_query g env qd (exec_stmts g ev body) raises (exec_stmts g ev after) after_raises w)
            (\<lambda>w qd. PschExecutorEnd g env' ev (\<lambda>w. pg_ret w ()) qd w))"
| "exec_stmt g ev (Util env env' tag k qc body raises) =
     PschProcessUtility g env env' ev (then_raise raises qc (exec_stmts g ev body)) tag k"
| "exec_stmt g ev (Block body) = (\<lambda>w. pg_catch (exec_stmts g ev body w) (\<lambda>w. pg_ret w ()))"
| "exec_stmt g ev (Log env ed) = PschEmitLogHook g env ev (\<lambda>e w. (w, e)) (Some ed)"
| "exec_stmts g ev [] = (\<lambda>w. pg_ret w ())"
| "exec_stmts g ev (s # ss) = (\<lambda>w. pg_bind (exec_stmt g ev s w) (\<lambda>w _. exec_stmts g ev ss w))"

text \<open>The server's main loop: it reports the error \<open>ed\<close> that no block has caught and goes on.\<close>

definition exec_toplevel ::
    "guc \<Rightarrow> PschEvent \<Rightarrow> hook_env \<Rightarrow> ErrorData \<Rightarrow> stmt \<Rightarrow> hworld \<Rightarrow> (hworld, unit) pgres" where
  "exec_toplevel g ev env ed s w =
     pg_catch (exec_stmt g ev s w) (PschEmitLogHook g env ev (\<lambda>e w. (w, e)) (Some ed))"

subsection \<open>Safety\<close>

text \<open>
  The invariant of a backend between hook calls: the queue's and the cache's invariants, the
  nesting level \<open>n\<close> and the capture guard \<open>d\<close>.
\<close>

definition hook_inv :: "int \<Rightarrow> bool \<Rightarrow> hworld \<Rightarrow> bool" where
  "hook_inv n d w \<longleftrightarrow>
     producer_ok (fst (fst w)) (snd (fst w)) \<and> backend_ok (backend_state (snd w)) \<and>
     nesting_level (snd w) = n \<and> disable_error_capture (snd (fst w)) = d"

definition hook_env_ok :: "hook_env \<Rightarrow> bool" where
  "hook_env_ok env \<longleftrightarrow> strings_ok env \<and> env_ok (pg env)"

abbreviation safe :: "int \<Rightarrow> bool \<Rightarrow> (hworld, 'a) pgres \<Rightarrow> bool" where
  "safe n d m \<equiv> ok_res (hook_inv n d) (\<lambda>w _. hook_inv n d w) m"

lemma hook_inv_flags [simp]:
  "hook_inv n d (q, hs\<lparr>current_query_is_top_level := b\<rparr>) = hook_inv n d (q, hs)"
  "hook_inv n d (q, hs\<lparr>query_start_ts := t\<rparr>) = hook_inv n d (q, hs)"
  "hook_inv n d (q, hs\<lparr>rusage_start := r\<rparr>) = hook_inv n d (q, hs)"
  by (simp_all add: hook_inv_def)

lemma safe_bind:
  "safe n d m \<Longrightarrow> (\<And>w x. hook_inv n d w \<Longrightarrow> safe n d (f w x)) \<Longrightarrow> safe n d (pg_bind m f)"
  by (rule ok_bind)

lemma on_backend_safe:
  assumes "hook_inv n d w"
    and "ok_res backend_ok (\<lambda>bs x. backend_ok bs \<and> Q x) (f (backend_state (snd w)))"
  shows "ok_res (hook_inv n d) (\<lambda>w x. hook_inv n d w \<and> Q x) (on_backend f w)"
  by (rule ok_resE [OF assms(2)]) (use assms(1) in \<open>auto simp: on_backend_def hook_inv_def\<close>)

lemma hook_enqueue_safe:
  assumes "hook_inv n d w" and "env_ok (pg env)" and "event_shape ev"
  shows "safe n d (enqueue_event g env ev w)"
proof -
  obtain sh' p' r where "PschEnqueueEvent g (pg env) ev (fst (fst w), snd (fst w)) = Some ((sh', p'), r)"
      "producer_ok sh' p'" "disable_error_capture p' = disable_error_capture (snd (fst w))"
    using PschEnqueueEvent_safe [OF _ assms(2,3), of "fst (fst w)" "snd (fst w)" g] assms(1)
    unfolding hook_inv_def by blast
  then show ?thesis using assms(1)
    by (cases r) (auto simp: enqueue_event_def hook_inv_def)
qed

lemma with_nesting_safe:
  assumes "hook_inv n d w" and "\<And>w. hook_inv (n + 1) d w \<Longrightarrow> safe (n + 1) d (inner w)"
  shows "safe n d (with_nesting inner w)"
  unfolding with_nesting_def
proof (rule ok_finally, rule ok_weaken [OF assms(2)])
  show "hook_inv (n + 1) d (fst w, (snd w)\<lparr>nesting_level := nesting_level (snd w) + 1\<rparr>)"
    using assms(1) by (simp add: hook_inv_def)
qed (auto simp: hook_inv_def)

lemma PschExecutorRun_safe:
  assumes "hook_inv n d w" and "\<And>m w. hook_inv m d w \<Longrightarrow> safe m d (inner w)"
  shows "safe n d (PschExecutorRun env inner w)" "safe n d (PschExecutorFinish env inner w)"
  using assms(2) [OF assms(1)] with_nesting_safe [OF assms(1), of inner] assms(2)
  by (simp_all add: PschExecutorRun_def PschExecutorFinish_def)

lemma PschExecutorStart_safe:
  assumes "hook_inv n d w" and "\<And>qd w. hook_inv n d w \<Longrightarrow> safe n d (inner qd w)"
  shows "safe n d (PschExecutorStart g env inner qd w)"
proof -
  let ?hs = "if nesting_level (snd w) = 0
    then (snd w)\<lparr>current_query_is_top_level := True, query_start_ts := GetCurrentTimestamp (pg env),
           rusage_start := (case getrusage env of
              Some r \<Rightarrow> if psch_enabled g then r else rusage_start (snd w) | None \<Rightarrow> rusage_start (snd w))\<rparr>
    else (snd w)\<lparr>current_query_is_top_level := False\<rparr>"
  have "hook_inv n d (fst w, ?hs)" using assms(1) by simp
  then show ?thesis
    using assms unfolding PschExecutorStart_def Let_def
    by (auto intro!: safe_bind assms(2) ok_call)
qed

lemma PschExecutorEnd_safe:
  assumes inv: "hook_inv n d w" and env: "hook_env_ok env" and ev: "event_shape ev"
    and inner: "\<And>w. hook_inv n d w \<Longrightarrow> safe n d (inner w)"
  shows "safe n d (PschExecutorEnd g env ev inner qd w)"
proof -
  have bs: "kept (normalize_cache (backend_state (snd w))) (backend_state (snd w))"
    using inv by (simp add: hook_inv_def kept_def)
  have e: "strings_ok env" "env_ok (pg env)" using env by (simp_all add: hook_env_ok_def)
  have build: "ok_res (hook_inv n d) (\<lambda>w ev. hook_inv n d w \<and> event_shape ev)
      (on_backend (BuildEventFromQueryDesc env qd' ev ts t cu cs) w)" for qd' ts t cu cs
    by (rule on_backend_safe [OF inv], rule ok_weaken [OF BuildEventFromQueryDesc_ok [OF bs e(1) ev]])
       (auto simp: built_def event_wf_def)
  have send: "safe n d (pg_bind (enqueue_event g env ev' w') (\<lambda>w _. inner w))"
    if "hook_inv n d w' \<and> event_shape ev'" for w' ev'
    by (rule safe_bind [OF hook_enqueue_safe [OF _ e(2)] inner]) (use that in blast)+
  show ?thesis
    using inner [OF inv] ok_bind [OF build send] unfolding PschExecutorEnd_def Let_def
    by (simp split: prod.split)
qed

lemma PschProcessUtility_safe:
  assumes inv: "hook_inv n d w" and env: "hook_env_ok env'" and ev: "event_shape ev"
    and call: "\<And>m w. hook_inv m d w \<Longrightarrow> safe m d (call w)"
  shows "safe n d (PschProcessUtility g env env' ev call tag k w)"
proof -
  have e: "strings_ok env'" "env_ok (pg env')" using env by (simp_all add: hook_env_ok_def)
  have "ok_res (hook_inv n d) (\<lambda>w ev. hook_inv n d w \<and> event_shape ev)
      (on_backend (BuildEventForUtility env' ev k ts dur t nrows bu wu cu cs) w)"
    if "hook_inv n d w" for w ts dur t nrows bu wu cu cs
  proof -
    have bs: "kept (normalize_cache (backend_state (snd w))) (backend_state (snd w))"
      using that by (simp add: hook_inv_def kept_def)
    show ?thesis
      by (rule on_backend_safe [OF that], rule ok_weaken [OF BuildEventForUtility_ok [OF bs e(1) ev]])
         (auto simp: built_def event_wf_def)
  qed
  note build = this
  have "safe n d (ExecuteUtilityWithNesting call w)"
    unfolding ExecuteUtilityWithNesting_def by (rule with_nesting_safe [OF inv call])
  then show ?thesis
    using call [OF inv] ok_bind [OF build hook_enqueue_safe [OF _ e(2)]]
    unfolding PschProcessUtility_def Let_def
    by (auto intro!: safe_bind split: prod.split)
qed

text \<open>Capturing a log message.\<close>

lemma log_event_ok:
  assumes ok: "backend_ok bs" and env: "strings_ok env" and ev: "event_shape ev"
    and msg: "pred_option (\<lambda>s. length (cstr s) < 2 ^ 64) (message ed)"
  shows "ok_res backend_ok (\<lambda>bs ev'. backend_ok bs \<and> event_wf ev' \<and> query_len ev' = 0)
     (log_event env ev ed is_top bs)"
proof -
  let ?c = "normalize_cache bs"
  have k: "kept ?c bs" using ok by (simp add: kept_def)
  have "ok_res backend_ok (\<lambda>bs ev'. backend_ok bs \<and> event_wf ev' \<and> query_len ev' = 0)
     (pg_bind (pg_opt bs1 (UnpackSqlState (sqlerrcode ed) (err_sqlstate ev1))) (\<lambda>bs st.
     let ev = ev1\<lparr>err_sqlstate := st, err_elevel := word_of_int (elevel ed)\<rparr> in
     pg_bind (case message ed of
                None \<Rightarrow> pg_ret bs ev
              | Some msg \<Rightarrow>
                  pg_bind (pg_opt bs (PschCopyTrimmed (err_message ev) (of_nat PSCH_MAX_ERR_MSG_LEN) (Some msg)))
                    (\<lambda>bs (buf, n). pg_ret bs (ev\<lparr>err_message := buf, err_message_len := of_nat n\<rparr>)))
       (\<lambda>bs ev. CopyClientContext env ev bs)))"
    if A: "kept ?c bs1" "event_wf ev1" "query_len ev1 = 0" for bs1 ev1
  proof -
    have len: "length (err_sqlstate ev1) = 6" "length (err_message ev1) = 2048"
      using A(2) by (simp_all add: event_wf_def event_shape_def)
    define ev2 where "ev2 = ev1\<lparr>err_sqlstate := unpack_sixbits 5 (sqlerrcode ed) @ [NUL],
        err_elevel := word_of_int (elevel ed)\<rparr>"
    have sx: "length (unpack_sixbits n s) = n" for n s by (induction n arbitrary: s) auto
    have u: "UnpackSqlState (sqlerrcode ed) (err_sqlstate ev1) = Some (unpack_sixbits 5 (sqlerrcode ed) @ [NUL])"
      using len(1) by (simp add: UnpackSqlState_def)
    have ev2: "event_wf ev2" "query_len ev2 = 0"
      using A by (simp_all add: ev2_def event_wf_def event_shape_def sx)
    have m: "ok_res backend_ok (\<lambda>bs ev. kept ?c bs \<and> event_wf ev \<and> query_len ev = 0)
        (case message ed of
                None \<Rightarrow> pg_ret bs1 ev2
              | Some msg \<Rightarrow>
                  pg_bind (pg_opt bs1 (PschCopyTrimmed (err_message ev2) (of_nat PSCH_MAX_ERR_MSG_LEN) (Some msg)))
                    (\<lambda>bs (buf, n). pg_ret bs (ev2\<lparr>err_message := buf, err_message_len := of_nat n\<rparr>)))"
    proof (cases "message ed")
      case None
      then show ?thesis using A ev2 by simp
    next
      case (Some s)
      define t where "t = rtrim (take 2047 (ltrim (cstr s)))"
      have "length t \<le> 2047" using rtrim_length [of "take 2047 (ltrim (cstr s))"] by (simp add: t_def)
      then have n: "unat (of_nat (length t) :: u16) = length t" by (simp add: unat_of_nat take_bit_nat_eq_self)
      obtain b where b: "PschCopyTrimmed (err_message ev2) (of_nat PSCH_MAX_ERR_MSG_LEN) (Some s) = Some (b, length t)"
          "length b = 2048" "holds_str b t"
        using copy_trimmed_holds [of "of_nat PSCH_MAX_ERR_MSG_LEN" "err_message ev2" s] len msg Some
        by (auto simp: t_def ev2_def)
      then show ?thesis using Some A ev2 n terminated_holds [OF b(3)]
        by (simp add: event_wf_def event_shape_def)
    qed
    have cc: "ok_res backend_ok (\<lambda>bs ev'. backend_ok bs \<and> event_wf ev' \<and> query_len ev' = 0)
        (CopyClientContext env ev3 bs3)" if B: "kept ?c bs3 \<and> event_wf ev3 \<and> query_len ev3 = 0" for bs3 ev3
    proof (rule ok_weaken [OF CopyClientContext_ok [of ?c bs3 env ev3]])
      fix bs' ev' assume "kept ?c bs' \<and> event_wf ev' \<and> but_client ev' = but_client ev3"
      then show "backend_ok bs' \<and> event_wf ev' \<and> query_len ev' = 0"
        using B but_clientD(3) [of ev' ev3] by (auto simp: kept_def)
    qed (use B env in \<open>auto intro: kept_backend_ok\<close>)
    show ?thesis
      unfolding u pg_opt_simps pg_bind_ret Let_def ev2_def [symmetric] by (rule ok_bind [OF m cc])
  qed
  then show ?thesis
    unfolding log_event_def
    by (intro ok_bind [OF ok_weaken [OF InitBaseEvent_ok [OF k env ev] kept_backend_ok]]) auto
qed

lemma CaptureLogEvent_safe:
  assumes "hook_inv n d w" and "hook_env_ok env" and "event_shape ev"
    and "pred_option (\<lambda>s. length (cstr s) < 2 ^ 64) (message ed)"
  shows "safe n d (CaptureLogEvent g env ev ed w)"
proof -
  have e: "strings_ok env" "env_ok (pg env)" using assms(2) by (simp_all add: hook_env_ok_def)
  have "ok_res (hook_inv n d) (\<lambda>w ev. hook_inv n d w \<and> event_shape ev)
     (on_backend (log_event env ev ed (nesting_level (snd w) = 0)) w)"
    by (rule on_backend_safe [OF assms(1)], rule ok_weaken [OF log_event_ok [OF _ e(1) assms(3,4)]])
       (use assms(1) in \<open>auto simp: hook_inv_def event_wf_def\<close>)
  then show ?thesis
    unfolding CaptureLogEvent_def by (rule ok_bind) (auto intro: hook_enqueue_safe [OF _ e(2)])
qed

lemma emit_log_hook_returns:
  assumes "prev edata w = (w1, edata')" and "hook_inv n d w1" and "hook_env_ok env" and "event_shape ev"
    and "\<forall>ed. edata' = Some ed \<longrightarrow> pred_option (\<lambda>s. length (cstr s) < 2 ^ 64) (message ed)"
  shows "\<exists>w'. PschEmitLogHook g env ev prev edata w = pg_ret w' () \<and> hook_inv n d w' \<and> (d \<longrightarrow> w' = w1)"
proof (cases "ShouldCaptureLog g env edata' w1")
  case False
  then show ?thesis using assms(1,2) by (intro exI [of _ w1]) (simp add: PschEmitLogHook_def)
next
  case True
  then obtain ed where ed: "edata' = Some ed" and guard: "\<not> disable_error_capture (snd (fst w1))"
    by (auto simp: ShouldCaptureLog_def split: option.splits if_splits)
  have d: "\<not> d" using guard assms(2) by (simp add: hook_inv_def)
  let ?m = "pg_catch (CaptureLogEvent g env ev ed (set_capture_guard True w1)) (\<lambda>w. pg_ret w ())"
  have on: "hook_inv n True (set_capture_guard True w1)"
    using assms(2) by (simp add: hook_inv_def set_capture_guard_def producer_ok_def batch_inv_def proc_ready_def)
  have "ok_res (\<lambda>_. False) (\<lambda>w _. hook_inv n True w) ?m"
    by (rule ok_catch [OF CaptureLogEvent_safe [OF on assms(3,4)]]) (use assms(5) ed in auto)
  then obtain w2 where w2: "?m = Some (w2, Ret ())" "hook_inv n True w2" by (rule ok_resE) auto
  have "hook_inv n False (set_capture_guard False w2)"
    using w2(2) by (simp add: hook_inv_def set_capture_guard_def producer_ok_def batch_inv_def proc_ready_def)
  moreover have "PschEmitLogHook g env ev prev edata w = pg_ret (set_capture_guard False w2) ()"
    using True ed assms(1) w2(1) by (simp add: PschEmitLogHook_def)
  ultimately show ?thesis using d by (intro exI [of _ "set_capture_guard False w2"]) simp
qed

text \<open>The environments of all statements of a tree keep their contracts.\<close>

definition report_ok :: "ErrorData \<Rightarrow> bool" where
  "report_ok ed \<longleftrightarrow> pred_option (\<lambda>s. length (cstr s) < 2 ^ 64) (message ed)"

lemma log_safe:
  assumes "hook_inv n d w" and "hook_env_ok env" and "event_shape ev" and "report_ok ed"
  shows "safe n d (PschEmitLogHook g env ev (\<lambda>e w. (w, e)) (Some ed) w)"
  using emit_log_hook_returns [of "\<lambda>e w. (w, e)" "Some ed" w w "Some ed" n d env ev g] assms
  by (auto simp: report_ok_def)

fun stmt_ok :: "stmt \<Rightarrow> bool" where
  "stmt_ok (Query env env' qd body raises after after_raises) =
     (hook_env_ok env' \<and> (\<forall>s\<in>set body. stmt_ok s) \<and> (\<forall>s\<in>set after. stmt_ok s))"
| "stmt_ok (Util env env' tag k qc body raises) = (hook_env_ok env' \<and> (\<forall>s\<in>set body. stmt_ok s))"
| "stmt_ok (Block body) = (\<forall>s\<in>set body. stmt_ok s)"
| "stmt_ok (Log env ed) = (hook_env_ok env \<and> report_ok ed)"

lemma then_raise_safe:
  "safe n d (f w) \<Longrightarrow> safe n d (then_raise b x f w)"
  unfolding then_raise_def by (rule safe_bind) auto

lemma run_query_safe:
  assumes "hook_inv n d w" and "\<And>m w. hook_inv m d w \<Longrightarrow> safe m d (body w)"
    and "\<And>m w. hook_inv m d w \<Longrightarrow> safe m d (after w)"
  shows "safe n d (run_query g env qd body raises after after_raises w)"
  unfolding run_query_def
  by (intro safe_bind PschExecutorStart_safe PschExecutorRun_safe then_raise_safe assms) auto

lemma exec_safe:
  "event_shape ev \<Longrightarrow> stmt_ok s \<Longrightarrow> hook_inv n d w \<Longrightarrow> safe n d (exec_stmt g ev s w)"
  "event_shape ev \<Longrightarrow> \<forall>s\<in>set ss. stmt_ok s \<Longrightarrow> hook_inv n d w \<Longrightarrow> safe n d (exec_stmts g ev ss w)"
proof (induction g ev s and g ev ss arbitrary: n w and n w rule: exec_stmt_exec_stmts.induct)
  case (1 g ev env env' qd body raises after after_raises)
  have "safe n d (run_query g env qd (exec_stmts g ev body) raises (exec_stmts g ev after) after_raises w)"
    by (rule run_query_safe [OF 1(5)]) (use 1 in auto)
  then show ?case
    using 1(3,4) by (auto intro!: safe_bind PschExecutorEnd_safe)
next
  case (2 g ev env env' tag k qc body raises)
  have "safe m d (then_raise raises qc (exec_stmts g ev body) w)" if "hook_inv m d w" for m w
    by (rule then_raise_safe) (use 2 that in auto)
  then show ?case using 2(2-4) by (auto intro!: PschProcessUtility_safe)
next
  case (3 g ev body)
  then have "safe n d (exec_stmts g ev body w)" by simp
  then show ?case by (auto intro: ok_catch)
next
  case (4 g ev env ed)
  then show ?case by (simp add: log_safe)
next
  case (5 g ev)
  then show ?case by simp
next
  case (6 g ev s ss)
  have "safe n d (exec_stmt g ev s w)" by (rule 6(1)) (use 6(3-5) in simp_all)
  then show ?case
    unfolding exec_stmts.simps by (rule safe_bind) (rule 6(2), use 6(3,4) in simp_all)
qed

subsection \<open>The top-level flag\<close>

text \<open>
  A statement that runs inside another one never sets the flag: whatever ends, by return or
  error, leaves the nesting level as it was and the flag as it was or cleared.
\<close>

definition nested_ok :: "hworld \<Rightarrow> hworld \<Rightarrow> bool" where
  "nested_ok w w' \<longleftrightarrow>
     nesting_level (snd w') = nesting_level (snd w) \<and>
     (current_query_is_top_level (snd w') \<longrightarrow> current_query_is_top_level (snd w))"

definition nests :: "hworld \<Rightarrow> (hworld, 'a) pgres \<Rightarrow> bool" where
  "nests w m \<longleftrightarrow> (\<forall>w' r. m = Some (w', r) \<longrightarrow> nested_ok w w')"

lemma nested_ok_refl [simp]: "nested_ok w w"
  by (simp add: nested_ok_def)

lemma nested_ok_trans: "nested_ok a b \<Longrightarrow> nested_ok b c \<Longrightarrow> nested_ok a c"
  by (simp add: nested_ok_def)

lemma nests_ret [simp]: "nests w (pg_ret w' x) = nested_ok w w'" "nests w (Some (w', r)) = nested_ok w w'"
  by (simp_all add: nests_def pg_ret_def)

lemma nests_bind:
  "nests w m \<Longrightarrow> (\<And>w' x. nested_ok w w' \<Longrightarrow> nests w (f w' x)) \<Longrightarrow> nests w (pg_bind m f)"
  unfolding nests_def pg_bind_def by (fastforce split: option.splits prod.splits outcome.splits)

lemma nests_trans: "nested_ok w w' \<Longrightarrow> nests w' m \<Longrightarrow> nests w m"
  unfolding nests_def using nested_ok_trans by blast

lemma nests_on_backend: "nested_ok w0 w \<Longrightarrow> nests w0 (on_backend f w)"
  by (auto simp: nests_def on_backend_def nested_ok_def split: option.splits)

lemma nests_enqueue: "nested_ok w0 w \<Longrightarrow> nests w0 (enqueue_event g env ev w)"
  by (auto simp: nests_def enqueue_event_def nested_ok_def split: option.splits)

lemma nests_catch:
  "nests w m \<Longrightarrow> (\<And>w'. nested_ok w w' \<Longrightarrow> nests w (h w')) \<Longrightarrow> nests w (pg_catch m h)"
  unfolding nests_def pg_catch_def by (fastforce split: option.splits prod.splits outcome.splits)

lemma nests_with_nesting:
  assumes "\<And>w'. nesting_level (snd w') = nesting_level (snd w) + 1 \<Longrightarrow> nests w' (inner w')"
  shows "nests w (with_nesting inner w)"
proof -
  define w1 where "w1 = (fst w, (snd w)\<lparr>nesting_level := nesting_level (snd w) + 1\<rparr>)"
  have "nests w1 (inner w1)" by (rule assms) (simp add: w1_def)
  then have "nests w (pg_finally (inner w1) (\<lambda>w. (fst w, (snd w)\<lparr>nesting_level := nesting_level (snd w) - 1\<rparr>)))"
    by (cases "inner w1") (auto simp: nests_def nested_ok_def w1_def)
  then show ?thesis by (simp add: with_nesting_def w1_def)
qed

lemma nests_then_raise: "nests w (f w) \<Longrightarrow> nests w (then_raise b x f w)"
  unfolding then_raise_def by (rule nests_bind) auto

text \<open>The calls at the end of a statement keep the flag and the level.\<close>

lemma nests_end:
  assumes "nested_ok w0 w"
  shows "nests w0 (PschExecutorEnd g env ev (\<lambda>w. pg_ret w ()) qd w)"
  unfolding PschExecutorEnd_def Let_def
  using assms by (auto intro!: nests_bind nests_on_backend nests_enqueue split: prod.split)

lemma nests_log: "nests w (PschEmitLogHook g env ev (\<lambda>e w. (w, e)) ed w)"
proof -
  have guard: "nested_ok w0 (set_capture_guard b w) = nested_ok w0 w" for w0 w b
    by (simp add: nested_ok_def set_capture_guard_def)
  have "nests w (CaptureLogEvent g env ev r (set_capture_guard True w))" for r
    unfolding CaptureLogEvent_def by (rule nests_bind [OF nests_on_backend nests_enqueue]) (simp_all add: guard)
  then show ?thesis
    by (auto simp: PschEmitLogHook_def guard split: option.split intro!: nests_bind nests_catch)
qed

lemma nests_start:
  assumes "1 \<le> nesting_level (snd w)"
  shows "nests w (PschExecutorStart g env (\<lambda>qd w. pg_ret w qd) qd w)"
    and "PschExecutorStart g env (\<lambda>qd w. pg_ret w qd) qd w = Some (w', Ret qd') \<Longrightarrow>
           \<not> IsParallelWorker env \<Longrightarrow> \<not> current_query_is_top_level (snd w')"
  using assms
  by (auto simp: PschExecutorStart_def pg_ret_def pg_call_def nests_def nested_ok_def pg_bind_eq_Some Let_def
      split: if_splits)

lemma nests_utility:
  assumes "\<And>w'. nesting_level (snd w) \<le> nesting_level (snd w') \<Longrightarrow> nests w' (call w')"
  shows "nests w (PschProcessUtility g env env' ev call tag k w)"
proof (cases "ShouldTrackUtility g env tag")
  case True
  have "nests w (ExecuteUtilityWithNesting call w)"
    unfolding ExecuteUtilityWithNesting_def by (rule nests_with_nesting, rule assms, simp)
  moreover have "nests w (if b then pg_ret w' () else
      case cd of (cu, cs) \<Rightarrow> pg_bind (on_backend (f cu cs) w') (\<lambda>w ev. enqueue_event g env' ev w))"
    if "nested_ok w w'" for b cd f w'
    using that by (cases cd) (auto intro!: nests_bind nests_enqueue nests_on_backend)
  ultimately show ?thesis
    unfolding PschProcessUtility_def Let_def if_not_P [OF not_not [THEN iffD2, OF True]]
    by (rule nests_bind)
next
  case False
  have "nests w (call w)" by (rule assms) simp
  then have "nests w (pg_bind (call w) (\<lambda>w _. pg_ret w ()))" by (rule nests_bind) simp
  then show ?thesis unfolding PschProcessUtility_def Let_def using False by simp
qed

lemma nests_run:
  assumes "\<And>w'. nesting_level (snd w) \<le> nesting_level (snd w') \<Longrightarrow> nests w' (inner w')"
  shows "nests w (PschExecutorRun env inner w)" "nests w (PschExecutorFinish env inner w)"
proof -
  have "nests w (with_nesting inner w)" by (rule nests_with_nesting, rule assms, simp)
  moreover have "nests w (inner w)" by (rule assms) simp
  ultimately show "nests w (PschExecutorRun env inner w)" "nests w (PschExecutorFinish env inner w)"
    by (simp_all add: PschExecutorRun_def PschExecutorFinish_def)
qed

text \<open>The run and the triggers of a statement, after its start.\<close>

lemma nests_run_finish:
  assumes "\<And>w'. nesting_level (snd w) \<le> nesting_level (snd w') \<Longrightarrow> nests w' (body w')"
    and "\<And>w'. nesting_level (snd w) \<le> nesting_level (snd w') \<Longrightarrow> nests w' (after w')"
  shows "nests w (pg_bind (PschExecutorRun env (then_raise r () body) w)
      (\<lambda>w _. pg_bind (PschExecutorFinish env (then_raise r' () after) w) (\<lambda>w _. pg_ret w x)))"
proof (rule nests_bind)
  show "nests w (PschExecutorRun env (then_raise r () body) w)"
    by (rule nests_run) (auto intro!: nests_then_raise assms(1))
next
  fix w1 assume w1: "nested_ok w w1"
  then have "nests w1 (PschExecutorFinish env (then_raise r' () after) w1)"
    by (intro nests_run(2)) (auto intro!: nests_then_raise assms(2) simp: nested_ok_def)
  from nests_trans [OF w1 this]
  show "nests w (pg_bind (PschExecutorFinish env (then_raise r' () after) w1) (\<lambda>w _. pg_ret w x))"
    by (rule nests_bind) simp
qed

lemma nests_run_query:
  assumes "1 \<le> nesting_level (snd w)"
    and "\<And>w'. nesting_level (snd w) \<le> nesting_level (snd w') \<Longrightarrow> nests w' (body w')"
    and "\<And>w'. nesting_level (snd w) \<le> nesting_level (snd w') \<Longrightarrow> nests w' (after w')"
  shows "nests w (run_query g env qd body raises after after_raises w)"
  unfolding run_query_def
proof (rule nests_bind [OF nests_start(1) [OF assms(1)]])
  fix w1 qd1 assume w1: "nested_ok w w1"
  then have l: "nesting_level (snd w1) = nesting_level (snd w)" by (simp add: nested_ok_def)
  show "nests w (pg_bind (PschExecutorRun env (then_raise raises () body) w1)
      (\<lambda>w _. pg_bind (PschExecutorFinish env (then_raise after_raises () after) w) (\<lambda>w _. pg_ret w qd1)))"
    by (rule nests_trans [OF w1 nests_run_finish]) (auto intro!: assms(2,3) simp: l)
qed

lemma exec_nests:
  "1 \<le> nesting_level (snd w) \<Longrightarrow> nests w (exec_stmt g ev s w)"
  "1 \<le> nesting_level (snd w) \<Longrightarrow> nests w (exec_stmts g ev ss w)"
proof (induction g ev s and g ev ss arbitrary: w and w rule: exec_stmt_exec_stmts.induct)
  case (1 g ev env env' qd body raises after after_raises)
  then show ?case
    by (auto intro!: nests_bind nests_run_query nests_end)
next
  case (2 g ev env env' tag k qc body raises)
  then show ?case by (auto intro!: nests_utility nests_then_raise)
next
  case (3 g ev body)
  show ?case unfolding exec_stmt.simps by (rule nests_catch [OF 3(1) [OF 3(2)]]) simp
next
  case (4 g ev env ed)
  show ?case by (simp add: nests_log)
next
  case (5 g ev)
  then show ?case by simp
next
  case (6 g ev s ss)
  show ?case
    unfolding exec_stmts.simps
  proof (rule nests_bind [OF 6(1) [OF 6(3)]])
    fix w' assume w': "nested_ok w w'"
    then have "1 \<le> nesting_level (snd w')" using 6(3) by (simp add: nested_ok_def)
    then show "nests w (exec_stmts g ev ss w')" using 6(2) nests_trans [OF w'] by blast
  qed
qed

lemma nested_query_returns:
  assumes "1 \<le> nesting_level (snd w)" and "\<not> IsParallelWorker env"
    and "exec_stmt g ev (Query env env' qd body raises after after_raises) w = Some (w', Ret ())"
  shows "\<not> current_query_is_top_level (snd w')"
proof -
  obtain w1 qd1 where s: "PschExecutorStart g env (\<lambda>qd w. pg_ret w qd) qd w = Some (w1, Ret qd1)"
    and r: "pg_bind (pg_bind (PschExecutorRun env (then_raise raises () (exec_stmts g ev body)) w1) (\<lambda>w _.
        pg_bind (PschExecutorFinish env (then_raise after_raises () (exec_stmts g ev after)) w) (\<lambda>w _. pg_ret w qd1)))
        (\<lambda>w qd. PschExecutorEnd g env' ev (\<lambda>w. pg_ret w ()) qd w) = Some (w', Ret ())"
    using assms(3) by (auto simp: run_query_def pg_bind_eq_Some)
  have flag: "\<not> current_query_is_top_level (snd w1)"
    by (rule nests_start(2) [OF assms(1) s assms(2)])
  have l: "1 \<le> nesting_level (snd w1)"
    using nests_start(1) [OF assms(1), of g env qd] s assms(1) by (auto simp: nests_def nested_ok_def)
  have "nests w1 (pg_bind (PschExecutorRun env (then_raise raises () (exec_stmts g ev body)) w1) (\<lambda>w _.
        pg_bind (PschExecutorFinish env (then_raise after_raises () (exec_stmts g ev after)) w) (\<lambda>w _. pg_ret w qd1)))"
    by (rule nests_run_finish) (use l in \<open>auto intro!: exec_nests(2)\<close>)
  then have "nests w1 (pg_bind (pg_bind (PschExecutorRun env (then_raise raises () (exec_stmts g ev body)) w1) (\<lambda>w _.
        pg_bind (PschExecutorFinish env (then_raise after_raises () (exec_stmts g ev after)) w) (\<lambda>w _. pg_ret w qd1)))
        (\<lambda>w qd. PschExecutorEnd g env' ev (\<lambda>w. pg_ret w ()) qd w))"
    by (rule nests_bind) (rule nests_end)
  then show ?thesis using flag unfolding r by (auto simp: nested_ok_def)
qed

text \<open>
  The state just before \<^verbatim>\<open>ExecutorEnd\<close> of a statement that ran at nesting level 0 with a body
  that ends with a nested query.
\<close>

lemma run_query_flag:
  assumes "nesting_level (snd w) = 0" and "\<not> IsParallelWorker env" and "\<not> IsParallelWorker e"
    and "run_query g env qd (exec_stmt g ev (Query e e' nqd body r after r')) False (exec_stmts g ev trig) r'' w
      = Some (w', Ret qd')"
  shows "nesting_level (snd w') = 0 \<and> \<not> current_query_is_top_level (snd w')"
proof -
  let ?q = "exec_stmt g ev (Query e e' nqd body r after r')" and ?f = "then_raise r'' () (exec_stmts g ev trig)"
  obtain w1 qd1 w2 where s: "PschExecutorStart g env (\<lambda>qd w. pg_ret w qd) qd w = Some (w1, Ret qd1)"
    and run: "PschExecutorRun env (then_raise False () ?q) w1 = Some (w2, Ret ())"
    and f: "pg_bind (PschExecutorFinish env ?f w2) (\<lambda>w _. pg_ret w qd1) = Some (w', Ret qd')"
    using assms(4) by (auto simp: run_query_def pg_bind_eq_Some)
  have l1: "nesting_level (snd w1) = 0"
    using s assms(1,2)
    by (auto simp: PschExecutorStart_def Let_def pg_ret_def pg_call_def pg_bind_eq_Some split: if_splits)
  define v where "v = (fst w1, (snd w1)\<lparr>nesting_level := nesting_level (snd w1) + 1\<rparr>)"
  have lv: "1 \<le> nesting_level (snd v)" using l1 by (simp add: v_def)
  obtain v' where v': "?q v = Some (v', Ret ())"
    and w2: "w2 = (fst v', (snd v')\<lparr>nesting_level := nesting_level (snd v') - 1\<rparr>)"
    using run assms(2)
    by (auto simp: PschExecutorRun_def with_nesting_def v_def [symmetric] then_raise_def pg_finally_def
        pg_bind_eq_Some pg_ret_def simp del: exec_stmt.simps split: option.splits)
  have "\<not> current_query_is_top_level (snd v')" by (rule nested_query_returns [OF lv assms(3) v'])
  moreover have "nested_ok v v'"
    using exec_nests(1) [OF lv, of g ev "Query e e' nqd body r after r'"] v' unfolding nests_def by blast
  then have "nesting_level (snd v') = 1" using l1 by (simp add: nested_ok_def v_def)
  moreover have "nests w2 (with_nesting ?f w2)"
    by (rule nests_with_nesting) (use w2 \<open>nesting_level (snd v') = 1\<close> in \<open>auto intro!: nests_then_raise exec_nests(2)\<close>)
  then have "nests w2 (pg_bind (PschExecutorFinish env ?f w2) (\<lambda>w _. pg_ret w qd1))"
    using assms(2) by (auto simp: PschExecutorFinish_def intro!: nests_bind)
  then have "nested_ok w2 w'" using f unfolding nests_def by blast
  ultimately show ?thesis using w2 by (simp add: nested_ok_def)
qed

subsection \<open>Properties\<close>

definition hook_state_init :: hook_state where
  "hook_state_init =
     \<lparr>nesting_level = 0,
      rusage_start = \<lparr>ru_utime = \<lparr>tv_sec = 0, tv_usec = 0\<rparr>, ru_stime = \<lparr>tv_sec = 0, tv_usec = 0\<rparr>\<rparr>,
      current_query_is_top_level = False, query_start_ts = 0, system_init = True,
      backend_state = backend_init\<rparr>"

abbreviation hook_boot :: hworld where
  "hook_boot \<equiv> (boot_world guc_init, hook_state_init)"

lemma PschShmemStartup_guard: "disable_error_capture (snd (boot_world guc_init)) = False"
proof -
  have g: "psch_queue_capacity guc_init = 2 ^ 17" by (simp add: guc_init_def)
  have h: "\<not> holds_lock PschProc_init" by (simp add: PschProc_init_def)
  show ?thesis
    using PschShmemStartupHook_fresh [OF g _ PschProc_init_batch h, of raw_segment]
    by (auto simp: boot_world_def PschProc_init_def)
qed

lemma hook_boot_inv [simp]: "hook_inv 0 False hook_boot"
  using boot_world_facts(1) hook_sample_ok(2) PschShmemStartup_guard
  by (simp add: hook_inv_def hook_state_init_def)

lemma hook_sample_env_simps:
  "norm_mem hook_sample_env = norm_sample_env" "norm_scan hook_sample_env = norm_sample_lib"
  "IsParallelWorker hook_sample_env = False" "pg hook_sample_env = sample_env"
  "CleanQuerytext hook_sample_env = (\<lambda>s loc len. (s, 0, int (length s)))"
  "getrusage hook_sample_env = None" "\<exists>t. InstrAlloc hook_sample_env = Ret t"
  by (simp_all add: hook_sample_env_def)

lemma hook_sample_env_ok [simp]: "hook_env_ok hook_sample_env"
proof -
  have "pg hook_sample_env = sample_env" by (simp add: hook_sample_env_def)
  then show ?thesis by (simp add: hook_env_ok_def)
qed

text \<open>
  C20. Whatever statements run nested in each other, in the run of a statement or in the triggers
  at its end, whichever of them log messages or fail, and whether an exception block catches
  the failure or not: running them through the hooks has no undefined behaviour and no
  deadlock, the invariants of the queue, of the local batch and of the session's caches hold
  at the end, and the nesting level and the error-capture guard are what they were at the
  start. The server's main loop, which hands an error that nothing caught to the log hook,
  returns normally from every such tree.
\<close>

theorem statement_tree_safe:
  assumes "event_shape ev" and "stmt_ok s" and "hook_inv n d w"
  shows "(\<exists>w' r. exec_stmt g ev s w = Some (w', r) \<and> hook_inv n d w') \<and>
     (hook_env_ok env \<and> report_ok ed \<longrightarrow> (\<exists>w'. exec_toplevel g ev env ed s w = pg_ret w' () \<and> hook_inv n d w'))"
proof -
  obtain w1 r where r: "exec_stmt g ev s w = Some (w1, r)" "hook_inv n d w1"
    by (rule ok_resE [OF exec_safe(1) [OF assms, of g]]) blast+
  have "\<exists>w'. exec_toplevel g ev env ed s w = pg_ret w' () \<and> hook_inv n d w'" if "hook_env_ok env" "report_ok ed"
    using emit_log_hook_returns [of "\<lambda>e w. (w, e)" "Some ed" w1 w1 "Some ed" n d env ev g] that assms(1) r
    by (cases r) (auto simp: exec_toplevel_def report_ok_def pg_ret_def)
  with r show ?thesis by blast
qed

definition sample_error :: ErrorData where
  "sample_error = \<lparr>elevel = ERROR, sqlerrcode = 0, message = Some ''division by zero''\<rparr>"

lemma sample_error_ok [simp]: "report_ok sample_error"
  by (simp add: report_ok_def sample_error_def cstr_def)

definition sample_tree :: stmt where
  "sample_tree =
     Query hook_sample_env hook_sample_env sample_query
       [Block [Query hook_sample_env hook_sample_env sample_query [] True [] False],
        Log hook_sample_env sample_error,
        Util hook_sample_env hook_sample_env T_OtherStmt 9 None [] False] False
       [Query hook_sample_env hook_sample_env sample_query [] False [] False] True"

theorem statement_tree_safe_witness:
  "(\<exists>w' r. exec_stmt guc_init zero_event sample_tree hook_boot = Some (w', r) \<and> hook_inv 0 False w') \<and>
   (\<exists>w'. exec_toplevel guc_init zero_event hook_sample_env sample_error sample_tree hook_boot = pg_ret w' () \<and>
      hook_inv 0 False w')"
  using statement_tree_safe [of zero_event sample_tree 0 False hook_boot guc_init hook_sample_env sample_error]
  by (simp add: sample_tree_def)

text \<open>
  C30. After a nested query has finished, the flag that says whether the current query is a
  top-level one is false although the nesting level is 0 again, so the event that is built for
  the outer query is marked as nested.
\<close>

theorem outer_query_marked_nested:
  assumes "nesting_level (snd w) = 0" and "\<not> IsParallelWorker env" and "\<not> IsParallelWorker e"
    and "run_query g env qd (exec_stmt g ev (Query e e' nqd body r after r')) False (exec_stmts g ev trig) r'' w
           = Some (w', Ret qd')"
    and "backend_ok (backend_state (snd w'))" and "strings_ok env'" and "event_shape ev"
  shows "nesting_level (snd w') = 0 \<and>
     ok_res backend_ok (\<lambda>_ ev'. \<not> top_level ev')
       (BuildEventFromQueryDesc env' qd' ev (query_start_ts (snd w')) (current_query_is_top_level (snd w'))
          cu cs (backend_state (snd w')))"
proof -
  have f: "nesting_level (snd w') = 0 \<and> \<not> current_query_is_top_level (snd w')"
    by (rule run_query_flag [OF assms(1-4)])
  have "kept (normalize_cache (backend_state (snd w'))) (backend_state (snd w'))"
    using assms(5) by (simp add: kept_def)
  from ok_weaken [OF BuildEventFromQueryDesc_ok [OF this assms(6,7)]] f show ?thesis
    by (simp add: built_def event_head_def)
qed

definition sample_nested :: stmt where
  "sample_nested = Query hook_sample_env hook_sample_env (sample_query\<lparr>qd_queryId := 0\<rparr>) [] False [] False"

lemma sample_nested_runs:
  "\<exists>w' qd'. run_query guc_init hook_sample_env sample_query (exec_stmt guc_init zero_event sample_nested) False
      (exec_stmts guc_init zero_event []) False hook_boot
      = Some (w', Ret qd') \<and> backend_ok (backend_state (snd w'))"
proof -
  obtain t where t: "InstrAlloc hook_sample_env = Ret t" using hook_sample_env_simps(7) by blast
  have g: "psch_enabled guc_init" by (simp add: guc_init_def)
  let ?hs = "hook_state_init\<lparr>current_query_is_top_level := False,
      query_start_ts := GetCurrentTimestamp sample_env\<rparr>"
  have "run_query guc_init hook_sample_env sample_query (exec_stmt guc_init zero_event sample_nested) False
      (exec_stmts guc_init zero_event []) False hook_boot
      = Some ((boot_world guc_init, ?hs), Ret (sample_query\<lparr>totaltime := Some t\<rparr>))"
    by (simp add: run_query_def sample_nested_def PschExecutorStart_def PschExecutorRun_def PschExecutorFinish_def
        PschExecutorEnd_def with_nesting_def then_raise_def Let_def hook_state_init_def pg_ret_def
        hook_sample_env_simps g t sample_query_def)
  moreover have "backend_ok (backend_state (snd (boot_world guc_init, ?hs)))"
    by (simp add: hook_state_init_def)
  ultimately show ?thesis by blast
qed

theorem outer_query_marked_nested_witness:
  "\<exists>w' qd'. run_query guc_init hook_sample_env sample_query (exec_stmt guc_init zero_event sample_nested) False
      (exec_stmts guc_init zero_event []) False hook_boot
      = Some (w', Ret qd') \<and> nesting_level (snd w') = 0 \<and>
     ok_res backend_ok (\<lambda>_ ev'. \<not> top_level ev')
       (BuildEventFromQueryDesc hook_sample_env qd' zero_event (query_start_ts (snd w'))
          (current_query_is_top_level (snd w')) 0 0 (backend_state (snd w')))"
proof -
  obtain w' qd' where r: "run_query guc_init hook_sample_env sample_query
      (exec_stmt guc_init zero_event sample_nested) False
      (exec_stmts guc_init zero_event []) False hook_boot = Some (w', Ret qd')"
      "backend_ok (backend_state (snd w'))"
    using sample_nested_runs by blast
  show ?thesis
    using outer_query_marked_nested [OF _ _ _ r(1) [unfolded sample_nested_def] r(2) hook_sample_ok(1) zero_event_shape]
      r(1) by (auto simp: hook_state_init_def hook_sample_env_simps)
qed

text \<open>
  C22. A failing capture never escapes: when the previous hook returns, the log hook returns normally and leaves the guard and
  the invariants as they were, also when a catalog lookup or the queue raises. While the guard
  is set, which is so inside the capture itself, the hook does nothing but call the previous
  hook, so a message that the capture logs cannot start another capture.
\<close>

theorem emit_log_hook_contained:
  assumes "prev edata w = (w1, edata')" and "hook_inv n d w1" and "hook_env_ok env" and "event_shape ev"
    and "\<forall>ed. edata' = Some ed \<longrightarrow> pred_option (\<lambda>s. length (cstr s) < 2 ^ 64) (message ed)"
  shows "\<exists>w'. PschEmitLogHook g env ev prev edata w = pg_ret w' () \<and> hook_inv n d w' \<and> (d \<longrightarrow> w' = w1)"
  using assms by (rule emit_log_hook_returns)

theorem emit_log_hook_contained_witness:
  "\<exists>w'. PschEmitLogHook guc_init hook_sample_env zero_event (\<lambda>e w. (w, e)) (Some sample_error) hook_boot
          = pg_ret w' () \<and> hook_inv 0 False w' \<and> (False \<longrightarrow> w' = hook_boot)"
  by (rule emit_log_hook_contained [where edata' = "Some sample_error"])
     (simp_all add: sample_error_def cstr_def)

text \<open>
  C31. A utility statement that fails produces no event: the error goes on to the caller with
  the state that the statement left and the nesting level put back.
\<close>

theorem failed_utility_no_event:
  assumes "ShouldTrackUtility g env tag"
    and "call (fst w, (snd w)\<lparr>nesting_level := nesting_level (snd w) + 1\<rparr>) = Some (w', Throw)"
  shows "PschProcessUtility g env env' ev call tag k w
     = Some ((fst w', (snd w')\<lparr>nesting_level := nesting_level (snd w') - 1\<rparr>), Throw)"
  using assms by (simp add: PschProcessUtility_def ExecuteUtilityWithNesting_def with_nesting_def Let_def)

theorem failed_utility_no_event_witness:
  "PschProcessUtility guc_init hook_sample_env hook_sample_env zero_event (\<lambda>w. Some (w, Throw)) T_OtherStmt 9 hook_boot
     = Some ((fst hook_boot, hook_state_init\<lparr>nesting_level := 0\<rparr>), Throw)"
  by (subst failed_utility_no_event [where w' = "(boot_world guc_init, hook_state_init\<lparr>nesting_level := 1\<rparr>)"])
     (simp_all add: ShouldTrackUtility_def guc_init_def hook_sample_env_def hook_state_init_def)

text \<open>
  C21. From parsing to export: after the parse hook, with no other extension's hook before it,
  has seen a statement with constants (no squashed list, no external parameter), the event
  of a query with that query id carries the statement with its constants replaced, cut at
  2047 bytes.
\<close>

theorem exported_text_is_normalized:
  assumes "psch_enabled g" and "\<not> IsParallelWorker env" and "pq_queryId q \<noteq> 0"
    and "CleanQuerytext env src (stmt_location q) (stmt_len q)
           = (stmt_text t cs @ post, loc, int (length (stmt_text t cs)))"
    and "qsort_ok (norm_scan env)" and "statement_of (norm_scan env) js loc t cs post"
    and "norm_env_ok ((norm_mem env)\<lparr>normalize_cache_max := psch_normalize_cache_max g\<rparr>)"
    and "backend_ok (backend_state (snd w))"
    and "strings_ok env'" and "event_shape ev" and "qd_queryId qd = pq_queryId q"
  shows "\<exists>w'. PschPostParseAnalyze g env (\<lambda>w. pg_ret w ()) src q (Some js) w = pg_ret w' () \<and>
     ok_res backend_ok
       (\<lambda>_ ev'. query_text ev' = take 2047 (t @ placeholders (1 + highest_extern_param_id js) cs))
       (BuildEventFromQueryDesc env' qd ev ts is_top cu cs' (backend_state (snd w')))"
proof -
  let ?out = "t @ placeholders (1 + highest_extern_param_id js) cs"
  let ?bs = "backend_state (snd w)" and ?k = "pq_queryId q"
  let ?env = "(norm_mem env)\<lparr>normalize_cache_max := psch_normalize_cache_max g\<rparr>"
  have inv: "cache_inv (normalize_cache ?bs)" using assms(8) by (simp add: backend_ok_def)
  obtain c' where c': "PschRememberNormalizedQuery ?env ?k (Some ?out) (int (length ?out)) (normalize_cache ?bs)
        = pg_ret c' ()"
      "cache_inv c'" "cache_contents c' = take (cache_cap ?env (normalize_cache ?bs))
         (mtf ?k (take (min (length ?out) 2047) ?out) (cache_contents (normalize_cache ?bs)))"
    using remember_spec [OF inv assms(7,3), of "length ?out" ?out] by blast
  have "0 < cache_cap ?env (normalize_cache ?bs)"
    using inv assms(7) by (auto simp: cache_cap_def cache_inv_def norm_env_ok_def split: option.splits)
  then have look: "map_of (cache_contents c') ?k = Some (take (min (length ?out) 2047) ?out)"
    using c'(3) by (cases "cache_cap ?env (normalize_cache ?bs)") (simp_all add: mtf_def)
  let ?bs' = "?bs\<lparr>normalize_cache := c'\<rparr>"
  have ne: "clocations js \<noteq> []"
    using assms(6) by (cases cs) (auto simp: statement_of_def locates_def)
  have "PschPostParseAnalyze g env (\<lambda>w. pg_ret w ()) src q (Some js) w
      = pg_ret (fst w, (snd w)\<lparr>backend_state := ?bs'\<rparr>) ()"
    using assms(1-3) ne c'(1) normalize_spec [OF assms(5,6)]
    by (simp add: PschPostParseAnalyze_def assms(4) exported_query_def Let_def on_backend_def
        remember_query_def pg_ret_def)
  moreover have "kept c' ?bs'" using assms(8) c'(2) by (simp add: kept_def backend_ok_def)
  then have "ok_res backend_ok (\<lambda>_ ev'. query_text ev' = take 2047 ?out)
       (BuildEventFromQueryDesc env' qd ev ts is_top cu cs' ?bs')"
    by (rule ok_weaken [OF BuildEventFromQueryDesc_ok [OF _ assms(9,10)]])
       (use look assms(11) in \<open>auto simp: built_def min_def\<close>)
  ultimately show ?thesis
    by (intro exI [of _ "(fst w, (snd w)\<lparr>backend_state := ?bs'\<rparr>)"]) simp
qed

text \<open>The sample session with a scanner that knows \<^verbatim>\<open>SELECT -1, 42\<close>.\<close>

definition sample_parsed :: parsed_query where
  "sample_parsed = \<lparr>pq_queryId = 7, stmt_location = 0, stmt_len = 0\<rparr>"

theorem exported_text_is_normalized_witness:
  "\<exists>w'. PschPostParseAnalyze guc_init hook_sample_env (\<lambda>w. pg_ret w ()) ''SELECT -1, 42'' sample_parsed
          (Some norm_sample_jstate) hook_boot = pg_ret w' () \<and>
     ok_res backend_ok
       (\<lambda>_ ev'. query_text ev' = take 2047 (''SELECT '' @ placeholders (1 + highest_extern_param_id norm_sample_jstate) [(''-1'', '', ''), (''42'', [])]))
       (BuildEventFromQueryDesc hook_sample_env sample_query zero_event 42 True 0 0 (backend_state (snd w')))"
proof -
  have "norm_env_ok ((norm_mem hook_sample_env)\<lparr>normalize_cache_max := psch_normalize_cache_max guc_init\<rparr>)"
    using norm_sample_env_ok by (simp add: hook_sample_env_simps norm_env_ok_def guc_init_def)
  then show ?thesis
    using norm_sample_ok(1,2)
    by (intro exported_text_is_normalized [where loc = 0 and post = "[]"])
       (simp_all add: guc_init_def hook_sample_env_simps sample_parsed_def sample_query_def stmt_text_def
         hook_state_init_def)
qed
end
