(* ===== verification/Psch_Sql.thy ===== *)
theory Psch_Sql
  imports Psch_Bgworker Psch_Hooks
begin

section \<open>Loading the library and the SQL functions (\<^verbatim>\<open>pg_stat_ch.c\<close>, \<^verbatim>\<open>shmem.c\<close>)\<close>

text \<open>
  What the postmaster does when it loads the library: it defines the variables, reserves
  shared memory and locks (on servers before version 15 at once, later in a hook), installs
  the hooks and registers the worker. A \<open>postmaster\<close> has what PostgreSQL remembers of that;
  \<open>prev\<close> stands for the hook that was installed before. Then the four SQL functions.
\<close>

unbundle bit_operations_syntax
declare length_abs_queue [simp del]

subsection \<open>Reserving shared memory\<close>

record postmaster =
  guc_vars :: "guc_var list"
  addin_size :: nat
  tranches :: "(string \<times> nat) list"
  shmem_request_hook :: hook_fn
  prev_shmem_request_hook :: hook_fn
  shmem_startup_hook :: hook_fn
  prev_shmem_startup_hook :: hook_fn
  server_hooks_of :: server_hooks
  prev_hooks_of :: server_hooks
  hooks_state :: hook_state
  workers :: "BackgroundWorker list"

definition RequestSharedResources ::
    "(int \<Rightarrow> nat) \<Rightarrow> guc \<Rightarrow> postmaster \<Rightarrow> postmaster \<times> unit outcome" where
  "RequestSharedResources hash_estimate_size g pm =
     (case PschShmemSize hash_estimate_size g of
        None \<Rightarrow> (pm, Throw)
      | Some n \<Rightarrow>
          (pm\<lparr>addin_size := addin_size pm + n,
              tranches := tranches pm @ [(''pg_stat_ch'', 1 + unat PschQueryInternLockCount)]\<rparr>, Ret ()))"

definition PschShmemRequestHook ::
    "(postmaster \<Rightarrow> postmaster) \<Rightarrow> (int \<Rightarrow> nat) \<Rightarrow> guc \<Rightarrow> postmaster \<Rightarrow> postmaster \<times> unit outcome" where
  "PschShmemRequestHook prev hash_estimate_size g pm =
     RequestSharedResources hash_estimate_size g
       (if prev_shmem_request_hook pm \<noteq> NoHook then prev pm else pm)"

definition PschInstallShmemHooks ::
    "nat \<Rightarrow> (int \<Rightarrow> nat) \<Rightarrow> guc \<Rightarrow> postmaster \<Rightarrow> postmaster \<times> unit outcome" where
  "PschInstallShmemHooks version hash_estimate_size g pm =
     (case (if version \<ge> 150000
            then (pm\<lparr>prev_shmem_request_hook := shmem_request_hook pm, shmem_request_hook := PschHook\<rparr>, Ret ())
            else RequestSharedResources hash_estimate_size g pm) of
        (pm, Throw) \<Rightarrow> (pm, Throw)
      | (pm, Ret _) \<Rightarrow>
          (pm\<lparr>prev_shmem_startup_hook := shmem_startup_hook pm, shmem_startup_hook := PschHook\<rparr>, Ret ()))"

text \<open>\<open>read_conf\<close> gives the values that the variables have once they are defined.\<close>

definition PG_init ::
    "bool \<Rightarrow> nat \<Rightarrow> (int \<Rightarrow> nat) \<Rightarrow> (guc_var list \<Rightarrow> guc) \<Rightarrow> postmaster \<Rightarrow> postmaster \<times> unit outcome" where
  "PG_init process_shared_preload_libraries_in_progress version hash_estimate_size read_conf pm =
     (if \<not> process_shared_preload_libraries_in_progress then (pm, Ret ())
      else
        let pm = pm\<lparr>guc_vars := guc_vars pm @ PschInitGuc\<rparr>
        in (case PschInstallShmemHooks version hash_estimate_size (read_conf (guc_vars pm)) pm of
              (pm, Throw) \<Rightarrow> (pm, Throw)
            | (pm, Ret _) \<Rightarrow>
                (case PschInstallHooks version (server_hooks_of pm) (hooks_state pm) of
                   (sv, prev, hs) \<Rightarrow>
                     (pm\<lparr>server_hooks_of := sv, prev_hooks_of := prev, hooks_state := hs,
                         workers := workers pm @ [PschRegisterBgworker]\<rparr>, Ret ()))))"

subsection \<open>SQL functions\<close>

text \<open>
  A column of a row. The percentage is a double; the product is below \<open>2 ^ 39\<close> and the
  capacity a power of two, so it is the exact quotient.
\<close>

datatype sql_datum =
    SqlNull | Int64 i64 | Int32 i32 | Timestamptz TimestampTz | TextDatum "char list" | Float8 rat

definition pg_stat_ch_version :: "string \<Rightarrow> sql_datum" where
  "pg_stat_ch_version PG_STAT_CH_VERSION = TextDatum PG_STAT_CH_VERSION"

definition usage_pct :: "u32 \<Rightarrow> u32 \<Rightarrow> rat" where
  "usage_pct queue_size queue_capacity =
     (if queue_capacity > 0 then 100 * of_nat (unat queue_size) / of_nat (unat queue_capacity) else 0)"

text \<open>\<open>composite\<close>: the caller accepts a row. \<open>last_error_text\<close> starts out cleared.\<close>

definition pg_stat_ch_stats :: "bool \<Rightarrow> pg_env \<Rightarrow> world \<Rightarrow> (world, sql_datum list) pgres" where
  "pg_stat_ch_stats composite env w =
     (if \<not> composite then Some (w, Throw)
      else
        (case PschGetStats env (replicate 256 NUL) w of
           None \<Rightarrow> None
         | Some (w, st) \<Rightarrow>
             pg_ret w
               [Int64 (st_enqueued st), Int64 (st_dropped st), Int64 (st_exported st), Int64 (st_send_failures st),
                if st_last_success_ts st = 0 then SqlNull else Timestamptz (st_last_success_ts st),
                if st_last_error_buf st ! 0 = NUL then SqlNull else TextDatum (cstr (st_last_error_buf st)),
                if st_last_error_ts st = 0 then SqlNull else Timestamptz (st_last_error_ts st),
                Int32 (st_queue_size st), Int32 (st_queue_capacity st),
                Float8 (usage_pct (st_queue_size st) (st_queue_capacity st)), Int64 (st_dsa_oom_count st)]))"

definition pg_stat_ch_reset :: "pg_env \<Rightarrow> world \<Rightarrow> world option" where
  "pg_stat_ch_reset env w = PschResetStats env w"

definition pg_stat_ch_flush ::
    "(u32 \<Rightarrow> kill_result) \<Rightarrow> (PschSharedState \<Rightarrow> PschSharedState) \<Rightarrow> world \<Rightarrow> world option" where
  "pg_stat_ch_flush kill meanwhile w = PschSignalFlush kill meanwhile w"

subsection \<open>The layout of the segment\<close>

lemma align_up_8: "n \<le> align_up 8 n" "align_up 8 n < n + 8" "8 dvd align_up 8 n"
  by (simp_all add: align_up_def)

lemma sizeof_simps: "sizeof_PschSharedState = 672" "sizeof_PschRingEntry = 520"
  by (simp_all add: sizeof_PschSharedState_def sizeof_PschRingEntry_def c_sizeof_ring_entry align_up_def)

text \<open>The sizes that the ranges of the two variables allow.\<close>

definition conf_in_range :: "guc \<Rightarrow> bool" where
  "conf_in_range g \<longleftrightarrow> psch_queue_capacity g \<in> {1024..4194304} \<and> psch_string_area_size g \<in> {8..1024}"

lemma block_layout:
  assumes "conf_in_range g"
  shows "\<exists>n. PschSharedBlockSize g = Some n \<and> n < 2 ^ 33 \<and>
     sizeof_PschSharedState + nat (psch_queue_capacity g) * sizeof_PschRingEntry \<le> dsa_place_offset g \<and>
     8 dvd dsa_place_offset g \<and> dsa_place_offset g + nat (PschDsaShmemSize (psch_string_area_size g)) \<le> n"
proof -
  define c where "c = nat (psch_queue_capacity g)"
  define d where "d = nat (PschDsaShmemSize (psch_string_area_size g))"
  define r where "r = sizeof_PschSharedState + c * sizeof_PschRingEntry"
  have cd: "c \<le> 4194304" "d \<le> 1073741824"
    using assms by (auto simp: c_def d_def conf_in_range_def PschDsaShmemSize_def nat_le_iff)
  then have r: "r \<le> 2181038752" "c * sizeof_PschRingEntry < 2 ^ 64" by (simp_all add: r_def sizeof_simps)
  have o: "dsa_place_offset g = align_up 8 r" by (simp add: dsa_place_offset_def r_def c_def)
  have "align_up 8 r + d < 2 ^ 64" "align_up 8 (align_up 8 r + d) < 2 ^ 33"
    using r(1) cd(2) align_up_8(2) [of r] align_up_8(2) [of "align_up 8 r + d"] by simp_all
  then have "PschSharedBlockSize g = Some (align_up 8 (align_up 8 r + d))"
    using r cd by (simp add: PschSharedBlockSize_def mul_size_def add_size_def c_def [symmetric] d_def [symmetric] r_def [symmetric])
  with \<open>align_up 8 (align_up 8 r + d) < 2 ^ 33\<close> show ?thesis
    using align_up_8 [of r] align_up_8(1) [of "align_up 8 r + d"] unfolding o r_def c_def [symmetric] d_def [symmetric] by blast
qed

text \<open>
  C18. Loading the library and, from version 15 on, running the request hook reserves a block
  that has room for the state, a ring of the configured capacity and, behind it at an
  aligned offset, the string area, next to what the interner's table needs; no size
  overflows for any allowed setting. It also asks for the queue lock and one lock per partition,
  installs the start-up hook and registers the worker.
\<close>

theorem load_reserves_segment:
  assumes "g = read_conf (guc_vars pm @ PschInitGuc)" and "conf_in_range g"
    and "est (PschQueryInternMaxEntries (psch_queue_capacity g)) < 2 ^ 63"
  shows "\<exists>pm1 pm2 n. PG_init True version est read_conf pm = (pm1, Ret ()) \<and>
     (if version \<ge> 150000 then PschShmemRequestHook id est g pm1 = (pm2, Ret ()) else pm2 = pm1) \<and>
     addin_size pm2 = addin_size pm + n + est (PschQueryInternMaxEntries (psch_queue_capacity g)) \<and>
     sizeof_PschSharedState + nat (psch_queue_capacity g) * sizeof_PschRingEntry \<le> dsa_place_offset g \<and>
     8 dvd dsa_place_offset g \<and> dsa_place_offset g + nat (PschDsaShmemSize (psch_string_area_size g)) \<le> n \<and>
     (''pg_stat_ch'', 1 + unat PschQueryInternLockCount) \<in> set (tranches pm2) \<and>
     shmem_startup_hook pm2 = PschHook \<and> PschRegisterBgworker \<in> set (workers pm2)"
proof -
  obtain n where n: "PschSharedBlockSize g = Some n" "n < 2 ^ 33"
      "sizeof_PschSharedState + nat (psch_queue_capacity g) * sizeof_PschRingEntry \<le> dsa_place_offset g"
      "8 dvd dsa_place_offset g" "dsa_place_offset g + nat (PschDsaShmemSize (psch_string_area_size g)) \<le> n"
    using block_layout [OF assms(2)] by blast
  define e where "e = est (PschQueryInternMaxEntries (psch_queue_capacity g))"
  have size: "PschShmemSize est g = Some (n + e)"
    using n(1,2) assms(3) by (simp add: PschShmemSize_def add_size_def e_def)
  define pm1 where "pm1 = fst (PG_init True version est read_conf pm)"
  define pm2 where "pm2 = (if version \<ge> 150000 then fst (PschShmemRequestHook id est g pm1) else pm1)"
  note defs = PG_init_def PschInstallShmemHooks_def PschShmemRequestHook_def RequestSharedResources_def
    PschInstallHooks_def assms(1) [symmetric] size Let_def
  have "PG_init True version est read_conf pm = (pm1, Ret ())" by (simp add: pm1_def defs)
  moreover have "if version \<ge> 150000 then PschShmemRequestHook id est g pm1 = (pm2, Ret ()) else pm2 = pm1"
    by (simp add: pm2_def defs)
  moreover have "addin_size pm2 = addin_size pm + n + e \<and> shmem_startup_hook pm2 = PschHook \<and>
      PschRegisterBgworker \<in> set (workers pm2) \<and> (''pg_stat_ch'', 1 + unat PschQueryInternLockCount) \<in> set (tranches pm2)"
    by (cases "version \<ge> 150000") (simp_all add: pm2_def pm1_def defs)
  ultimately show ?thesis using n(3-5) unfolding e_def [symmetric] by blast
qed

text \<open>A fresh server of version 16 with the boot values, and a hash table of 100 bytes per entry.\<close>

definition postmaster_new :: postmaster where
  "postmaster_new =
     (let none = \<lparr>post_parse_analyze_hook = NoHook, ExecutorStart_hook = NoHook, ExecutorRun_hook = NoHook,
                 ExecutorFinish_hook = NoHook, ExecutorEnd_hook = NoHook, ProcessUtility_hook = NoHook,
                 emit_log_hook = NoHook, query_id_enabled = False\<rparr>
      in \<lparr>guc_vars = [], addin_size = 0, tranches = [], shmem_request_hook = NoHook, prev_shmem_request_hook = NoHook,
          shmem_startup_hook = NoHook, prev_shmem_startup_hook = NoHook, server_hooks_of = none, prev_hooks_of = none,
          hooks_state = hook_state_init, workers = []\<rparr>)"

theorem load_reserves_segment_witness:
  "\<exists>pm1 pm2 n. PG_init True 160000 (\<lambda>n. 100 * nat n) (\<lambda>_. guc_init) postmaster_new = (pm1, Ret ()) \<and>
     PschShmemRequestHook id (\<lambda>n. 100 * nat n) guc_init pm1 = (pm2, Ret ()) \<and>
     addin_size pm2 = n + 13107200 \<and> 135266976 \<le> n \<and> shmem_startup_hook pm2 = PschHook"
proof -
  have v: "150000 \<le> (160000 :: nat)" by simp
  have conf: "psch_queue_capacity guc_init = 131072" "psch_string_area_size guc_init = 64"
    by (simp_all add: guc_init_def)
  have "conf_in_range guc_init" "100 * nat (PschQueryInternMaxEntries (psch_queue_capacity guc_init)) < 2 ^ 63"
    by (simp_all add: conf_in_range_def conf PschQueryInternMaxEntries_def)
  from load_reserves_segment [where g = guc_init and read_conf = "\<lambda>_. guc_init" and pm = postmaster_new and version = 160000
      and est = "\<lambda>n. 100 * nat n", OF refl this]
  obtain pm1 pm2 n where p: "PG_init True 160000 (\<lambda>n. 100 * nat n) (\<lambda>_. guc_init) postmaster_new = (pm1, Ret ())"
      "PschShmemRequestHook id (\<lambda>n. 100 * nat n) guc_init pm1 = (pm2, Ret ())"
      "addin_size pm2 = addin_size postmaster_new + n + 100 * nat (PschQueryInternMaxEntries (psch_queue_capacity guc_init))"
      "dsa_place_offset guc_init + nat (PschDsaShmemSize (psch_string_area_size guc_init)) \<le> n" "shmem_startup_hook pm2 = PschHook"
    unfolding if_P [OF v] by blast
  have "addin_size postmaster_new = 0" by (simp add: postmaster_new_def Let_def)
  moreover have "dsa_place_offset guc_init + nat (PschDsaShmemSize (psch_string_area_size guc_init)) = 135266976"
    by (simp add: dsa_place_offset_def sizeof_simps conf PschDsaShmemSize_def align_up_def)
  ultimately show ?thesis using p by (intro exI [of _ pm1] exI [of _ pm2] exI [of _ n]) (simp add: conf PschQueryInternMaxEntries_def)
qed

subsection \<open>What the SQL functions report\<close>

lemma strlcpy_cstr: "cstr (fst (strlcpy dst src (Suc n))) = take n (cstr src)"
proof -
  have "NUL \<notin> set (take n (cstr src))" using cstr_no_NUL [of NUL src] by (auto dest: in_set_takeD)
  then show ?thesis using cstr_append_NUL by (simp add: strlcpy_def Let_def)
qed

lemma cstr_empty: "buf \<noteq> [] \<Longrightarrow> buf ! 0 = NUL \<longleftrightarrow> cstr buf = []"
  by (cases buf) (auto simp: cstr_def)

text \<open>The row that a consistent segment gives: the size of the queue is exact, the percentage at most 100.\<close>

definition stats_row :: "PschSharedState \<Rightarrow> sql_datum list" where
  "stats_row sh =
     [Int64 (enqueued sh), Int64 (dropped sh), Int64 (exported sh), Int64 (send_failures sh),
      if last_success_ts sh = 0 then SqlNull else Timestamptz (last_success_ts sh),
      if cstr (last_error_text sh) = [] then SqlNull else TextDatum (take 255 (cstr (last_error_text sh))),
      if last_error_ts sh = 0 then SqlNull else Timestamptz (last_error_ts sh),
      Int32 (word_of_nat (length (abs_queue sh))), Int32 (capacity sh),
      Float8 (100 * of_nat (length (abs_queue sh)) / of_nat (unat (capacity sh))), Int64 (dsa_oom_count sh)]"

lemma queue_size_exact:
  assumes "queue_inv sh"
  shows "(ucast (head sh - tail sh) :: u32) = word_of_nat (length (abs_queue sh))"
    "unat (ucast (head sh - tail sh) :: u32) = length (abs_queue sh)"
proof -
  have "unat (head sh - tail sh) \<le> 2 ^ 31"
    using assms pow2_capacity_bound [of "capacity sh"] by (simp add: queue_inv_def)
  then show u: "unat (ucast (head sh - tail sh) :: u32) = length (abs_queue sh)"
    by (simp add: length_abs_queue unsigned_ucast_eq take_bit_nat_eq_self)
  show "(ucast (head sh - tail sh) :: u32) = word_of_nat (length (abs_queue sh))"
    by (simp flip: u)
qed

lemma stats_reports:
  assumes "idle env (sh, p)" and "psch_shared_state p" and "queue_inv sh"
  shows "pg_stat_ch_stats True env (sh, p) = Some ((sh, p), Ret (stats_row sh))"
proof -
  define buf where "buf = fst (strlcpy (replicate 256 NUL) (last_error_text sh) 256)"
  have buf: "cstr buf = take 255 (cstr (last_error_text sh))"
    using strlcpy_cstr [of "replicate 256 NUL" "last_error_text sh" 255] by (simp add: buf_def)
  have "length buf = 256" using length_strlcpy [of "replicate 256 NUL" "last_error_text sh"] by (simp add: buf_def)
  then have nul: "buf ! 0 = NUL \<longleftrightarrow> cstr (last_error_text sh) = []" using cstr_empty [of buf] buf by (cases buf) auto
  have cap: "capacity sh > 0" 
  proof -
    obtain k where "unat (capacity sh) = 2 ^ k" using assms(3) by (auto simp: queue_inv_def elim: pow2_capacityE)
    then show ?thesis by (simp add: word_less_nat_alt)
  qed
  have pct: "usage_pct (ucast (head sh - tail sh)) (capacity sh) = 100 * of_nat (length (abs_queue sh)) / of_nat (unat (capacity sh))"
    unfolding usage_pct_def queue_size_exact(2) [OF assms(3)] using cap by simp
  have "LWLockRelease (sh\<lparr>lock := True\<rparr>, p\<lparr>holds_lock := True\<rparr>) = (sh, p)"
    using LWLock_round [OF assms(1)] assms(1) by (simp add: idle_def)
  then show ?thesis
    using assms(2) nul buf cap
    by (simp add: pg_stat_ch_stats_def PschGetStats_def LWLockAcquire_idle [OF assms(1)] Let_def buf_def [symmetric]
        pct queue_size_exact(1) [OF assms(3), symmetric] stats_row_def pg_ret_def)
qed

lemma usage_at_most_100: "queue_inv sh \<Longrightarrow> 100 * of_nat (length (abs_queue sh)) / of_nat (unat (capacity sh)) \<le> (100 :: rat)"
proof -
  assume "queue_inv sh"
  then have "rat_of_nat (length (abs_queue sh)) \<le> of_nat (unat (capacity sh))"
    by (simp only: of_nat_le_iff) (simp add: queue_inv_def length_abs_queue)
  then show "100 * of_nat (length (abs_queue sh)) / of_nat (unat (capacity sh)) \<le> (100 :: rat)"
    by (cases "unat (capacity sh) = 0") (simp_all add: divide_le_eq)
qed

text \<open>
  A reset clears every counter and what is known of the last exports, and leaves the queue
  alone.
\<close>

lemma reset_then_stats:
  assumes "idle env (sh, p)" and "psch_shared_state p" and "queue_inv sh"
  shows "\<exists>sh'. pg_stat_ch_reset env (sh, p) = Some (sh', p) \<and> queue_inv sh' \<and> abs_queue sh' = abs_queue sh \<and>
     pg_stat_ch_stats True env (sh', p) =
       Some ((sh', p), Ret
         [Int64 0, Int64 0, Int64 0, Int64 0, SqlNull, SqlNull, SqlNull,
          Int32 (word_of_nat (length (abs_queue sh))), Int32 (capacity sh),
          Float8 (100 * of_nat (length (abs_queue sh)) / of_nat (unat (capacity sh))), Int64 0])"
proof -
  define sh' where "sh' = sh\<lparr>enqueued := 0, dropped := 0, exported := 0, send_failures := 0, overflow_logged := False,
    dsa_oom_count := 0, last_success_ts := 0, last_error_ts := 0, last_error_text := replicate 256 NUL\<rparr>"
  have l: "\<not> lock sh" "length (last_error_text sh) = 256" using assms(1,3) by (simp_all add: idle_def queue_inv_def)
  have "pg_stat_ch_reset env (sh, p) = Some (sh', p)"
    using assms(2) l
    by (simp add: pg_stat_ch_reset_def PschResetStats_def LWLockAcquire_idle [OF assms(1)] LWLock_round [OF assms(1)] sh'_def)
  moreover have live: "live sh' = live sh" by (simp add: live_def sh'_def)
  then have q: "queue_inv sh'" "abs_queue sh' = abs_queue sh"
    using assms(3) heap_inv_cong [of sh' sh] abs_slot_cong [of sh' sh]
    by (simp_all add: queue_inv_def abs_queue_def sh'_def)
  moreover have "idle env (sh', p)" using assms(1) by (simp add: idle_def sh'_def)
  from stats_reports [OF this assms(2) q(1)]
  have "pg_stat_ch_stats True env (sh', p) = Some ((sh', p), Ret (stats_row sh'))" .
  moreover have "cstr (replicate 256 NUL) = []" by (simp add: cstr_def)
  then have "stats_row sh' = [Int64 0, Int64 0, Int64 0, Int64 0, SqlNull, SqlNull, SqlNull,
      Int32 (word_of_nat (length (abs_queue sh))), Int32 (capacity sh),
      Float8 (100 * of_nat (length (abs_queue sh)) / of_nat (unat (capacity sh))), Int64 0]"
    by (simp add: stats_row_def q(2)) (simp add: sh'_def)
  ultimately show ?thesis by metis
qed

end
