(* ===== verification/Psch_Connect.thy ===== *)
theory Psch_Connect
  imports Psch_Clickhouse
begin

section \<open>Connecting a socket within a time limit (\<^verbatim>\<open>clickhouse_exporter.cc\<close>)\<close>

text \<open>
  \<^verbatim>\<open>ConnectWithTimeout\<close>: a non-blocking \<^verbatim>\<open>connect\<close>, a \<^verbatim>\<open>poll\<close> that starts again when a signal
  interrupts it, and the old mode of the socket put back. The answers of the operating
  system are a \<open>sock_env\<close>; a missing \<open>errno\<close> is success. \<open>clock_gettime k\<close> is the \<open>k\<close>-th reading
  of the monotonic clock as seconds and nanoseconds, \<open>poll k ms\<close> the \<open>k\<close>-th answer of \<^verbatim>\<open>poll\<close>
  (\<open>Inr False\<close>: the time is over), \<open>so_error k\<close> that of \<^verbatim>\<open>getsockopt\<close> after it. The loop has no
  bound in the code, only the clock ends it, so it is a \<^theory_text>\<open>partial_function\<close>. A socket is its
  file status flags and the \<open>errno\<close> a failure leaves; nobody reads \<^verbatim>\<open>errno\<close> after a success, and
  the model then leaves it as it was.
\<close>

unbundle bit_operations_syntax

datatype errno = EINPROGRESS | ETIMEDOUT | EINTR | OtherErrno int

record sock_env =
  O_NONBLOCK :: u32
  getfl_err :: "errno option"
  nonblock_err :: "errno option"
  connect_err :: "errno option"
  clock_gettime :: "nat \<Rightarrow> int \<times> int"
  poll :: "nat \<Rightarrow> int \<Rightarrow> errno + bool"
  so_error :: "nat \<Rightarrow> errno + errno option"
  restore_err :: "errno option"

record sock_state =
  fl :: u32
  sock_errno :: "errno option"

definition kSocketTimeoutSec :: int where "kSocketTimeoutSec = 30"

definition MonotonicNowUs :: "sock_env \<Rightarrow> nat \<Rightarrow> int" where
  "MonotonicNowUs env k = (case clock_gettime env k of (tv_sec, tv_nsec) \<Rightarrow> tv_sec * 1000000 + tv_nsec div 1000)"

text \<open>The argument of \<^verbatim>\<open>poll\<close>, converted to a C \<^verbatim>\<open>int\<close>.\<close>

definition poll_timeout :: "int \<Rightarrow> int" where
  "poll_timeout remaining_us = signed_take_bit 31 ((remaining_us + 999) div 1000)"

text \<open>The loop from its \<open>k\<close>-th turn on: \<^verbatim>\<open>ok\<close> and \<^verbatim>\<open>save_errno\<close>.\<close>

partial_function (option) poll_loop :: "sock_env \<Rightarrow> int \<Rightarrow> nat \<Rightarrow> (bool \<times> errno option) option" where
  "poll_loop env deadline k =
     (let remaining_us = deadline - MonotonicNowUs env (k + 1)
      in if remaining_us \<le> 0 then Some (False, Some ETIMEDOUT)
         else
           (case poll env k (poll_timeout remaining_us) of
              Inl e \<Rightarrow> if e = EINTR then poll_loop env deadline (k + 1) else Some (False, Some e)
            | Inr pr \<Rightarrow>
                if \<not> pr then Some (False, Some ETIMEDOUT)
                else
                  (case so_error env k of
                     Inl e \<Rightarrow> Some (False, Some e)
                   | Inr soerr \<Rightarrow> Some (soerr = None, soerr))))"

definition connect_deadline :: "sock_env \<Rightarrow> int \<Rightarrow> int" where
  "connect_deadline env timeout_sec = MonotonicNowUs env 0 + timeout_sec * 1000000"

definition ConnectWithTimeout :: "sock_env \<Rightarrow> int \<Rightarrow> sock_state \<Rightarrow> (sock_state \<times> bool) option" where
  "ConnectWithTimeout env timeout_sec s =
     (case getfl_err env of
        Some e \<Rightarrow> Some (s\<lparr>sock_errno := Some e\<rparr>, False)
      | None \<Rightarrow>
          (case nonblock_err env of
             Some e \<Rightarrow> Some (s\<lparr>sock_errno := Some e\<rparr>, False)
           | None \<Rightarrow>
               let flags = fl s; s = s\<lparr>fl := flags OR O_NONBLOCK env\<rparr>
               in (case (case connect_err env of
                           None \<Rightarrow> Some (True, None)
                         | Some e \<Rightarrow>
                             if e = EINPROGRESS then poll_loop env (connect_deadline env timeout_sec) 0
                             else Some (False, Some e)) of
                     None \<Rightarrow> None
                   | Some (ok, save_errno) \<Rightarrow>
                       (case restore_err env of
                          Some e \<Rightarrow> Some (s\<lparr>sock_errno := Some e\<rparr>, False)
                        | None \<Rightarrow>
                            Some (s\<lparr>fl := flags, sock_errno := (if ok then sock_errno s else save_errno)\<rparr>, ok)))))"

subsection \<open>The loop\<close>

text \<open>A turn that goes on: there is time left, and a signal interrupts \<^verbatim>\<open>poll\<close>.\<close>

definition interrupted :: "sock_env \<Rightarrow> int \<Rightarrow> nat \<Rightarrow> bool" where
  "interrupted env deadline k \<longleftrightarrow>
     MonotonicNowUs env (k + 1) < deadline \<and>
     poll env k (poll_timeout (deadline - MonotonicNowUs env (k + 1))) = Inl EINTR"

text \<open>A turn that ends with an established connection.\<close>

definition established :: "sock_env \<Rightarrow> int \<Rightarrow> nat \<Rightarrow> bool" where
  "established env deadline k \<longleftrightarrow>
     MonotonicNowUs env (k + 1) < deadline \<and>
     poll env k (poll_timeout (deadline - MonotonicNowUs env (k + 1))) = Inr True \<and> so_error env k = Inr None"

lemma poll_loop_interrupted: "interrupted env deadline k \<Longrightarrow> poll_loop env deadline k = poll_loop env deadline (k + 1)"
  by (subst poll_loop.simps) (simp add: interrupted_def Let_def)

lemma poll_loop_last:
  "\<not> interrupted env deadline k \<Longrightarrow>
     \<exists>e. poll_loop env deadline k = Some (established env deadline k, e) \<and> (established env deadline k \<longleftrightarrow> e = None)"
  by (subst poll_loop.simps) (auto simp: interrupted_def established_def Let_def split: sum.splits)

lemma poll_loop_spec:
  assumes "\<And>i. i < n \<Longrightarrow> interrupted env deadline (k + i)" and "\<not> interrupted env deadline (k + n)"
  shows "\<exists>e. poll_loop env deadline k = Some (established env deadline (k + n), e) \<and>
    (established env deadline (k + n) \<longleftrightarrow> e = None)"
  using assms
proof (induction n arbitrary: k)
  case 0
  then show ?case using poll_loop_last [of env deadline k] by simp
next
  case (Suc n)
  have "interrupted env deadline (Suc k + i)" if "i < n" for i using Suc.prems(1) [of "Suc i"] that by simp
  from Suc.IH [OF this] Suc.prems(2) poll_loop_interrupted [of env deadline k] Suc.prems(1) [of 0]
  show ?case by simp
qed

text \<open>A clock that reaches the deadline ends the loop, at the first turn that is not interrupted.\<close>

lemma poll_loop_ends:
  assumes "deadline \<le> MonotonicNowUs env (j + 1)"
  shows "\<exists>n e. (\<forall>i<n. interrupted env deadline i) \<and> \<not> interrupted env deadline n \<and>
    poll_loop env deadline 0 = Some (established env deadline n, e) \<and> (established env deadline n \<longleftrightarrow> e = None)"
proof -
  let ?n = "LEAST i. \<not> interrupted env deadline i"
  have "\<not> interrupted env deadline j" using assms by (simp add: interrupted_def)
  then have n: "\<not> interrupted env deadline ?n" by (rule LeastI)
  have i: "interrupted env deadline i" if "i < ?n" for i using not_less_Least [OF that] by simp
  obtain e where e: "poll_loop env deadline 0 = Some (established env deadline ?n, e)" "established env deadline ?n \<longleftrightarrow> e = None"
    using poll_loop_spec [of ?n env deadline 0, unfolded add_0, OF i n] by blast
  with n i show ?thesis by blast
qed

lemma established_first:
  assumes "\<forall>i<n. interrupted env deadline i" and "\<not> interrupted env deadline n"
  shows "established env deadline n \<longleftrightarrow> (\<exists>k. established env deadline k \<and> (\<forall>i<k. interrupted env deadline i))"
proof
  assume "\<exists>k. established env deadline k \<and> (\<forall>i<k. interrupted env deadline i)"
  then obtain k where k: "established env deadline k" "\<forall>i<k. interrupted env deadline i" by blast
  then have "\<not> interrupted env deadline k" by (auto simp: established_def interrupted_def)
  with k(2) assms have "k = n" by (meson nat_neq_iff)
  with k show "established env deadline n" by simp
qed (use assms in blast)

text \<open>
  While the clock does not run backwards \<^verbatim>\<open>poll\<close> never gets a timeout that is zero, negative
  (which would wait forever) or longer than the limit.
\<close>

lemma poll_timeout_range:
  fixes r t :: int
  assumes "1 \<le> r" and "r \<le> t * 1000000" and "t \<le> 2000000"
  shows "poll_timeout r \<in> {1..t * 1000}"
proof -
  have "(r + 999) div 1000 \<le> (999 + (t * 1000) * 1000) div 1000" by (rule zdiv_mono1) (use assms(2) in simp_all)
  also have "\<dots> = t * 1000" by (subst div_mult_self1) simp_all
  finally have d: "(r + 999) div 1000 \<le> t * 1000" "1 \<le> (r + 999) div 1000"
    using zdiv_mono1 [of 1000 "r + 999" 1000] assms(1) by simp_all
  have "signed_take_bit 31 ((r + 999) div 1000) = (r + 999) div 1000"
    by (rule signed_take_bit_int_eq_self) (use d assms(3) in simp_all)
  with d show ?thesis by (simp add: poll_timeout_def)
qed

lemma poll_timeout_bounds:
  assumes "MonotonicNowUs env 0 \<le> MonotonicNowUs env (k + 1)" and "MonotonicNowUs env (k + 1) < connect_deadline env timeout_sec"
    and "timeout_sec \<le> 2000000"
  shows "poll_timeout (connect_deadline env timeout_sec - MonotonicNowUs env (k + 1)) \<in> {1..timeout_sec * 1000}"
  by (rule poll_timeout_range) (use assms in \<open>simp_all add: connect_deadline_def\<close>)

subsection \<open>The connection\<close>

text \<open>
  C19. With a clock that reaches the deadline \<^verbatim>\<open>ConnectWithTimeout\<close> returns, no matter how many
  signals interrupt it. It returns true exactly if every mode change succeeds and the socket
  connects at once or, after nothing but interruptions, is reported writable without an
  error before the deadline; the socket is then, and whenever the mode can be put back,
  in the mode it had, and a failure leaves its error number.
\<close>

theorem connect_with_timeout_ends:
  assumes "connect_deadline env timeout_sec \<le> MonotonicNowUs env (j + 1)"
  shows "\<exists>s' ok. ConnectWithTimeout env timeout_sec s = Some (s', ok) \<and>
     (ok \<longleftrightarrow> getfl_err env = None \<and> nonblock_err env = None \<and> restore_err env = None \<and>
        (connect_err env = None \<or>
         connect_err env = Some EINPROGRESS \<and>
           (\<exists>k. established env (connect_deadline env timeout_sec) k \<and>
                (\<forall>i<k. interrupted env (connect_deadline env timeout_sec) i)))) \<and>
     (restore_err env = None \<longrightarrow> fl s' = fl s) \<and> (\<not> ok \<longrightarrow> sock_errno s' \<noteq> None)"
proof -
  let ?d = "connect_deadline env timeout_sec"
  obtain n e where n: "\<forall>i<n. interrupted env ?d i" "\<not> interrupted env ?d n"
      "poll_loop env ?d 0 = Some (established env ?d n, e)" "established env ?d n \<longleftrightarrow> e = None"
    using poll_loop_ends [OF assms] by blast
  have E: "(\<exists>k. established env ?d k \<and> (\<forall>i<k. interrupted env ?d i)) = established env ?d n"
    using established_first [OF n(1,2)] by blast
  show ?thesis
    unfolding E using n(3,4)
    by (cases "getfl_err env"; cases "nonblock_err env"; cases "restore_err env"; cases "connect_err env")
      (simp_all add: ConnectWithTimeout_def Let_def ex_bool_eq ex_disj_distrib)
qed

text \<open>
  A connection that two signals interrupt: the second interruption comes after 29 seconds,
  and the socket is writable before the 30 seconds are over.
\<close>

definition sock_sample :: sock_env where
  "sock_sample =
     \<lparr>O_NONBLOCK = 2048, getfl_err = None, nonblock_err = None, connect_err = Some EINPROGRESS,
      clock_gettime = (\<lambda>k. (1000 + (if k = 0 then 0 else if k = 1 then 1 else if k \<le> 3 then 29 else 40), 500)),
      poll = (\<lambda>k ms. if k < 2 then Inl EINTR else Inr True), so_error = (\<lambda>_. Inr None), restore_err = None\<rparr>"

lemma sock_sample_simps:
  "getfl_err sock_sample = None" "nonblock_err sock_sample = None" "restore_err sock_sample = None"
  "connect_err sock_sample = Some EINPROGRESS" "connect_deadline sock_sample kSocketTimeoutSec = 1030000000"
  "MonotonicNowUs sock_sample 4 = 1040000000"
  "established sock_sample 1030000000 2" "interrupted sock_sample 1030000000 0" "interrupted sock_sample 1030000000 (Suc 0)"
  by (simp_all add: sock_sample_def connect_deadline_def MonotonicNowUs_def kSocketTimeoutSec_def established_def
      interrupted_def)

theorem connect_with_timeout_ends_witness:
  "\<exists>s'. ConnectWithTimeout sock_sample kSocketTimeoutSec \<lparr>fl = 2, sock_errno = None\<rparr> = Some (s', True) \<and> fl s' = 2"
proof -
  let ?d = "connect_deadline sock_sample kSocketTimeoutSec" and ?s = "\<lparr>fl = 2, sock_errno = None\<rparr>"
  have "?d \<le> MonotonicNowUs sock_sample (3 + 1)" by (simp add: sock_sample_simps)
  from connect_with_timeout_ends [OF this, of ?s]
  obtain s' ok where C: "ConnectWithTimeout sock_sample kSocketTimeoutSec ?s = Some (s', ok)"
      "ok \<longleftrightarrow> (\<exists>k. established sock_sample ?d k \<and> (\<forall>i<k. interrupted sock_sample ?d i))" "fl s' = fl ?s"
    unfolding sock_sample_simps(1-4) by (elim exE conjE) (rule that; simp)
  have "\<forall>i<2. interrupted sock_sample ?d i" by (simp add: sock_sample_simps less_2_cases_iff)
  then have ok using C(2) sock_sample_simps(5,7) by auto
  with C(1,3) show ?thesis by simp
qed

subsection \<open>The loop over the addresses\<close>

text \<open>
  What \<^verbatim>\<open>TcpConnect\<close> finds at an address: no socket, or one and the result of
  \<^verbatim>\<open>ConnectWithTimeout\<close> on it.
\<close>

definition tcp_addr :: "sock_env option \<Rightarrow> sock_state \<Rightarrow> bool \<times> bool" where
  "tcp_addr a s =
     (case a of
        None \<Rightarrow> (False, False)
      | Some env \<Rightarrow> (True, case ConnectWithTimeout env kSocketTimeoutSec s of Some (_, ok) \<Rightarrow> ok | None \<Rightarrow> False))"

lemma tcp_try_True: "snd (tcp_try addrs st) \<longleftrightarrow> (True, True) \<in> set addrs"
  by (induction addrs st rule: tcp_try.induct) (auto simp: Let_def)

lemma TcpConnect_addrs: "snd (TcpConnect (env\<lparr>tcp_addrs := Some as\<rparr>) st) \<longleftrightarrow> (True, True) \<in> set as"
proof -
  obtain st' ok where t: "tcp_try as st = (st', ok)" by (cases "tcp_try as st")
  then show ?thesis using tcp_try_True [of as st] by (cases ok) (simp_all add: TcpConnect_def)
qed

lemma tcp_addr_True:
  "tcp_addr a s = (True, True) \<longleftrightarrow>
     (\<exists>senv. a = Some senv \<and> (\<exists>s'. ConnectWithTimeout senv kSocketTimeoutSec s = Some (s', True)))"
proof (cases a)
  case (Some senv)
  then show ?thesis by (cases "ConnectWithTimeout senv kSocketTimeoutSec s") (auto simp: tcp_addr_def)
qed (simp add: tcp_addr_def)

lemma TcpConnect_reaches:
  "snd (TcpConnect (env\<lparr>tcp_addrs := Some (map (\<lambda>a. tcp_addr a s) addrs)\<rparr>) st) \<longleftrightarrow>
     (\<exists>senv. Some senv \<in> set addrs \<and> (\<exists>s'. ConnectWithTimeout senv kSocketTimeoutSec s = Some (s', True)))"
  unfolding TcpConnect_addrs set_map image_iff eq_commute [of "(True, True)"] tcp_addr_True Bex_def
  by blast

end
