(* ===== verification/Psch_Concurrent.thy ===== *)
theory Psch_Concurrent
  imports Psch_Queue_Props
begin

section \<open>Concurrent producers and the lock-free consumer (\<^verbatim>\<open>shmem.c\<close>)\<close>

text \<open>
  The other theories run an operation on the queue to completion. Here \<^verbatim>\<open>TryEnqueueLocked\<close> and
  \<^verbatim>\<open>PschDequeueEvent\<close> are split where they touch what processes share: taking and releasing the
  lock, the overflow check, the copy of the fixed part, storing or taking the error message,
  storing or taking the query text, and moving a position are one step each. Any number of
  producers and the worker, which takes no lock, interleave in all possible ways. The lock-free
  drop of an event that found the ring full may happen at any time, since the positions it was
  decided on may be old. \<open>published\<close> and \<open>consumed\<close> are histories: the events that became visible,
  each with what was stored of it, and those that the worker has got.
\<close>

declare length_abs_queue [simp del]

subsection \<open>Steps\<close>

text \<open>
  Where a producer is: \<open>PWritten ev h\<close> has copied the fixed part of \<open>ev\<close> into the slot of
  position \<open>h\<close>, \<open>PErr\<close> has also stored the error message, \<open>PStored\<close> the query text; \<open>PDone\<close> has
  published the slot, or given up, and will release the lock.
\<close>

datatype producer_pc =
    PIdle | PLocked PschEvent | PWritten PschEvent u64 | PErr PschEvent u64 | PStored PschEvent u64 | PDone

text \<open>
  Where the worker is, with the event it fills: \<open>CFound t\<close> has seen that position \<open>t\<close> is
  published, \<open>CErr\<close> has copied the fixed part and taken the error message, \<open>CQuery\<close> also the
  query text.
\<close>

datatype consumer_pc =
    CIdle PschEvent | CFound PschEvent u64 | CErr PschEvent u64 | CQuery PschEvent u64

record csys =
  seg :: PschSharedState
  procs :: "nat \<Rightarrow> PschProc"
  force_overflow :: "nat \<Rightarrow> bool"
  saved_capture :: "nat \<Rightarrow> bool"
  producers :: "nat \<Rightarrow> producer_pc"
  consumer :: consumer_pc
  published :: "(PschEvent \<times> abs_event) list"
  consumed :: "abs_event list"

definition slot_at :: "PschSharedState \<Rightarrow> u64 \<Rightarrow> PschRingEntry" where
  "slot_at sh pos = ring_buffer sh ! ring_index (capacity sh) pos"

definition in_ring :: "PschSharedState \<Rightarrow> u64 \<Rightarrow> bool" where
  "in_ring sh pos \<longleftrightarrow> ring_index (capacity sh) pos < length (ring_buffer sh)"

text \<open>The two parts of a dequeue that touch the area.\<close>

definition take_err :: "pg_env \<Rightarrow> PschEvent \<Rightarrow> u64 \<Rightarrow> world \<Rightarrow> (world, PschEvent) pgres" where
  "take_err env event t w =
     (if in_ring (fst w) t then
        let slot = slot_at (fst w) t;
            event = copy_prefix_to_event slot event
        in pg_bind (PschDsaResolveString env (err_message_dsa slot) (err_message_len slot)
                      (err_message event) (of_nat PSCH_MAX_ERR_MSG_LEN) w)
             (\<lambda>w (buf, len). pg_ret w (event\<lparr>err_message := buf, err_message_len := len\<rparr>))
      else None)"

definition take_query :: "pg_env \<Rightarrow> PschEvent \<Rightarrow> u64 \<Rightarrow> world \<Rightarrow> (world, PschEvent) pgres" where
  "take_query env event t w =
     (if in_ring (fst w) t then
        pg_bind (PschQueryInternResolveAndRelease env (query_dsa (slot_at (fst w) t))
                   (Some (query event)) (of_nat PSCH_MAX_QUERY_LEN) (Some (query_len event)) w)
          (\<lambda>w (buf, len). pg_ret w (event\<lparr>query := the buf, query_len := the len\<rparr>))
      else None)"

text \<open>
  Process 0 is the worker. \<open>force_overflow\<close> is the setting \<^verbatim>\<open>psch_debug_force_locked_overflow\<close> of each
  process; \<open>p_next\<close> goes on with the next event of a batch under the same lock.
\<close>

inductive cstep :: "pg_env \<Rightarrow> csys \<Rightarrow> csys \<Rightarrow> bool" for env where
  p_lock: "producers s i = PIdle \<Longrightarrow> i \<noteq> 0 \<Longrightarrow> event_shape ev \<Longrightarrow>
     PschSuppressErrorCapture True (seg s, procs s i) = (w, sv) \<Longrightarrow>
     LWLockConditionalAcquire w = ((sh, p), True) \<Longrightarrow>
     cstep env s (s\<lparr>seg := sh, procs := (procs s)(i := p), saved_capture := (saved_capture s)(i := sv),
                    producers := (producers s)(i := PLocked ev)\<rparr>)"
| p_full: "producers s i = PLocked ev \<Longrightarrow>
     ucast (capacity (seg s)) \<le> head (seg s) - tail (seg s) \<or> force_overflow s i \<Longrightarrow>
     HandleOverflow env (seg s, procs s i) = Some (sh, p) \<Longrightarrow>
     cstep env s (s\<lparr>seg := sh, procs := (procs s)(i := p), producers := (producers s)(i := PDone)\<rparr>)"
| p_write: "producers s i = PLocked ev \<Longrightarrow>
     \<not> (ucast (capacity (seg s)) \<le> head (seg s) - tail (seg s) \<or> force_overflow s i) \<Longrightarrow>
     in_ring (seg s) (head (seg s)) \<Longrightarrow>
     cstep env s (s\<lparr>seg := upd_slot (ring_index (capacity (seg s)) (head (seg s))) (copy_prefix_to_slot ev) (seg s),
                    producers := (producers s)(i := PWritten ev (head (seg s)))\<rparr>)"
| p_err: "producers s i = PWritten ev h \<Longrightarrow>
     store_err env ev (ring_index (capacity (seg s)) h) (seg s, procs s i) = Some ((sh, p), r) \<Longrightarrow>
     cstep env s (s\<lparr>seg := sh, procs := (procs s)(i := p),
                    producers := (producers s)(i := (if r = Throw then PDone else PErr ev h))\<rparr>)"
| p_query: "producers s i = PErr ev h \<Longrightarrow>
     store_query env ev (ring_index (capacity (seg s)) h) (seg s, procs s i) = Some ((sh, p), r) \<Longrightarrow>
     cstep env s (s\<lparr>seg := sh, procs := (procs s)(i := p),
                    producers := (producers s)(i := (if r = Throw then PDone else PStored ev h))\<rparr>)"
| p_publish: "producers s i = PStored ev h \<Longrightarrow>
     cstep env s (s\<lparr>seg := (seg s)\<lparr>head := h + 1, enqueued := enqueued (seg s) + 1\<rparr>,
                    producers := (producers s)(i := PDone),
                    published := published s @ [(ev, abs_slot (seg s) (slot_at (seg s) h))]\<rparr>)"
| p_next: "producers s i = PDone \<Longrightarrow> event_shape ev \<Longrightarrow>
     cstep env s (s\<lparr>producers := (producers s)(i := PLocked ev)\<rparr>)"
| p_unlock: "producers s i = PDone \<Longrightarrow> unlock_and_restore (saved_capture s i) (seg s, procs s i) = (sh, p) \<Longrightarrow>
     cstep env s (s\<lparr>seg := sh, procs := (procs s)(i := p), producers := (producers s)(i := PIdle)\<rparr>)"
| overflow: "PschSuppressErrorCapture True (seg s, procs s i) = (w, sv) \<Longrightarrow>
     HandleOverflow env w = Some w' \<Longrightarrow> PschSuppressErrorCapture sv w' = ((sh, p), sv') \<Longrightarrow>
     producers s i = PIdle \<Longrightarrow> cstep env s (s\<lparr>seg := sh, procs := (procs s)(i := p)\<rparr>)"
| c_find: "consumer s = CIdle ev \<Longrightarrow> head (seg s) \<noteq> tail (seg s) \<Longrightarrow>
     cstep env s (s\<lparr>consumer := CFound ev (tail (seg s))\<rparr>)"
| c_err: "consumer s = CFound ev t \<Longrightarrow> take_err env ev t (seg s, procs s 0) = Some ((sh, p), Ret ev') \<Longrightarrow>
     cstep env s (s\<lparr>seg := sh, procs := (procs s)(0 := p), consumer := CErr ev' t\<rparr>)"
| c_query: "consumer s = CErr ev t \<Longrightarrow> take_query env ev t (seg s, procs s 0) = Some ((sh, p), Ret ev') \<Longrightarrow>
     cstep env s (s\<lparr>seg := sh, procs := (procs s)(0 := p), consumer := CQuery ev' t\<rparr>)"
| c_retire: "consumer s = CQuery ev t \<Longrightarrow>
     cstep env s (s\<lparr>seg := (seg s)\<lparr>tail := t + 1\<rparr>, consumer := CIdle ev, consumed := consumed s @ [out_event ev]\<rparr>)"

subsection \<open>The invariant\<close>

definition no_err :: "PschRingEntry \<Rightarrow> PschRingEntry" where
  "no_err e = e\<lparr>err_message_dsa := InvalidDsaPointer, err_message_len := 0\<rparr>"

definition no_query :: "PschRingEntry \<Rightarrow> PschRingEntry" where
  "no_query e = e\<lparr>query_dsa := InvalidDsaPointer, query_len := 0\<rparr>"

lemma no_simps [simp]:
  "err_message_dsa (no_err e) = InvalidDsaPointer" "err_message_len (no_err e) = 0"
  "query_dsa (no_err e) = query_dsa e" "query_len (no_err e) = query_len e"
  "query_dsa (no_query e) = InvalidDsaPointer" "query_len (no_query e) = 0"
  "err_message_dsa (no_query e) = err_message_dsa e" "err_message_len (no_query e) = err_message_len e"
  "slot_query sh (no_err e) = slot_query sh e" "slot_err sh (no_query e) = slot_err sh e"
  "numeric_part (no_err e) = numeric_part e" "numeric_part (no_query e) = numeric_part e"
  by (simp_all add: no_err_def no_query_def slot_query_def slot_err_def)

text \<open>What a producer owns beyond the queue: the slot it fills, as far as it has.\<close>

primrec unpublished :: "PschSharedState \<Rightarrow> producer_pc \<Rightarrow> PschRingEntry list" where
  "unpublished sh PIdle = []"
| "unpublished sh (PLocked ev) = []"
| "unpublished sh (PWritten ev h) = [no_query (no_err (slot_at sh h))]"
| "unpublished sh (PErr ev h) = [no_query (slot_at sh h)]"
| "unpublished sh (PStored ev h) = [slot_at sh h]"
| "unpublished sh PDone = []"

text \<open>What of the queue the worker has not taken yet.\<close>

primrec held :: "PschSharedState \<Rightarrow> consumer_pc \<Rightarrow> PschRingEntry list" where
  "held sh (CIdle ev) = live sh"
| "held sh (CFound ev t) = live sh"
| "held sh (CErr ev t) = no_err (hd (live sh)) # tl (live sh)"
| "held sh (CQuery ev t) = tl (live sh)"

text \<open>The events that are published and not consumed.\<close>

primrec in_flight :: "PschSharedState \<Rightarrow> consumer_pc \<Rightarrow> abs_event list" where
  "in_flight sh (CIdle ev) = abs_queue sh"
| "in_flight sh (CFound ev t) = abs_queue sh"
| "in_flight sh (CErr ev t) = (numeric_part ev, err_text ev, slot_query sh (hd (live sh))) # map (abs_slot sh) (tl (live sh))"
| "in_flight sh (CQuery ev t) = out_event ev # map (abs_slot sh) (tl (live sh))"

definition room :: "PschSharedState \<Rightarrow> u64 \<Rightarrow> bool" where
  "room sh h \<longleftrightarrow> h = head sh \<and> unat (head sh - tail sh) < unat (capacity sh)"

primrec filling_ok :: "PschSharedState \<Rightarrow> producer_pc \<Rightarrow> bool" where
  "filling_ok sh PIdle = True"
| "filling_ok sh (PLocked ev) = event_shape ev"
| "filling_ok sh (PWritten ev h) =
     (event_shape ev \<and> room sh h \<and> numeric_part (slot_at sh h) = numeric_part ev \<and>
      err_message_len (slot_at sh h) = err_message_len ev \<and> query_len (slot_at sh h) = query_len ev)"
| "filling_ok sh (PErr ev h) =
     (event_shape ev \<and> room sh h \<and> numeric_part (slot_at sh h) = numeric_part ev \<and>
      query_len (slot_at sh h) = query_len ev \<and>
      (slot_err sh (slot_at sh h) = kept_err ev \<or> slot_err sh (slot_at sh h) = []))"
| "filling_ok sh (PStored ev h) = (room sh h \<and> kept_as ev (abs_slot sh (slot_at sh h)))"
| "filling_ok sh PDone = True"

primrec consumer_ok :: "PschSharedState \<Rightarrow> consumer_pc \<Rightarrow> bool" where
  "consumer_ok sh (CIdle ev) = event_bufs ev"
| "consumer_ok sh (CFound ev t) = (event_bufs ev \<and> t = tail sh \<and> head sh \<noteq> tail sh)"
| "consumer_ok sh (CErr ev t) = (event_bufs ev \<and> t = tail sh \<and> head sh \<noteq> tail sh)"
| "consumer_ok sh (CQuery ev t) = (event_bufs ev \<and> t = tail sh \<and> head sh \<noteq> tail sh)"

definition ring_inv :: "PschSharedState \<Rightarrow> bool" where
  "ring_inv sh \<longleftrightarrow>
     pow2_capacity (capacity sh) \<and> length (ring_buffer sh) = unat (capacity sh) \<and>
     unat (head sh - tail sh) \<le> unat (capacity sh) \<and> raw_dsa_area sh \<and> length (last_error_text sh) = 256"

text \<open>Producer \<open>j\<close> is the only one that may be between taking and releasing the lock.\<close>

definition cinv_at :: "nat \<Rightarrow> csys \<Rightarrow> bool" where
  "cinv_at j s \<longleftrightarrow>
     (\<forall>i. i \<noteq> j \<longrightarrow> producers s i = PIdle) \<and> (producers s j \<noteq> PIdle \<longrightarrow> lock (seg s) \<and> disable_error_capture (procs s j)) \<and>
     ring_inv (seg s) \<and> heap_inv (seg s) (unpublished (seg s) (producers s j) @ held (seg s) (consumer s)) \<and>
     filling_ok (seg s) (producers s j) \<and> consumer_ok (seg s) (consumer s) \<and>
     (\<forall>i. proc_ready (seg s) (procs s i)) \<and> psch_dsa (procs s 0) \<and> j \<noteq> 0 \<and>
     (\<forall>ev h. producers s j = PErr ev h \<and> err_message_dsa (slot_at (seg s) h) \<noteq> InvalidDsaPointer \<longrightarrow> psch_dsa (procs s j)) \<and>
     map snd (published s) = consumed s @ in_flight (seg s) (consumer s) \<and>
     list_all (\<lambda>(ev, a). kept_as ev a) (published s)"

definition cinv :: "csys \<Rightarrow> bool" where
  "cinv s \<longleftrightarrow> (\<exists>j. cinv_at j s)"

lemma heap_inv_perm:
  assumes "mset L = mset L'"
  shows "heap_inv sh L = heap_inv sh L'"
proof -
  have q: "query_refs L = query_refs L'" using assms by (simp add: query_refs_def)
  have "mset (err_refs L) = mset (err_refs L')" using assms by (simp add: err_refs_def)
  then have "distinct (err_refs L) = distinct (err_refs L')" "set (err_refs L) = set (err_refs L')"
    by (metis mset_eq_imp_distinct_iff, metis mset_eq_setD)
  moreover have "set L = set L'" by (rule mset_eq_setD [OF assms])
  ultimately show ?thesis by (simp add: heap_inv_def q)
qed

lemma heap_inv_swap: "heap_inv sh (L @ L') = heap_inv sh (L' @ L)"
  by (rule heap_inv_perm) simp

text \<open>Three kinds of change: of the counters, of the area, of the slot behind the queue.\<close>

definition same_queue :: "PschSharedState \<Rightarrow> PschSharedState \<Rightarrow> bool" where
  "same_queue sh sh' \<longleftrightarrow>
     ring_buffer sh' = ring_buffer sh \<and> capacity sh' = capacity sh \<and> head sh' = head sh \<and> tail sh' = tail sh \<and>
     dsa_area sh' = dsa_area sh \<and> intern_tab sh' = intern_tab sh \<and> raw_dsa_area sh' = raw_dsa_area sh \<and>
     last_error_text sh' = last_error_text sh"

lemma same_queueD:
  assumes "same_queue sh sh'"
  shows "unpublished sh' pc = unpublished sh pc" "held sh' c = held sh c" "in_flight sh' c = in_flight sh c"
    "filling_ok sh' pc = filling_ok sh pc" "consumer_ok sh' c = consumer_ok sh c" "ring_inv sh' = ring_inv sh"
    "heap_inv sh' L = heap_inv sh L" "proc_ready sh' p = proc_ready sh p" "slot_at sh' h = slot_at sh h"
proof -
  note a = assms [unfolded same_queue_def]
  have l: "live sh' = live sh" "slot_at sh' = slot_at sh" "room sh' = room sh"
    using a by (simp_all add: live_def slot_at_def room_def fun_eq_iff)
  have t: "abs_slot sh' = abs_slot sh" "slot_err sh' = slot_err sh" "slot_query sh' = slot_query sh"
    using a by (simp_all add: abs_slot_def slot_err_def slot_query_def fun_eq_iff)
  show "unpublished sh' pc = unpublished sh pc" "filling_ok sh' pc = filling_ok sh pc" by (cases pc; simp add: l t)+
  show "held sh' c = held sh c" "in_flight sh' c = in_flight sh c" "consumer_ok sh' c = consumer_ok sh c"
    using a by (cases c; simp add: l t abs_queue_def)+
  show "ring_inv sh' = ring_inv sh" "heap_inv sh' L = heap_inv sh L" "proc_ready sh' p = proc_ready sh p"
      "slot_at sh' h = slot_at sh h"
    using a l heap_inv_cong [of sh' sh] by (simp_all add: ring_inv_def proc_ready_def)
qed

lemma same_queue_overflow [simp]: "same_queue sh (overflowed n sh g)" "same_queue sh (sh\<lparr>lock := b\<rparr>)"
  by (simp_all add: same_queue_def overflowed_def)

lemma in_flight_keep:
  assumes "live sh' = live sh" and "\<And>x. x \<in> set (held sh c) \<Longrightarrow> keeps_slot sh sh' x"
  shows "in_flight sh' c = in_flight sh c"
proof (cases c)
  case (CErr ev t)
  then have "abs_slot sh' (no_err (hd (live sh))) = abs_slot sh (no_err (hd (live sh)))"
    by (intro keeps_slotD(1) assms(2)) simp
  then have "slot_query sh' (hd (live sh)) = slot_query sh (hd (live sh))" by (simp add: abs_slot_def)
  with CErr assms keeps_slotD(1) show ?thesis by simp
qed (use assms keeps_slotD(1) in \<open>simp_all add: abs_queue_def\<close>)

lemma held_live: "live sh' = live sh \<Longrightarrow> held sh' c = held sh c"
  by (cases c) simp_all

lemma consumer_ok_cong: "head sh' = head sh \<Longrightarrow> tail sh' = tail sh \<Longrightarrow> consumer_ok sh' c = consumer_ok sh c"
  by (cases c) simp_all

lemma live_ne: "head sh \<noteq> tail sh \<Longrightarrow> live sh = slot_at sh (tail sh) # ring_contents (capacity sh) (ring_buffer sh) (tail sh + 1) (head sh)"
  unfolding live_def slot_at_def by (rule ring_contents_retire)

lemma length_held: "length (held sh c) \<le> Suc (length (live sh))"
  by (cases c) simp_all

lemma write_head:
  assumes "ring_inv sh" and "room sh h" and out: "same_outside_ring sh sh'"
    and ring: "ring_buffer sh' = (ring_buffer sh)[ring_index (capacity sh) h := x]"
  shows "live sh' = live sh" "slot_at sh' h = x" "ring_inv sh'" "room sh' h" "consumer_ok sh' c = consumer_ok sh c"
proof -
  note o = same_outside_ringD [OF out]
  have r: "pow2_capacity (capacity sh)" "length (ring_buffer sh) = unat (capacity sh)" "h = head sh"
      "unat (head sh - tail sh) < unat (capacity sh)"
    using assms(1,2) by (simp_all add: ring_inv_def room_def)
  show "live sh' = live sh" using ring_contents_write_head [OF r(1,2,4), of x] ring o r(3) by (simp add: live_def)
  show "slot_at sh' h = x" using ring_index_less [OF r(1), of h] r(2) ring o by (simp add: slot_at_def)
  show "ring_inv sh'" using assms(1) ring o by (simp add: ring_inv_def)
  show "room sh' h" using assms(2) o by (simp add: room_def)
  show "consumer_ok sh' c = consumer_ok sh c" by (rule consumer_ok_cong) (use o in simp_all)
qed

lemma area_change:
  assumes "queue_part sh' = queue_part sh"
  shows "live sh' = live sh" "slot_at sh' h = slot_at sh h" "ring_inv sh' = ring_inv sh" "room sh' h = room sh h"
    "head sh' = head sh" "tail sh' = tail sh" "lock sh' = lock sh" "in_ring sh' h = in_ring sh h"
  using queue_part_ring [OF assms] same_outside_ringD [OF queue_part_outside [OF assms]]
  by (simp_all add: live_def slot_at_def ring_inv_def room_def in_ring_def)

lemma ring_inv_in_ring: "ring_inv sh \<Longrightarrow> in_ring sh h"
  using ring_index_less by (auto simp: ring_inv_def in_ring_def)

lemma held_publish:
  assumes "live sh' = live sh @ [x]" and "consumer_ok sh c"
  shows "held sh' c = held sh c @ [x]"
proof -
  have "live sh \<noteq> []" if "head sh \<noteq> tail sh" using live_ne [OF that] by simp
  with assms show ?thesis by (cases c) auto
qed

subsection \<open>Every step keeps it\<close>

lemma cinv_atD:
  assumes "cinv_at j s"
  shows "i \<noteq> j \<Longrightarrow> producers s i = PIdle" "producers s j \<noteq> PIdle \<Longrightarrow> lock (seg s)" "ring_inv (seg s)"
    "heap_inv (seg s) (unpublished (seg s) (producers s j) @ held (seg s) (consumer s))"
    "filling_ok (seg s) (producers s j)" "consumer_ok (seg s) (consumer s)" "proc_ready (seg s) (procs s i)"
    "psch_dsa (procs s 0)" "j \<noteq> 0" "map snd (published s) = consumed s @ in_flight (seg s) (consumer s)"
    "list_all (\<lambda>(ev, a). kept_as ev a) (published s)"
    "producers s j = PErr ev h \<Longrightarrow> err_message_dsa (slot_at (seg s) h) \<noteq> InvalidDsaPointer \<Longrightarrow> psch_dsa (procs s j)"
    "producers s j \<noteq> PIdle \<Longrightarrow> disable_error_capture (procs s j)"
  using assms by (auto simp: cinv_at_def)

lemma active_producer: "cinv_at j s \<Longrightarrow> producers s i \<noteq> PIdle \<Longrightarrow> i = j"
  using cinv_atD(1) by blast

text \<open>A step of the producer that leaves the queue as it is.\<close>

lemma producer_step:
  assumes I: "cinv_at j s" and pc: "producers s j \<noteq> PIdle" and live: "live sh = live (seg s)"
    and lock: "lock sh = lock (seg s)" and inv: "ring_inv sh" "heap_inv sh (unpublished sh pc' @ held (seg s) (consumer s))"
    and ok: "filling_ok sh pc'" "\<And>c. consumer_ok sh c = consumer_ok (seg s) c"
    and keep: "\<And>x. x \<in> set (held (seg s) (consumer s)) \<Longrightarrow> keeps_slot (seg s) sh x"
    and p: "same_proc (procs s j) p" and raw: "raw_dsa_area sh = raw_dsa_area (seg s)"
    and att: "\<And>ev h. pc' = PErr ev h \<Longrightarrow> err_message_dsa (slot_at sh h) \<noteq> InvalidDsaPointer \<Longrightarrow> psch_dsa p"
  shows "cinv_at j (s\<lparr>seg := sh, procs := (procs s)(j := p), producers := (producers s)(j := pc')\<rparr>)"
proof -
  have r: "proc_ready sh q = proc_ready (seg s) q" for q using raw by (simp add: proc_ready_def)
  have "proc_ready (seg s) p" using cinv_atD(7) [OF I] same_procD [OF p] by (simp add: proc_ready_def)
  moreover have "disable_error_capture p" using cinv_atD(13) [OF I pc] same_procD [OF p] by simp
  ultimately show ?thesis
    using cinv_atD [OF I] I pc live lock inv ok att unfolding cinv_at_def
    by (simp add: r held_live [OF live] in_flight_keep [OF live keep])
qed

lemma p_lock_ok:
  assumes I: "cinv_at j s" and "producers s i = PIdle" and i: "i \<noteq> 0" and ev: "event_shape ev"
    and G: "PschSuppressErrorCapture True (seg s, procs s i) = (w, sv)" and L: "LWLockConditionalAcquire w = ((sh, p), True)"
  shows "cinv_at i (s\<lparr>seg := sh, procs := (procs s)(i := p), saved_capture := (saved_capture s)(i := sv),
     producers := (producers s)(i := PLocked ev)\<rparr>)"
proof -
  have l: "\<not> lock (seg s)" "sh = (seg s)\<lparr>lock := True\<rparr>" "p = (procs s i)\<lparr>disable_error_capture := True, holds_lock := True\<rparr>"
    using L G by (auto simp: LWLockConditionalAcquire_def PschSuppressErrorCapture_def split: if_splits)
  have "producers s j = PIdle" using cinv_atD(2) [OF I] l(1) by blast
  then have idle: "producers s k = PIdle" for k by (cases "k = j") (simp_all add: cinv_atD(1) [OF I])
  have sq: "same_queue (seg s) sh" by (simp add: l(2))
  have "proc_ready (seg s) p" using cinv_atD(7) [OF I, of i] by (simp add: l(3) proc_ready_def)
  with cinv_atD [OF I] idle i ev show ?thesis
    unfolding cinv_at_def by (simp add: same_queueD [OF sq]) (simp add: l(2,3))
qed

lemma counter_step:
  assumes I: "cinv_at j s" and sq: "same_queue (seg s) sh" and "lock sh = lock (seg s)"
  shows "cinv_at j (s\<lparr>seg := sh\<rparr>)"
  using I assms(3) unfolding cinv_at_def by (simp add: same_queueD [OF sq])

lemma cinv_at_PDone:
  assumes I: "cinv_at j s" and "producers s j = PLocked ev"
  shows "cinv_at j (s\<lparr>producers := (producers s)(j := PDone)\<rparr>)"
  using I assms(2) unfolding cinv_at_def by auto

lemma p_full_ok:
  assumes I: "cinv_at j s" and pc: "producers s j = PLocked ev" and H: "HandleOverflow env (seg s, procs s j) = Some (sh, p)"
  shows "cinv_at j (s\<lparr>seg := sh, procs := (procs s)(j := p), producers := (producers s)(j := PDone)\<rparr>)"
proof -
  have h: "sh = overflowed 1 (seg s) True" "p = procs s j"
    using H HandleOverflow_guarded [OF cinv_atD(13) [OF I], of env "seg s"] pc by simp_all
  have "lock sh = lock (seg s)" by (simp add: h(1))
  from counter_step [OF cinv_at_PDone [OF I pc], of sh] this show ?thesis
    by (simp add: cinv_at_def h)
qed

lemma p_write_ok:
  assumes I: "cinv_at j s" and pc: "producers s j = PLocked ev"
    and nf: "\<not> ucast (capacity (seg s)) \<le> head (seg s) - tail (seg s)"
  shows "cinv_at j (s\<lparr>seg := upd_slot (ring_index (capacity (seg s)) (head (seg s))) (copy_prefix_to_slot ev) (seg s),
     producers := (producers s)(j := PWritten ev (head (seg s)))\<rparr>)"
proof -
  let ?sh = "seg s" and ?h = "head (seg s)"
  let ?x = "copy_prefix_to_slot ev (slot_at ?sh ?h)"
  let ?sh' = "upd_slot (ring_index (capacity ?sh) ?h) (copy_prefix_to_slot ev) ?sh"
  have R: "ring_inv ?sh" and room: "room ?sh ?h"
    using cinv_atD(3) [OF I] nf by (simp_all add: room_def word_le_nat_alt)
  have out: "same_outside_ring ?sh ?sh'" by (simp add: upd_slot_def)
  have ring: "ring_buffer ?sh' = (ring_buffer ?sh)[ring_index (capacity ?sh) ?h := ?x]" by (simp add: upd_slot_def slot_at_def)
  note W = write_head [OF R room out ring]
  have area: "dsa_area ?sh' = dsa_area ?sh" "intern_tab ?sh' = intern_tab ?sh" by (simp_all add: upd_slot_def)
  have "heap_inv ?sh (held ?sh (consumer s))" using cinv_atD(4) [OF I] pc by simp
  then have "heap_inv ?sh' (no_query (no_err ?x) # held ?sh (consumer s))"
    by (intro heap_inv_blank) (simp_all add: heap_inv_cong [OF area])
  moreover have "event_shape ev" using cinv_atD(5) [OF I] pc by simp
  ultimately have "cinv_at j (s\<lparr>seg := ?sh', procs := (procs s)(j := procs s j), producers := (producers s)(j := PWritten ev ?h)\<rparr>)"
    using pc same_outside_ringD [OF out] W
    by (intro producer_step [OF I]) (simp_all add: keeps_slot_def area)
  then show ?thesis by simp
qed

lemma p_err_ok:
  assumes I: "cinv_at j s" and fresh: "dsa_allocate_fresh env" and pc: "producers s j = PWritten ev h"
  shows "\<exists>sh p r. store_err env ev (ring_index (capacity (seg s)) h) (seg s, procs s j) = Some ((sh, p), r) \<and>
     capacity sh = capacity (seg s) \<and>
     cinv_at j (s\<lparr>seg := sh, procs := (procs s)(j := p),
       producers := (producers s)(j := (if r = Throw then PDone else PErr ev h))\<rparr>)"
proof -
  let ?sh = "seg s" and ?i = "ring_index (capacity (seg s)) h" and ?e = "slot_at (seg s) h"
  let ?b = "no_query (no_err ?e)" and ?L = "held (seg s) (consumer s)"
  have R: "ring_inv ?sh" by (rule cinv_atD(3) [OF I])
  have ok: "event_shape ev" "room ?sh h" "numeric_part ?e = numeric_part ev" "err_message_len ?e = err_message_len ev"
      "query_len ?e = query_len ev"
    using cinv_atD(5) [OF I] pc by simp_all
  have heap: "heap_inv ?sh (?b # ?L)" using cinv_atD(4) [OF I] pc by simp
  have i: "?i < length (ring_buffer ?sh)" "err_message_len (ring_buffer ?sh ! ?i) = err_message_len ev"
    using ring_inv_in_ring [OF R, of h] ok(4) by (simp_all add: in_ring_def slot_at_def)
  show ?thesis
  proof (rule store_err_spec [OF fresh ok(1) cinv_atD(7) [OF I, of j] heap _ _ i])
    fix sh' p' dp n
    assume E: "store_err env ev ?i (?sh, procs s j) = Some ((sh', p'), Ret ())" "same_proc (procs s j) p'"
        "same_outside_ring ?sh sh'" "dp \<noteq> InvalidDsaPointer \<or> psch_dsa (procs s j) \<Longrightarrow> psch_dsa p'"
        "ring_buffer sh' = (ring_buffer ?sh)[?i := (ring_buffer ?sh ! ?i)\<lparr>err_message_dsa := dp, err_message_len := n\<rparr>]"
        "heap_inv sh' (?b\<lparr>err_message_dsa := dp, err_message_len := n\<rparr> # ?L)"
        "\<And>x. x \<in> set ?L \<Longrightarrow> keeps_slot ?sh sh' x"
        "slot_err sh' (?b\<lparr>err_message_dsa := dp, err_message_len := n\<rparr>) = kept_err ev \<or>
         slot_err sh' (?b\<lparr>err_message_dsa := dp, err_message_len := n\<rparr>) = [] \<and> err_lost env ?sh ev"
    let ?x = "?e\<lparr>err_message_dsa := dp, err_message_len := n\<rparr>"
    have b: "?b\<lparr>err_message_dsa := dp, err_message_len := n\<rparr> = no_query ?x" by (simp add: no_query_def no_err_def)
    note W = write_head [OF R ok(2) E(3) E(5) [folded slot_at_def]]
    have "slot_err sh' ?x = kept_err ev \<or> slot_err sh' ?x = []" using E(8) unfolding b by auto
    then have "cinv_at j (s\<lparr>seg := sh', procs := (procs s)(j := p'), producers := (producers s)(j := PErr ev h)\<rparr>)"
      using pc E(2,4,6,7) W ok same_outside_ringD [OF E(3)]
      by (intro producer_step [OF I]) (simp_all add: b)
    with E(1) same_outside_ringD(3) [OF E(3)] show ?thesis
      by (intro exI [of _ sh'] exI [of _ p'] exI [of _ "Ret ()"]) simp
  next
    assume T: "store_err env ev ?i (?sh, procs s j) = Some ((?sh, procs s j), Throw)"
    have "heap_inv ?sh ?L" by (rule heap_inv_unblank [OF heap]) simp_all
    then have "cinv_at j (s\<lparr>seg := ?sh, procs := (procs s)(j := procs s j), producers := (producers s)(j := PDone)\<rparr>)"
      using pc R by (intro producer_step [OF I]) (simp_all add: keeps_slot_def)
    with T show ?thesis by (intro exI [of _ ?sh] exI [of _ "procs s j"] exI [of _ Throw]) simp
  qed simp_all
qed

lemma p_query_ok:
  assumes I: "cinv_at j s" and fresh: "dsa_allocate_fresh env" and pc: "producers s j = PErr ev h"
  shows "\<exists>sh p r. store_query env ev (ring_index (capacity (seg s)) h) (seg s, procs s j) = Some ((sh, p), r) \<and>
     capacity sh = capacity (seg s) \<and>
     cinv_at j (s\<lparr>seg := sh, procs := (procs s)(j := p),
       producers := (producers s)(j := (if r = Throw then PDone else PStored ev h))\<rparr>)"
proof -
  let ?sh = "seg s" and ?i = "ring_index (capacity (seg s)) h" and ?e = "slot_at (seg s) h"
  let ?b = "no_query ?e" and ?L = "held (seg s) (consumer s)"
  have R: "ring_inv ?sh" by (rule cinv_atD(3) [OF I])
  have ok: "event_shape ev" "room ?sh h" "numeric_part ?e = numeric_part ev" "query_len ?e = query_len ev"
      "slot_err ?sh ?e = kept_err ev \<or> slot_err ?sh ?e = []"
    using cinv_atD(5) [OF I] pc by simp_all
  have heap: "heap_inv ?sh (?b # ?L)" using cinv_atD(4) [OF I] pc by simp
  have i: "?i < length (ring_buffer ?sh)" "query_len (ring_buffer ?sh ! ?i) = query_len ev"
    using ring_inv_in_ring [OF R, of h] ok(4) by (simp_all add: in_ring_def slot_at_def)
  have "length (live ?sh) < 2 ^ 31"
    using ok(2) R pow2_capacity_bound [of "capacity ?sh"] by (simp add: room_def ring_inv_def)
  then have sz: "Suc (length ?L) < 2 ^ 32" using length_held [of ?sh "consumer s"] by simp
  show ?thesis
  proof (rule store_query_spec [OF fresh ok(1) cinv_atD(7) [OF I, of j] heap _ _ i sz])
    fix sh' p' dp n
    assume Q: "store_query env ev ?i (?sh, procs s j) = Some ((sh', p'), Ret ())" "same_proc (procs s j) p'"
        "same_outside_ring ?sh sh'"
        "ring_buffer sh' = (ring_buffer ?sh)[?i := (ring_buffer ?sh ! ?i)\<lparr>query_dsa := dp, query_len := n\<rparr>]"
        "heap_inv sh' (?b\<lparr>query_dsa := dp, query_len := n\<rparr> # ?L)"
        "\<And>x. x \<in> set (?b # ?L) \<Longrightarrow> keeps_slot ?sh sh' x"
        "slot_query sh' (?b\<lparr>query_dsa := dp, query_len := n\<rparr>) = kept_query ev \<or>
         slot_query sh' (?b\<lparr>query_dsa := dp, query_len := n\<rparr>) = [] \<and> query_refused env ?sh ev"
    let ?x = "?e\<lparr>query_dsa := dp, query_len := n\<rparr>"
    have b: "?b\<lparr>query_dsa := dp, query_len := n\<rparr> = ?x" by (simp add: no_query_def)
    note W = write_head [OF R ok(2) Q(3) Q(4) [folded slot_at_def]]
    have "slot_err sh' ?b = slot_err ?sh ?b" using keeps_slotD(1) [OF Q(6) [of ?b]] by (simp add: abs_slot_def)
    then have "kept_as ev (abs_slot sh' ?x)"
      using Q(7) ok(3,5) unfolding b by (auto simp: kept_as_def abs_slot_def)
    then have "cinv_at j (s\<lparr>seg := sh', procs := (procs s)(j := p'), producers := (producers s)(j := PStored ev h)\<rparr>)"
      using pc Q(2,5,6) W same_outside_ringD [OF Q(3)]
      by (intro producer_step [OF I]) (simp_all add: b)
    with Q(1) same_outside_ringD(3) [OF Q(3)] show ?thesis
      by (intro exI [of _ sh'] exI [of _ p'] exI [of _ "Ret ()"]) simp
  next
    assume T: "store_query env ev ?i (?sh, procs s j) = Some ((?sh, procs s j), Throw)" "\<not> psch_dsa (procs s j)"
    have "err_message_dsa ?e = InvalidDsaPointer" using cinv_atD(12) [OF I pc] T(2) by blast
    then have "heap_inv ?sh ?L" by (intro heap_inv_unblank [OF heap]) simp_all
    then have "cinv_at j (s\<lparr>seg := ?sh, procs := (procs s)(j := procs s j), producers := (producers s)(j := PDone)\<rparr>)"
      using pc R by (intro producer_step [OF I]) (simp_all add: keeps_slot_def)
    with T show ?thesis by (intro exI [of _ ?sh] exI [of _ "procs s j"] exI [of _ Throw]) simp
  qed simp_all
qed

lemma p_publish_ok:
  assumes I: "cinv_at j s" and pc: "producers s j = PStored ev h"
  shows "cinv_at j (s\<lparr>seg := (seg s)\<lparr>head := h + 1, enqueued := enqueued (seg s) + 1\<rparr>,
     producers := (producers s)(j := PDone), published := published s @ [(ev, abs_slot (seg s) (slot_at (seg s) h))]\<rparr>)"
proof -
  let ?sh = "seg s" and ?e = "slot_at (seg s) h"
  let ?sh' = "?sh\<lparr>head := h + 1, enqueued := enqueued ?sh + 1\<rparr>"
  have ok: "room ?sh h" "kept_as ev (abs_slot ?sh ?e)" using cinv_atD(5) [OF I] pc by simp_all
  have r: "pow2_capacity (capacity ?sh)" "length (ring_buffer ?sh) = unat (capacity ?sh)" "h = head ?sh"
      "unat (head ?sh - tail ?sh) < unat (capacity ?sh)"
    using ok(1) cinv_atD(3) [OF I] by (simp_all add: room_def ring_inv_def)
  have live: "live ?sh' = live ?sh @ [?e]"
    using ring_contents_publish [OF r(1,2,4), of ?e] r(3) by (simp add: live_def slot_at_def)
  note C = cinv_atD(6) [OF I]
  have held: "held ?sh' (consumer s) = held ?sh (consumer s) @ [?e]" by (rule held_publish [OF live C])
  have txt_eq: "abs_slot ?sh' = abs_slot ?sh" "slot_query ?sh' = slot_query ?sh"
    by (simp_all add: abs_slot_def slot_err_def slot_query_def fun_eq_iff)
  have ne: "live ?sh \<noteq> []" if "head ?sh \<noteq> tail ?sh" using live_ne [OF that] by simp
  have flight: "in_flight ?sh' (consumer s) = in_flight ?sh (consumer s) @ [abs_slot ?sh ?e]"
    using C ne by (cases "consumer s") (auto simp: abs_queue_def live txt_eq)
  have diff: "unat (h + 1 - tail ?sh) = Suc (unat (head ?sh - tail ?sh))" using unat_diff_Suc [OF r(4,1)] r(3) by simp
  then have R: "ring_inv ?sh'" using cinv_atD(3) [OF I] r by (simp add: ring_inv_def)
  have "h + 1 \<noteq> tail ?sh" using diff by auto
  then have C': "consumer_ok ?sh' (consumer s)" using C by (cases "consumer s") simp_all
  have "heap_inv ?sh' (held ?sh (consumer s) @ [?e])"
    using cinv_atD(4) [OF I] pc heap_inv_cong [of ?sh' ?sh] heap_inv_swap [of ?sh "[?e]"] by simp
  then show ?thesis
    using I pc R C' held flight ok(2) unfolding cinv_at_def by (simp add: proc_ready_def)
qed

lemma p_unlock_ok:
  assumes I: "cinv_at j s" and pc: "producers s j = PDone" 
    and L: "unlock_and_restore (saved_capture s j) (seg s, procs s j) = (sh, p)"
  shows "cinv_at j (s\<lparr>seg := sh, procs := (procs s)(j := p), producers := (producers s)(j := PIdle)\<rparr>)"
proof -
  have l: "sh = (seg s)\<lparr>lock := False\<rparr>" "p = (procs s j)\<lparr>holds_lock := False, disable_error_capture := saved_capture s j\<rparr>"
    using L by simp_all
  have sq: "same_queue (seg s) sh" by (simp add: l(1))
  have "proc_ready (seg s) p" using cinv_atD(7) [OF I, of j] by (simp add: l(2) proc_ready_def)
  with I pc show ?thesis unfolding cinv_at_def by (simp add: same_queueD [OF sq])
qed

text \<open>A step of the worker that only changes the area.\<close>

lemma unpublished_area:
  assumes "queue_part sh' = queue_part sh" and "\<And>x. x \<in> set (unpublished sh pc) \<Longrightarrow> keeps_slot sh sh' x"
  shows "unpublished sh' pc = unpublished sh pc" "filling_ok sh' pc = filling_ok sh pc"
proof -
  note a = area_change [OF assms(1)]
  show "unpublished sh' pc = unpublished sh pc" by (cases pc) (simp_all add: a)
  show "filling_ok sh' pc = filling_ok sh pc"
  proof (cases pc)
    case (PErr ev h)
    then have "abs_slot sh' (no_query (slot_at sh h)) = abs_slot sh (no_query (slot_at sh h))"
      by (intro keeps_slotD(1) assms(2)) simp
    then show ?thesis by (simp add: PErr a abs_slot_def)
  next
    case (PStored ev h)
    then have "abs_slot sh' (slot_at sh h) = abs_slot sh (slot_at sh h)" by (intro keeps_slotD(1) assms(2)) simp
    then show ?thesis by (simp add: PStored a)
  qed (simp_all add: a)
qed

lemma consumer_step:
  assumes I: "cinv_at j s" and qp: "queue_part sh = queue_part (seg s)"
    and heap: "heap_inv sh (held (seg s) c' @ unpublished (seg s) (producers s j))" and ok: "consumer_ok (seg s) c'"
    and keep: "\<And>x. x \<in> set (unpublished (seg s) (producers s j)) \<Longrightarrow> keeps_slot (seg s) sh x"
    and p: "same_proc (procs s 0) p" "psch_dsa p" and flight: "in_flight sh c' = in_flight (seg s) (consumer s)"
  shows "cinv_at j (s\<lparr>seg := sh, procs := (procs s)(0 := p), consumer := c'\<rparr>)"
proof -
  note a = area_change [OF qp]
  have raw: "raw_dsa_area sh = raw_dsa_area (seg s)" using same_outside_ringD(2) [OF queue_part_outside [OF qp]] .
  have r: "proc_ready sh q = proc_ready (seg s) q" for q using raw by (simp add: proc_ready_def)
  have "proc_ready (seg s) p" using cinv_atD(7) [OF I, of 0] same_procD [OF p(1)] by (simp add: proc_ready_def)
  moreover have "heap_inv sh (unpublished sh (producers s j) @ held sh c')"
    using heap heap_inv_swap unpublished_area(1) [OF qp keep] held_live [OF a(1)] by simp
  moreover have "consumer_ok sh c'" using ok consumer_ok_cong [OF a(5,6)] by simp
  ultimately show ?thesis
    using I p(2) flight unpublished_area(2) [OF qp keep] unfolding cinv_at_def by (simp add: r a)
qed

text \<open>What the worker and the producer own when the worker has found an event.\<close>

lemma found_heap:
  assumes I: "cinv_at j s" and c: "consumer s = CFound ev t \<or> consumer s = CErr ev t"
  obtains L where "live (seg s) = slot_at (seg s) t # L" "event_bufs ev" "in_ring (seg s) t"
    "heap_inv (seg s) ((if consumer s = CFound ev t then slot_at (seg s) t else no_err (slot_at (seg s) t)) #
       L @ unpublished (seg s) (producers s j))"
proof -
  have ok: "event_bufs ev" "t = tail (seg s)" "head (seg s) \<noteq> tail (seg s)" using cinv_atD(6) [OF I] c by auto
  obtain L where L: "live (seg s) = slot_at (seg s) t # L" using live_ne [OF ok(3)] ok(2) by simp
  then show ?thesis
    using that cinv_atD(4) [OF I] heap_inv_swap ok(1) ring_inv_in_ring [OF cinv_atD(3) [OF I]] c by auto
qed

lemma c_err_ok:
  assumes I: "cinv_at j s" and c: "consumer s = CFound ev t"
  shows "\<exists>sh p ev'. take_err env ev t (seg s, procs s 0) = Some ((sh, p), Ret ev') \<and> queue_part sh = queue_part (seg s) \<and>
     cinv_at j (s\<lparr>seg := sh, procs := (procs s)(0 := p), consumer := CErr ev' t\<rparr>)"
proof -
  let ?sh = "seg s" and ?e = "slot_at (seg s) t" and ?P = "unpublished (seg s) (producers s j)"
  obtain L where L: "live ?sh = ?e # L" "event_bufs ev" "in_ring ?sh t" "heap_inv ?sh (?e # L @ ?P)"
    using found_heap [OF I] c by auto
  have buf: "length (err_message (copy_prefix_to_event ?e ev)) = PSCH_MAX_ERR_MSG_LEN"
    using L(2) by (simp add: event_bufs_def)
  show ?thesis
  proof (rule resolve_err_spec [OF L(4) cinv_atD(7) [OF I, of 0] buf, of env])
    fix sh' p' buf' len
    assume E: "PschDsaResolveString env (err_message_dsa ?e) (err_message_len ?e) (err_message (copy_prefix_to_event ?e ev))
          (of_nat PSCH_MAX_ERR_MSG_LEN) (?sh, procs s 0) = Some ((sh', p'), Ret (buf', len))"
      "same_proc (procs s 0) p'" "psch_dsa p' \<or> sh' = ?sh \<and> p' = procs s 0" "queue_part sh' = queue_part ?sh"
      "heap_inv sh' (?e\<lparr>err_message_dsa := InvalidDsaPointer, err_message_len := 0\<rparr> # L @ ?P)"
      "\<And>x. x \<in> set (L @ ?P) \<Longrightarrow> keeps_slot ?sh sh' x" "slot_query sh' ?e = slot_query ?sh ?e"
      "take (unat len) buf' = slot_err ?sh ?e" "length buf' = length (err_message (copy_prefix_to_event ?e ev))"
    let ?ev = "(copy_prefix_to_event ?e ev)\<lparr>err_message := buf', err_message_len := len\<rparr>"
    have r: "take_err env ev t (?sh, procs s 0) = Some ((sh', p'), Ret ?ev)"
      using E(1) L(3) by (simp add: take_err_def pg_ret_def Let_def)
    have ok: "consumer_ok ?sh (CErr ?ev t)"
      using cinv_atD(6) [OF I] c E(9) by (simp add: event_bufs_def)
    have same: "abs_slot sh' x = abs_slot ?sh x" if "x \<in> set L" for x using keeps_slotD(1) E(6) that by simp
    have flight: "in_flight sh' (CErr ?ev t) = in_flight ?sh (consumer s)"
      using c E(7,8) same area_change(1) [OF E(4)] L(1)
      by (simp add: abs_queue_def abs_slot_def [of ?sh ?e] err_text_def)
    have heap: "heap_inv sh' (held ?sh (CErr ?ev t) @ ?P)" using E(5) L(1) by (simp add: no_err_def)
    have dsa: "psch_dsa p'" using E(3) cinv_atD(8) [OF I] by auto
    have "keeps_slot ?sh sh' x" if "x \<in> set ?P" for x using E(6) that by simp
    from consumer_step [OF I E(4) heap ok this E(2) dsa flight] r E(4) show ?thesis by blast
  next
    assume "PschDsaResolveString env (err_message_dsa ?e) (err_message_len ?e) (err_message (copy_prefix_to_event ?e ev))
          (of_nat PSCH_MAX_ERR_MSG_LEN) (?sh, procs s 0) = Some ((?sh, procs s 0), Throw)" "\<not> psch_dsa (procs s 0)"
    then show ?thesis using cinv_atD(8) [OF I] by simp
  qed
qed

lemma c_query_ok:
  assumes I: "cinv_at j s" and c: "consumer s = CErr ev t"
  shows "\<exists>sh p ev'. take_query env ev t (seg s, procs s 0) = Some ((sh, p), Ret ev') \<and>
     cinv_at j (s\<lparr>seg := sh, procs := (procs s)(0 := p), consumer := CQuery ev' t\<rparr>)"
proof -
  let ?sh = "seg s" and ?e = "slot_at (seg s) t" and ?P = "unpublished (seg s) (producers s j)"
  obtain L where L: "live ?sh = ?e # L" "event_bufs ev" "in_ring ?sh t" "heap_inv ?sh (no_err ?e # L @ ?P)"
    using found_heap [OF I] c by auto
  have buf: "length (query ev) = PSCH_MAX_QUERY_LEN" using L(2) by (simp add: event_bufs_def)
  show ?thesis
  proof (rule resolve_query_spec [OF L(4) _ cinv_atD(7) [OF I, of 0] buf, of env "query_len ev"])
    fix sh' p' buf' len
    assume Q: "PschQueryInternResolveAndRelease env (query_dsa (no_err ?e)) (Some (query ev)) (of_nat PSCH_MAX_QUERY_LEN)
          (Some (query_len ev)) (?sh, procs s 0) = Some ((sh', p'), Ret (Some buf', Some len))"
      "same_proc (procs s 0) p'" "queue_part sh' = queue_part ?sh" "heap_inv sh' (L @ ?P)"
      "\<And>x. x \<in> set (L @ ?P) \<Longrightarrow> keeps_slot ?sh sh' x" "take (unat len) buf' = slot_query ?sh (no_err ?e)"
      "length buf' = length (query ev)"
    let ?ev = "ev\<lparr>query := buf', query_len := len\<rparr>"
    have r: "take_query env ev t (?sh, procs s 0) = Some ((sh', p'), Ret ?ev)"
      using Q(1) L(3) by (simp add: take_query_def pg_ret_def)
    have ok: "consumer_ok ?sh (CQuery ?ev t)" using cinv_atD(6) [OF I] c Q(7) by (simp add: event_bufs_def)
    have same: "abs_slot sh' x = abs_slot ?sh x" if "x \<in> set L" for x using keeps_slotD(1) Q(5) that by simp
    have flight: "in_flight sh' (CQuery ?ev t) = in_flight ?sh (consumer s)"
      using c Q(6) same area_change(1) [OF Q(3)] L(1)
      by (simp add: out_event_def query_text_def err_text_def)
    have dsa: "psch_dsa p'"
      using PschQueryInternResolveAndRelease_attached [OF cinv_atD(8) [OF I]] Q(1) cinv_atD(8) [OF I]
      unfolding attached_ok_def by metis
    have heap: "heap_inv sh' (held ?sh (CQuery ?ev t) @ ?P)" using Q(4) L(1) by simp
    have "keeps_slot ?sh sh' x" if "x \<in> set ?P" for x using Q(5) that by simp
    from consumer_step [OF I Q(3) heap ok this Q(2) dsa flight] r show ?thesis by blast
  next
    assume "PschQueryInternResolveAndRelease env (query_dsa (no_err ?e)) (Some (query ev)) (of_nat PSCH_MAX_QUERY_LEN)
          (Some (query_len ev)) (?sh, procs s 0) = Some ((?sh, procs s 0), Throw)" "\<not> psch_dsa (procs s 0)"
    then show ?thesis using cinv_atD(8) [OF I] by simp
  qed simp
qed

lemma c_retire_ok:
  assumes I: "cinv_at j s" and c: "consumer s = CQuery ev t"
  shows "cinv_at j (s\<lparr>seg := (seg s)\<lparr>tail := t + 1\<rparr>, consumer := CIdle ev, consumed := consumed s @ [out_event ev]\<rparr>)"
proof -
  let ?sh = "seg s" and ?sh' = "(seg s)\<lparr>tail := t + 1\<rparr>" and ?P = "unpublished (seg s) (producers s j)"
  have ok: "event_bufs ev" "t = tail ?sh" "head ?sh \<noteq> tail ?sh" using cinv_atD(6) [OF I] c by auto
  have live: "live ?sh = slot_at ?sh t # live ?sh'" using live_ne [OF ok(3)] ok(2) by (simp add: live_def)
  have txt_eq: "abs_slot ?sh' = abs_slot ?sh" "slot_err ?sh' = slot_err ?sh" "slot_at ?sh' = slot_at ?sh"
    by (simp_all add: abs_slot_def slot_err_def slot_query_def slot_at_def fun_eq_iff)
  have len: "unat (head ?sh - tail ?sh) = Suc (unat (head ?sh - (t + 1)))"
    using arg_cong [OF live, of length] by simp
  then have R: "ring_inv ?sh'" using cinv_atD(3) [OF I] by (simp add: ring_inv_def)
  have pend: "unpublished ?sh' pc = unpublished ?sh pc" for pc by (cases pc) (simp_all add: txt_eq)
  have "room ?sh h \<Longrightarrow> room ?sh' h" for h using len by (simp add: room_def)
  then have P: "filling_ok ?sh' (producers s j)"
    using cinv_atD(5) [OF I] by (cases "producers s j") (simp_all add: txt_eq)
  have heap: "heap_inv ?sh' (unpublished ?sh (producers s j) @ live ?sh')"
    using cinv_atD(4) [OF I] c live heap_inv_cong [of ?sh' ?sh] by simp
  have "in_flight ?sh (consumer s) = out_event ev # abs_queue ?sh'"
    using c live by (simp add: abs_queue_def txt_eq)
  with I R P pend heap ok(1) show ?thesis unfolding cinv_at_def by (simp add: proc_ready_def txt_eq)
qed

lemma cstep_cinv:
  assumes "cstep env s s'" and "cinv s" and fresh: "dsa_allocate_fresh env"
  shows "cinv s'"
proof -
  obtain j where I: "cinv_at j s" using assms(2) by (auto simp: cinv_def)
  have act: "i = j" if "producers s i \<noteq> PIdle" for i by (rule active_producer [OF I that])
  from assms(1) show ?thesis
  proof cases
    case (p_lock i ev w sv sh p)
    show ?thesis unfolding cinv_def p_lock(1) using p_lock_ok [OF I p_lock(2-6)] by blast
  next
    case (p_full i ev sh p)
    then show ?thesis using act [of i] p_full_ok [OF I, of ev env sh p] by (auto simp: cinv_def)
  next
    case (p_write i ev)
    then show ?thesis using act [of i] p_write_ok [OF I, of ev] by (auto simp: cinv_def)
  next
    case (p_err i ev h sh p r)
    then show ?thesis using act [of i] p_err_ok [OF I fresh, of ev h] by (auto simp: cinv_def)
  next
    case (p_query i ev h sh p r)
    then show ?thesis using act [of i] p_query_ok [OF I fresh, of ev h] by (auto simp: cinv_def)
  next
    case (p_publish i ev h)
    then show ?thesis using act [of i] p_publish_ok [OF I, of ev h] by (auto simp: cinv_def)
  next
    case (p_next i ev)
    then show ?thesis using act [of i] I by (auto simp: cinv_def cinv_at_def)
  next
    case (p_unlock i sh p)
    then show ?thesis using act [of i] p_unlock_ok [OF I] by (auto simp: cinv_def)
  next
    case (overflow i w sv w' sh p sv')
    have h: "sh = overflowed 1 (seg s) True" "p = procs s i"
      using overflow(2-4) HandleOverflow_guarded [of "(procs s i)\<lparr>disable_error_capture := True\<rparr>" env "seg s"]
      by (auto simp: PschSuppressErrorCapture_def)
    have "lock (overflowed 1 (seg s) True) = lock (seg s)" by simp
    from counter_step [OF I same_queue_overflow(1) this] show ?thesis
      unfolding cinv_def overflow(1) h by (auto simp: fun_upd_idem)
  next
    case (c_find ev)
    then show ?thesis using I by (auto simp: cinv_def cinv_at_def)
  next
    case (c_err ev t sh p ev')
    then show ?thesis using c_err_ok [OF I, of ev t env] by (auto simp: cinv_def)
  next
    case (c_query ev t sh p ev')
    then show ?thesis using c_query_ok [OF I, of ev t env] by (auto simp: cinv_def)
  next
    case (c_retire ev t)
    then show ?thesis using c_retire_ok [OF I, of ev t] by (auto simp: cinv_def)
  qed
qed

subsection \<open>Runs\<close>

text \<open>All processes are attached, the queue is empty and nobody is at it; the worker has opened the area.\<close>

definition cstart :: "csys \<Rightarrow> bool" where
  "cstart s \<longleftrightarrow>
     queue_inv (seg s) \<and> head (seg s) = tail (seg s) \<and> \<not> lock (seg s) \<and> (\<forall>i. producers s i = PIdle) \<and>
     (\<exists>ev. consumer s = CIdle ev \<and> event_bufs ev) \<and> (\<forall>i. proc_ready (seg s) (procs s i)) \<and> psch_dsa (procs s 0) \<and>
     published s = [] \<and> consumed s = []"

lemma cstart_cinv: "cstart s \<Longrightarrow> cinv s"
proof -
  assume s: "cstart s"
  then have "live (seg s) = []" by (simp add: cstart_def live_def)
  with s have "cinv_at 1 s"
    by (auto simp: cstart_def cinv_at_def queue_inv_def ring_inv_def abs_queue_def)
  then show ?thesis by (auto simp: cinv_def)
qed

lemma reachable_cinv:
  assumes "(cstep env)\<^sup>*\<^sup>* s0 s" and "cstart s0" and "dsa_allocate_fresh env"
  shows "cinv s"
  using assms(1)
proof (induction rule: rtranclp_induct)
  case base
  show ?case by (rule cstart_cinv [OF assms(2)])
next
  case (step s s')
  then show ?case using cstep_cinv assms(3) by blast
qed

text \<open>A process that has begun an operation can do its next step: nothing undefined happens.\<close>

definition never_stuck :: "pg_env \<Rightarrow> csys \<Rightarrow> bool" where
  "never_stuck env s \<longleftrightarrow>
     (\<forall>i. producers s i \<noteq> PIdle \<longrightarrow> (\<exists>s'. cstep env s s' \<and> producers s' i \<noteq> producers s i)) \<and>
     ((\<not> (\<exists>ev. consumer s = CIdle ev)) \<longrightarrow> (\<exists>s'. cstep env s s' \<and> consumer s' \<noteq> consumer s))"

lemma producer_never_stuck:
  assumes I: "cinv_at j s" and fresh: "dsa_allocate_fresh env" and "producers s j \<noteq> PIdle"
  shows "\<exists>s'. cstep env s s' \<and> producers s' j \<noteq> producers s j"
proof -
  have move: ?thesis if "cstep env s s'" "producers s' j \<noteq> producers s j" for s' using that by blast
  show ?thesis
  proof (cases "producers s j")
    case (PLocked ev)
    show ?thesis
    proof (cases "ucast (capacity (seg s)) \<le> head (seg s) - tail (seg s) \<or> force_overflow s j")
      case True
      have "HandleOverflow env (seg s, procs s j) = Some (overflowed 1 (seg s) True, procs s j)"
        by (rule HandleOverflow_guarded) (simp add: cinv_atD(13) [OF I] PLocked)
      from cstep.p_full [OF PLocked True this] show ?thesis by (rule move) (simp add: PLocked)
    next
      case False
      show ?thesis
        by (rule move [OF cstep.p_write [OF PLocked False ring_inv_in_ring [OF cinv_atD(3) [OF I]]]]) (simp add: PLocked)
    qed
  next
    case (PWritten ev h)
    then obtain sh p r where S: "store_err env ev (ring_index (capacity (seg s)) h) (seg s, procs s j) = Some ((sh, p), r)"
      using p_err_ok [OF I fresh] by blast
    show ?thesis by (rule move [OF cstep.p_err [OF PWritten S]]) (simp add: PWritten)
  next
    case (PErr ev h)
    then obtain sh p r where S: "store_query env ev (ring_index (capacity (seg s)) h) (seg s, procs s j) = Some ((sh, p), r)"
      using p_query_ok [OF I fresh] by blast
    show ?thesis by (rule move [OF cstep.p_query [OF PErr S]]) (simp add: PErr)
  next
    case (PStored ev h)
    show ?thesis by (rule move [OF cstep.p_publish [OF PStored]]) (simp add: PStored)
  next
    case PDone
    obtain sh p where S: "unlock_and_restore (saved_capture s j) (seg s, procs s j) = (sh, p)"
      by (cases "unlock_and_restore (saved_capture s j) (seg s, procs s j)")
    show ?thesis by (rule move [OF cstep.p_unlock [OF PDone S]]) (simp add: PDone)
  qed (use assms(3) in simp)
qed

lemma consumer_never_stuck:
  assumes I: "cinv_at j s" and "\<not> (\<exists>ev. consumer s = CIdle ev)"
  shows "\<exists>s'. cstep env s s' \<and> consumer s' \<noteq> consumer s"
proof -
  have move: ?thesis if "cstep env s s'" "consumer s' \<noteq> consumer s" for s' using that by blast
  show ?thesis
  proof (cases "consumer s")
    case (CFound ev t)
    then obtain sh p ev' where S: "take_err env ev t (seg s, procs s 0) = Some ((sh, p), Ret ev')"
      using c_err_ok [OF I] by blast
    show ?thesis by (rule move [OF cstep.c_err [OF CFound S]]) (simp add: CFound)
  next
    case (CErr ev t)
    then obtain sh p ev' where S: "take_query env ev t (seg s, procs s 0) = Some ((sh, p), Ret ev')"
      using c_query_ok [OF I] by blast
    show ?thesis by (rule move [OF cstep.c_query [OF CErr S]]) (simp add: CErr)
  next
    case (CQuery ev t)
    show ?thesis by (rule move [OF cstep.c_retire [OF CQuery]]) (simp add: CQuery)
  qed (use assms(2) in simp)
qed

lemma cinv_never_stuck:
  assumes "cinv s" and "dsa_allocate_fresh env"
  shows "never_stuck env s"
proof -
  obtain j where I: "cinv_at j s" using assms(1) by (auto simp: cinv_def)
  show ?thesis
    unfolding never_stuck_def
    using producer_never_stuck [OF I assms(2)] active_producer [OF I] consumer_never_stuck [OF I, of env] by blast
qed

subsection \<open>Undisturbed runs\<close>

text \<open>
  The steps are those of the functions: a producer that nobody interrupts does what
  \<^const>\<open>TryEnqueueLocked\<close> does, a worker that nobody interrupts what \<^const>\<open>PschDequeueEvent\<close> does.
\<close>

lemma solo_enqueue:
  assumes I: "cinv_at i s" and fresh: "dsa_allocate_fresh env" and pc: "producers s i = PLocked ev"
    and g: "psch_debug_force_locked_overflow g = force_overflow s i"
  shows "\<exists>s' r. (cstep env)\<^sup>*\<^sup>* s s' \<and>
     TryEnqueueLocked g env ev (capacity (seg s)) (seg s, procs s i) = Some ((seg s', procs s' i), r) \<and>
     producers s' i = PDone \<and> consumer s' = consumer s \<and> consumed s' = consumed s \<and>
     length (published s') = length (published s) + (if r = Ret True then 1 else 0)"
proof (cases "ucast (capacity (seg s)) \<le> head (seg s) - tail (seg s) \<or> force_overflow s i")
  case True
  have "TryEnqueueLocked g env ev (capacity (seg s)) (seg s, procs s i)
      = Some ((overflowed 1 (seg s) True, procs s i), Ret False)"
    using True cinv_atD(13) [OF I] pc by (intro TryEnqueueLocked_full) (simp_all add: queue_full_def g)
  note T = this
  have H: "HandleOverflow env (seg s, procs s i) = Some (overflowed 1 (seg s) True, procs s i)"
    by (rule HandleOverflow_guarded) (simp add: cinv_atD(13) [OF I] pc)
  show ?thesis
    by (rule exI, rule exI [of _ "Ret False"], rule conjI, rule r_into_rtranclp, rule cstep.p_full [OF pc True H])
      (simp add: T)
next
  case False
  define h where "h = head (seg s)"
  define k where "k = ring_index (capacity (seg s)) h"
  define s1 where "s1 = s\<lparr>seg := upd_slot k (copy_prefix_to_slot ev) (seg s), producers := (producers s)(i := PWritten ev h)\<rparr>"
  have s1: "capacity (seg s1) = capacity (seg s)" "procs s1 i = procs s i" "producers s1 i = PWritten ev h"
      "consumer s1 = consumer s" "consumed s1 = consumed s" "published s1 = published s"
    by (simp_all add: s1_def upd_slot_def)
  have in_r: "in_ring (seg s) h" by (rule ring_inv_in_ring [OF cinv_atD(3) [OF I]])
  have step1: "cstep env s s1"
    unfolding s1_def h_def k_def by (rule cstep.p_write [OF pc False in_r [unfolded h_def]])
  have I1: "cinv_at i s1" unfolding s1_def h_def k_def using False by (intro p_write_ok [OF I pc]) simp
  obtain sh2 p2 r2 where E: "store_err env ev k (seg s1, procs s i) = Some ((sh2, p2), r2)" "capacity sh2 = capacity (seg s)"
      "cinv_at i (s1\<lparr>seg := sh2, procs := (procs s1)(i := p2),
         producers := (producers s1)(i := (if r2 = Throw then PDone else PErr ev h))\<rparr>)"
    using p_err_ok [OF I1 fresh s1(3)] unfolding s1(1,2) k_def [symmetric] by blast
  define s2 where "s2 = s1\<lparr>seg := sh2, procs := (procs s1)(i := p2),
         producers := (producers s1)(i := (if r2 = Throw then PDone else PErr ev h))\<rparr>"
  have s2: "seg s2 = sh2" "procs s2 i = p2" "producers s2 i = (if r2 = Throw then PDone else PErr ev h)"
      "consumer s2 = consumer s" "consumed s2 = consumed s" "published s2 = published s"
    by (simp_all add: s2_def s1)
  have step2: "cstep env s1 s2"
    unfolding s2_def by (rule cstep.p_err [OF s1(3)]) (use E(1) s1(1,2) k_def in simp)
  note run2 = rtranclp.rtrancl_into_rtrancl [OF r_into_rtranclp [of "cstep env", OF step1] step2]
  have try_eq: "TryEnqueueLocked g env ev (capacity (seg s)) (seg s, procs s i) =
      pg_bind (Some ((sh2, p2), r2)) (\<lambda>w _. pg_bind (store_query env ev k w)
        (\<lambda>(sh, p) _. pg_ret (sh\<lparr>head := h + 1, enqueued := enqueued sh + 1\<rparr>, p) True))"
    unfolding E(1) [symmetric] s1_def h_def k_def
    using False g in_r [unfolded h_def] by (simp add: TryEnqueueLocked_def in_ring_def Let_def)
  show ?thesis
  proof (cases r2)
    case Throw
    show ?thesis
      by (rule exI [of _ s2], rule exI [of _ Throw], rule conjI, rule run2) (simp add: try_eq s2 Throw)
  next
    case (Ret u)
    have pc2: "producers s2 i = PErr ev h" by (simp add: s2 Ret)
    obtain sh3 p3 r3 where Q: "store_query env ev k (sh2, p2) = Some ((sh3, p3), r3)"
      using p_query_ok [OF E(3) [folded s2_def] fresh pc2] unfolding s2(1,2) E(2) k_def [symmetric] by blast
    define s3 where "s3 = s2\<lparr>seg := sh3, procs := (procs s2)(i := p3),
      producers := (producers s2)(i := (if r3 = Throw then PDone else PStored ev h))\<rparr>"
    have s3: "seg s3 = sh3" "procs s3 i = p3" "producers s3 i = (if r3 = Throw then PDone else PStored ev h)"
        "consumer s3 = consumer s" "consumed s3 = consumed s" "published s3 = published s"
      by (simp_all add: s3_def s2)
    have step3: "cstep env s2 s3"
      unfolding s3_def by (rule cstep.p_query [OF pc2]) (use Q E(2) s2(1,2) k_def in simp)
    note run3 = rtranclp.rtrancl_into_rtrancl [OF run2 step3]
    show ?thesis
    proof (cases r3)
      case Throw
      show ?thesis
        by (rule exI [of _ s3], rule exI [of _ Throw], rule conjI, rule run3) (simp add: try_eq s3 Throw Ret Q)
    next
      case (Ret v)
      have pc3: "producers s3 i = PStored ev h" by (simp add: s3 Ret)
      note run4 = rtranclp.rtrancl_into_rtrancl [OF run3 cstep.p_publish [OF pc3]]
      show ?thesis
        by (rule exI, rule exI [of _ "Ret True"], rule conjI, rule run4)
          (simp add: try_eq s3 Q Ret \<open>r2 = Ret u\<close> pg_ret_def)
    qed
  qed
qed

lemma take_errE:
  assumes "take_err env ev t (sh, p) = Some (w, Ret ev')"
  obtains buf len where "in_ring sh t"
    "PschDsaResolveString env (err_message_dsa (slot_at sh t)) (err_message_len (slot_at sh t))
       (err_message ev) (of_nat PSCH_MAX_ERR_MSG_LEN) (sh, p) = Some (w, Ret (buf, len))"
    "ev' = (copy_prefix_to_event (slot_at sh t) ev)\<lparr>err_message := buf, err_message_len := len\<rparr>"
  using assms by (auto simp: take_err_def pg_bind_eq_Some pg_ret_def Let_def split: if_splits)

lemma take_queryE:
  assumes "take_query env ev t (sh, p) = Some (w, Ret ev')"
  obtains buf len where
    "PschQueryInternResolveAndRelease env (query_dsa (slot_at sh t)) (Some (query ev))
       (of_nat PSCH_MAX_QUERY_LEN) (Some (query_len ev)) (sh, p) = Some (w, Ret (buf, len))"
    "ev' = ev\<lparr>query := the buf, query_len := the len\<rparr>"
  using assms by (auto simp: take_query_def pg_bind_eq_Some pg_ret_def split: if_splits)

lemma PschDequeueEvent_steps:
  assumes "psch_shared_state p" "head sh \<noteq> tail sh" "take_err env ev (tail sh) (sh, p) = Some ((sh2, p2), Ret ev2)"
    "slot_at sh2 (tail sh) = slot_at sh (tail sh)" "take_query env ev2 (tail sh) (sh2, p2) = Some ((sh3, p3), Ret ev3)"
  shows "PschDequeueEvent env ev (sh, p) = Some ((sh3\<lparr>tail := tail sh + 1\<rparr>, p3), Ret (True, ev3))"
proof -
  obtain b1 l1 where A: "in_ring sh (tail sh)"
      "PschDsaResolveString env (err_message_dsa (slot_at sh (tail sh))) (err_message_len (slot_at sh (tail sh)))
         (err_message ev) (of_nat PSCH_MAX_ERR_MSG_LEN) (sh, p) = Some ((sh2, p2), Ret (b1, l1))"
      "ev2 = (copy_prefix_to_event (slot_at sh (tail sh)) ev)\<lparr>err_message := b1, err_message_len := l1\<rparr>"
    using assms(3) by (rule take_errE)
  obtain b2 l2 where B: "PschQueryInternResolveAndRelease env (query_dsa (slot_at sh (tail sh))) (Some (query ev2))
         (of_nat PSCH_MAX_QUERY_LEN) (Some (query_len ev2)) (sh2, p2) = Some ((sh3, p3), Ret (b2, l2))"
      "ev3 = ev2\<lparr>query := the b2, query_len := the l2\<rparr>"
    using assms(5) unfolding assms(4) [symmetric] by (rule take_queryE)
  show ?thesis
    using assms(1,2) A(1,2) B(1) unfolding B(2) A(3)
    by (simp add: PschDequeueEvent_def in_ring_def slot_at_def Let_def pg_ret_def)
qed

lemma solo_dequeue:
  assumes I: "cinv_at j s" and c: "consumer s = CIdle ev" and ne: "head (seg s) \<noteq> tail (seg s)"
  shows "\<exists>s' ev'. (cstep env)\<^sup>*\<^sup>* s s' \<and>
     PschDequeueEvent env ev (seg s, procs s 0) = Some ((seg s', procs s' 0), Ret (True, ev')) \<and>
     consumer s' = CIdle ev' \<and> consumed s' = consumed s @ [out_event ev'] \<and> producers s' = producers s \<and>
     published s' = published s"
proof -
  define t where "t = tail (seg s)"
  define s1 where "s1 = s\<lparr>consumer := CFound ev t\<rparr>"
  have s1: "seg s1 = seg s" "procs s1 = procs s" "consumer s1 = CFound ev t" "consumed s1 = consumed s"
      "producers s1 = producers s" "published s1 = published s"
    by (simp_all add: s1_def)
  have step1: "cstep env s s1" unfolding s1_def t_def by (rule cstep.c_find [OF c ne])
  have I1: "cinv_at j s1" using I c ne unfolding s1_def t_def by (auto simp: cinv_at_def)
  obtain sh2 p2 ev2 where E: "take_err env ev t (seg s, procs s 0) = Some ((sh2, p2), Ret ev2)"
      "queue_part sh2 = queue_part (seg s)"
      "cinv_at j (s1\<lparr>seg := sh2, procs := (procs s1)(0 := p2), consumer := CErr ev2 t\<rparr>)"
    using c_err_ok [OF I1 s1(3), of env] unfolding s1(1,2) by blast
  define s2 where "s2 = s1\<lparr>seg := sh2, procs := (procs s1)(0 := p2), consumer := CErr ev2 t\<rparr>"
  have s2: "seg s2 = sh2" "procs s2 0 = p2" "consumer s2 = CErr ev2 t" "consumed s2 = consumed s"
      "producers s2 = producers s" "published s2 = published s"
    by (simp_all add: s2_def s1)
  have step2: "cstep env s1 s2" unfolding s2_def by (rule cstep.c_err [OF s1(3)]) (simp add: s1 E(1))
  obtain sh3 p3 ev3 where Q: "take_query env ev2 t (sh2, p2) = Some ((sh3, p3), Ret ev3)"
    using c_query_ok [OF E(3) [folded s2_def] s2(3), of env] unfolding s2(1,2) by blast
  define s3 where "s3 = s2\<lparr>seg := sh3, procs := (procs s2)(0 := p3), consumer := CQuery ev3 t\<rparr>"
  have s3: "seg s3 = sh3" "procs s3 0 = p3" "consumer s3 = CQuery ev3 t" "consumed s3 = consumed s"
      "producers s3 = producers s" "published s3 = published s"
    by (simp_all add: s3_def s2)
  have step3: "cstep env s2 s3" unfolding s3_def by (rule cstep.c_query [OF s2(3)]) (simp add: s2 Q)
  note step4 = cstep.c_retire [OF s3(3), of env]
  have sp: "psch_shared_state (procs s 0)" using cinv_atD(7) [OF I, of 0] by (simp add: proc_ready_def)
  have slot: "slot_at sh2 t = slot_at (seg s) t" by (rule area_change(2) [OF E(2)])
  have D: "PschDequeueEvent env ev (seg s, procs s 0) = Some ((sh3\<lparr>tail := t + 1\<rparr>, p3), Ret (True, ev3))"
    unfolding t_def
    by (rule PschDequeueEvent_steps [OF sp ne E(1) [unfolded t_def] slot [unfolded t_def] Q [unfolded t_def]])
  note run = rtranclp.rtrancl_into_rtrancl [OF rtranclp.rtrancl_into_rtrancl [OF
        rtranclp.rtrancl_into_rtrancl [OF r_into_rtranclp [of "cstep env", OF step1] step2] step3] step4]
  show ?thesis by (rule exI, rule exI [of _ ev3], rule conjI, rule run) (simp add: D s3)
qed

subsection \<open>A sample run\<close>

text \<open>One producer and the worker, on a segment that has just been set up.\<close>

definition csample :: csys where
  "csample =
     \<lparr>seg = fst (boot_world guc_init), procs = (\<lambda>i. (snd (boot_world guc_init))\<lparr>psch_dsa := True\<rparr>),
      force_overflow = (\<lambda>i. False), saved_capture = (\<lambda>i. False), producers = (\<lambda>i. PIdle), consumer = CIdle zero_event,
      published = [], consumed = []\<rparr>"

lemma csample_start: "cstart csample"
proof -
  have "head (fst (boot_world guc_init)) = tail (fst (boot_world guc_init))"
    using boot_world_facts(2) by (simp add: abs_queue_def live_def ring_contents_eq_Nil)
  then show ?thesis
    using boot_world_facts(1,3) by (simp add: cstart_def csample_def producer_ok_def proc_ready_def)
qed

lemma csample_published:
  obtains s where "(cstep sample_env)\<^sup>*\<^sup>* csample s" "\<forall>i. producers s i = PIdle" "consumer s = CIdle zero_event"
    "consumed s = []" "length (published s) = 1"
    "abs_queue (seg s) = [(numeric_part sample_event, ''bad'', ''SELECT 1'')]"
proof -
  let ?sh = "(fst (boot_world guc_init))\<lparr>lock := True\<rparr>"
  let ?p = "(snd (boot_world guc_init))\<lparr>psch_dsa := True, disable_error_capture := True, holds_lock := True\<rparr>"
  define s1 where "s1 = csample\<lparr>seg := ?sh, procs := (procs csample)(1 := ?p),
    saved_capture := (saved_capture csample)(1 := disable_error_capture (procs csample 1)),
    producers := (producers csample)(1 := PLocked sample_event)\<rparr>"
  have s1: "seg s1 = ?sh" "procs s1 1 = ?p" "producers s1 1 = PLocked sample_event" "consumer s1 = CIdle zero_event"
      "consumed s1 = []" "published s1 = []"
    by (simp_all add: s1_def csample_def)
  have f: "psch_debug_force_locked_overflow guc_init = force_overflow s1 1" by (simp add: s1_def csample_def)
  have step1: "cstep sample_env csample s1"
    unfolding s1_def
    by (rule cstep.p_lock [where w = "(seg csample, (procs csample 1)\<lparr>disable_error_capture := True\<rparr>)"])
      (use boot_world_facts(3) in \<open>simp_all add: csample_def PschSuppressErrorCapture_def LWLockConditionalAcquire_def\<close>)
  have "cinv s1" by (rule cstep_cinv [OF step1 cstart_cinv [OF csample_start] sample_env_fresh])
  then obtain j where J: "cinv_at j s1" by (auto simp: cinv_def)
  then have "j = 1" using active_producer [OF J, of 1] s1(3) by simp
  with J have I1: "cinv_at 1 s1" by simp
  obtain s2 r where S: "(cstep sample_env)\<^sup>*\<^sup>* s1 s2"
      "TryEnqueueLocked guc_init sample_env sample_event (capacity ?sh) (?sh, ?p) = Some ((seg s2, procs s2 1), r)"
      "producers s2 1 = PDone" "consumer s2 = CIdle zero_event" "consumed s2 = []"
      "length (published s2) = (if r = Ret True then 1 else 0)"
    using solo_enqueue [OF I1 sample_env_fresh s1(3) f] unfolding s1 by auto
  have inv: "queue_inv ?sh" "proc_ready ?sh ?p" "\<not> queue_full ?sh" "abs_queue ?sh = []"
    using boot_world_facts(1,2) boot_world_not_full by (simp_all add: producer_ok_def proc_ready_def)
  obtain a where A: "r = Ret True" "abs_queue (seg s2) = [a]" "stored_as sample_env ?sh sample_event a"
  proof (rule TryEnqueueLocked_spec [OF inv(1) sample_env_fresh sample_event_shape inv(2,3) guc_init_flags(2)])
    fix sh' p' a
    assume "TryEnqueueLocked guc_init sample_env sample_event (capacity ?sh) (?sh, ?p) = Some ((sh', p'), Ret True)"
      "abs_queue sh' = abs_queue ?sh @ [a]" "stored_as sample_env ?sh sample_event a"
    with S(2) inv(4) that show ?thesis by simp
  qed simp
  have a: "a = (numeric_part sample_event, kept_err sample_event, kept_query sample_event)"
    by (rule stored_whole [OF inv(1,3) sample_env_fresh sample_env_sized _ _ _ A(3)])
      (simp_all add: boot_world_facts(5) sample_env_serves key_collision_def intern_body_def)
  define s3 where "s3 = s2\<lparr>seg := (seg s2)\<lparr>lock := False\<rparr>,
    procs := (procs s2)(1 := (procs s2 1)\<lparr>holds_lock := False, disable_error_capture := saved_capture s2 1\<rparr>),
    producers := (producers s2)(1 := PIdle)\<rparr>"
  have step3: "cstep sample_env s2 s3" unfolding s3_def by (rule cstep.p_unlock [OF S(3)]) simp
  have run2: "(cstep sample_env)\<^sup>*\<^sup>* csample s2" by (rule converse_rtranclp_into_rtranclp [OF step1 S(1)])
  then have "cinv s2" by (rule reachable_cinv [OF _ csample_start sample_env_fresh])
  then obtain j where J2: "cinv_at j s2" by (auto simp: cinv_def)
  have idle: "producers s3 i = PIdle" for i
    using active_producer [OF J2, of 1] active_producer [OF J2, of i] S(3) by (cases "i = 1") (auto simp: s3_def)
  show ?thesis
    by (rule that [OF rtranclp.rtrancl_into_rtrancl [OF run2 step3]])
      (simp_all add: idle, simp_all add: s3_def S A(1,2) a sample_event_kept)
qed

lemma csample_drained:
  obtains s where "(cstep sample_env)\<^sup>*\<^sup>* csample s" "\<forall>i. producers s i = PIdle" "\<exists>ev. consumer s = CIdle ev"
    "length (consumed s) = 1" "length (published s) = 1"
proof -
  obtain s where s: "(cstep sample_env)\<^sup>*\<^sup>* csample s" "\<forall>i. producers s i = PIdle" "consumer s = CIdle zero_event"
      "consumed s = []" "length (published s) = 1" "abs_queue (seg s) = [(numeric_part sample_event, ''bad'', ''SELECT 1'')]"
    using csample_published by blast
  obtain j where I: "cinv_at j s"
    using reachable_cinv [OF s(1) csample_start sample_env_fresh] by (auto simp: cinv_def)
  have ne: "head (seg s) \<noteq> tail (seg s)" using s(6) by (auto simp: abs_queue_def live_def)
  obtain s' ev' where D: "(cstep sample_env)\<^sup>*\<^sup>* s s'" "consumer s' = CIdle ev'" "consumed s' = [out_event ev']"
      "producers s' = producers s" "published s' = published s"
    using solo_dequeue [OF I s(3) ne, of sample_env] s(4) by auto
  show ?thesis
    by (rule that [OF rtranclp_trans [OF s(1) D(1)]]) (use D s in simp_all)
qed

subsection \<open>Properties\<close>

text \<open>
  C3 In every interleaving of any number of producers with the worker, which takes no lock:
  at most one producer is between taking and releasing the lock; what the worker has got is,
  in order and without gaps or repetitions, a prefix of what was published, and every
  published event is what its producer enqueued (texts may be missing, never wrong), so no
  slot is read before it is complete or overwritten before it is read; no operation ever gets
  stuck or has undefined behaviour; and whenever nobody is at the queue, the segment
  satisfies its invariant and stands for exactly the published events that are not consumed.
\<close>

theorem concurrent_queue_fifo:
  assumes "dsa_allocate_fresh env" and "cstart s0" and "(cstep env)\<^sup>*\<^sup>* s0 s"
  shows "(\<forall>i k. producers s i \<noteq> PIdle \<and> producers s k \<noteq> PIdle \<longrightarrow> i = k) \<and>
     (\<exists>rest. map snd (published s) = consumed s @ rest \<and> list_all (\<lambda>(ev, a). kept_as ev a) (published s) \<and>
        ((\<forall>i. producers s i = PIdle) \<and> (\<exists>ev. consumer s = CIdle ev) \<longrightarrow> queue_inv (seg s) \<and> abs_queue (seg s) = rest)) \<and>
     never_stuck env s"
proof -
  have inv: "cinv s" by (rule reachable_cinv [OF assms(3,2,1)])
  then obtain j where I: "cinv_at j s" by (auto simp: cinv_def)
  have "queue_inv (seg s) \<and> abs_queue (seg s) = in_flight (seg s) (consumer s)"
    if "\<forall>i. producers s i = PIdle" "consumer s = CIdle ev" for ev
    using cinv_atD(3,4) [OF I] that by (simp add: queue_inv_def ring_inv_def)
  then show ?thesis
    using active_producer [OF I] cinv_atD(10,11) [OF I] cinv_never_stuck [OF inv assms(1)] by blast
qed

theorem concurrent_queue_fifo_witness:
  "\<exists>s. (cstep sample_env)\<^sup>*\<^sup>* csample s \<and> queue_inv (seg s) \<and> length (abs_queue (seg s)) = 1 \<and>
     map snd (published s) = abs_queue (seg s) \<and> never_stuck sample_env s"
proof -
  obtain s where s: "(cstep sample_env)\<^sup>*\<^sup>* csample s" "\<forall>i. producers s i = PIdle" "consumer s = CIdle zero_event"
      "consumed s = []" "length (published s) = 1" "abs_queue (seg s) = [(numeric_part sample_event, ''bad'', ''SELECT 1'')]"
    using csample_published by blast
  from concurrent_queue_fifo [OF sample_env_fresh csample_start s(1)] s show ?thesis by auto
qed




text \<open>
  C8 No leak: whatever producers and the worker have done, in any interleaving, once every
  published event has been consumed and nobody is at the queue, nothing is allocated in the
  shared area, the interner's table is empty, and the ring is empty.
\<close>

theorem drained_queue_owns_nothing:
  assumes "dsa_allocate_fresh env" and "cstart s0" and "(cstep env)\<^sup>*\<^sup>* s0 s"
    and "\<forall>i. producers s i = PIdle" and "\<exists>ev. consumer s = CIdle ev" and "length (consumed s) = length (published s)"
  shows "dsa_area (seg s) = Map.empty \<and> intern_tab (seg s) = Map.empty \<and> head (seg s) = tail (seg s)"
proof -
  obtain ev where c: "consumer s = CIdle ev" using assms(5) by blast
  obtain j where I: "cinv_at j s" using reachable_cinv [OF assms(3,2,1)] by (auto simp: cinv_def)
  have "length (map snd (published s)) = length (consumed s) + length (abs_queue (seg s))"
    unfolding cinv_atD(10) [OF I] c by simp
  then have "length (live (seg s)) = 0" using assms(6) by (simp add: abs_queue_def)
  then have live: "live (seg s) = []" unfolding length_0_conv .
  then have "heap_inv (seg s) []" using cinv_atD(4) [OF I] assms(4) c by simp
  then show ?thesis using heap_inv_Nil_empty live by (simp add: live_def ring_contents_eq_Nil)
qed

theorem drained_queue_owns_nothing_witness:
  "\<exists>s. (cstep sample_env)\<^sup>*\<^sup>* csample s \<and> length (consumed s) = 1 \<and> dsa_area (seg s) = Map.empty \<and>
     intern_tab (seg s) = Map.empty"
proof -
  obtain s where s: "(cstep sample_env)\<^sup>*\<^sup>* csample s" "\<forall>i. producers s i = PIdle" "\<exists>ev. consumer s = CIdle ev"
      "length (consumed s) = 1" "length (published s) = 1"
    using csample_drained by blast
  from drained_queue_owns_nothing [OF sample_env_fresh csample_start s(1) _ s(3)] s(1,2,4,5) show ?thesis by auto
qed

end
