(* ===== verification/Spec2Isabelle.thy ===== *)
theory Spec2Isabelle
  imports Psch_Sql Psch_Connect Psch_Arrow Psch_Concurrent
begin

text \<open>
  Verification of pg\_stat\_ch, a PostgreSQL extension that captures query telemetry in
  executor hooks, queues it in shared memory, and exports it from a background worker to
  ClickHouse or to an OpenTelemetry collector. All file names are relative to
  \<^verbatim>\<open>src/src/\<close>.

  \<^bold>\<open>How the program works.\<close> \<^verbatim>\<open>pg_stat_ch.c\<close> is loaded by the postmaster: it defines the
  configuration variables, reserves a shared segment and installs hooks. In every backend the
  hooks (\<^verbatim>\<open>hooks/\<close>) build an event at the end of a statement or for an error message, with the
  normalized text of the query from a backend-local cache. \<^verbatim>\<open>PschEnqueueEvent\<close> (\<^verbatim>\<open>queue/shmem.c\<close>)
  puts the event into a ring of fixed-size slots under a lock it only tries to take; the
  texts go to a DSA area, query texts through a reference-counted interner. If the lock is
  taken the event waits in a local batch (\<^verbatim>\<open>queue/local_batch.c\<close>). The background worker
  (\<^verbatim>\<open>worker/bgworker.c\<close>) dequeues batches without the lock and hands them
  (\<^verbatim>\<open>export/stats_exporter.cc\<close>) to the exporter object, as rows of columns or as Arrow blocks.

  \<^bold>\<open>Conventions.\<close> C structs are records, machine integers words, a Postgres call returns
  \<open>('s, 'a) pgres\<close>: \<^const>\<open>None\<close> is undefined behaviour, a deadlock or a call that does not return,
  \<^const>\<open>Throw\<close> is \<^verbatim>\<open>ereport(ERROR)\<close> (in the worker's main functions: the process exits), \<^const>\<open>Ret\<close> a
  normal return. So \<open>f x = Some (s, Ret y)\<close> always includes that the code is safe and ends.
  Buffers are character lists, and every access is checked. PostgreSQL, the allocator, dynahash,
  the SQL scanner, Arrow, gRPC, OpenSSL, the ClickHouse client and the operating system are
  parameters (records \<open>pg_env\<close>, \<open>hook_env\<close>, \<open>arrow_lib\<close>, \<open>chc_env\<close>, \<open>otel_env\<close>, \<open>export_env\<close>, \<open>bgw_env\<close>,
  \<open>sock_env\<close>); what is assumed of them is a hypothesis of the theorems and holds for the sample
  environments that the witnesses use.

  \<^bold>\<open>The theories.\<close>
  \<^item> \<open>Psch_Prelude\<close>: results with errors, triples \<open>ok_res\<close> with their rules, C strings, word lemmas.
  \<^item> \<open>Psch_Ring\<close>: index arithmetic of the ring, and the contract \<open>bounded_fifo\<close>.
  \<^item> \<open>Psch_Guc\<close>: \<^verbatim>\<open>config/guc.c\<close>, the table of variables. Shown: the accepted capacities are the powers
    of two in range.
  \<^item> \<open>Psch_Event\<close>: \<^verbatim>\<open>queue/event.h\<close>, \<^verbatim>\<open>queue/ring_entry.h\<close>; both structs and their byte layout. The
    copies of the common prefix with one \<^verbatim>\<open>memcpy\<close> move every field to the field of its name.
  \<^item> \<open>Psch_Dsa\<close>, \<open>Psch_Query_Intern\<close>: \<^verbatim>\<open>queue/psch_dsa.c\<close>, \<^verbatim>\<open>queue/query_intern.c\<close>; the heap and the interner.
    An allocation has exactly the bytes asked for, and writes to it are checked. Contract \<open>refcounted_interner\<close>, interpreted as \<open>store\<close>.
  \<^item> \<open>Psch_Shmem\<close>, \<open>Psch_Queue_Inv\<close>, \<open>Psch_Local_Batch\<close>, \<open>Psch_Boot\<close>, \<open>Psch_Queue_Props\<close>: \<^verbatim>\<open>queue/shmem.c\<close> and
    \<^verbatim>\<open>queue/local_batch.c\<close>. The invariant \<open>queue_inv\<close> (window inside the ring, heap owned by the live
    slots, exact reference counts) is kept by every operation, the queue refines a bounded FIFO
    (\<open>shq\<close>), events survive the round trip, overflow and contention behave as specified.
  \<^item> \<open>Psch_Concurrent\<close>: the same file at the grain of what processes share, as an inductive step
    relation \<open>cstep\<close>. In every interleaving the worker gets what was published, in order; nothing
    gets stuck; reference counts are exact in every intermediate state and a drained queue owns
    nothing. \<open>solo_enqueue\<close> and \<open>solo_dequeue\<close> connect the steps with the functions.
  \<^item> \<open>Psch_String_Utils\<close>, \<open>Psch_Normalize\<close>, \<open>Psch_Normalize_Cache\<close>: \<^verbatim>\<open>hooks/string_utils.h\<close>,
    \<^verbatim>\<open>hooks/query_normalize.c\<close>, \<^verbatim>\<open>hooks/query_normalize_state.c\<close>. The normalizer equals a reference that
    replaces constants, the cache refines an LRU list (\<open>lru_cache\<close>, \<open>nqc\<close>).
  \<^item> \<open>Psch_Hook_Event\<close>, \<open>Psch_Hooks\<close>: \<^verbatim>\<open>hooks/hooks.c\<close>. Building events stays in bounds; arbitrary trees of
    nested statements, in runs and triggers, with log messages and errors, keep the nesting level
    and all invariants.
  \<^item> \<open>Psch_Arrow\<close>: \<^verbatim>\<open>export/arrow_batch.cc\<close>, one column per schema field with the rows in order.
  \<^item> \<open>Psch_Exporter_Iface\<close>: \<^verbatim>\<open>export/exporter_interface.h\<close> and the rows that \<^verbatim>\<open>ExportEventStatsInternal\<close> builds; the
    contract \<open>stats_exporter\<close> of a backend.
  \<^item> \<open>Psch_Clickhouse\<close>, \<open>Psch_Clickhouse_Batch\<close>, \<open>Psch_Connect\<close>: \<^verbatim>\<open>export/clickhouse_exporter.cc\<close>; the connection,
    the columnar block and the insert dialogue, interpreted as \<open>chx\<close>; connecting within a time limit.
  \<^item> \<open>Psch_Otel\<close>: \<^verbatim>\<open>export/otel_exporter.cc\<close>; log records, chunking and Arrow requests, interpreted as \<open>otx\<close>.
  \<^item> \<open>Psch_Exporter\<close>, \<open>Psch_Export_Live\<close>: \<^verbatim>\<open>export/stats_exporter.cc\<close>; one batch, proved once from \<open>stats_exporter\<close>
    and read off for both backends.
  \<^item> \<open>Psch_Bgworker\<close>: \<^verbatim>\<open>worker/bgworker.c\<close>; the worker from start to exit over the contract \<open>export_worker\<close> (\<open>chw\<close>,
    \<open>otw\<close>). Cycles end, a cycle with a server that answers delivers the queue, one with a server
    that rejects loses it; the retry delay in closed form.
  \<^item> \<open>Psch_Sql\<close>: \<^verbatim>\<open>pg_stat_ch.c\<close> and the reservation of shared memory in \<^verbatim>\<open>queue/shmem.c\<close>. The reserved block has room for
    what is laid out in it; what the statistics functions report and a reset clears.

  \<^bold>\<open>Concurrency.\<close> In \<open>Psch_Concurrent\<close> any number of producers and the worker interleave; a step is
  taking or releasing the lock, the overflow check, the copy of the fixed part, storing or
  taking one text, or moving a position, on sequentially consistent memory (the barriers of
  the code are there for this). A lock-free drop may come at any time, which covers old values
  of the positions. In the other theories an operation on the queue runs to completion: what
  others do while a process waits for the lock is the function \<open>lwlock_wait\<close> of \<open>pg_env\<close>, what
  they do between two batches of the worker is in \<open>bgw_env\<close>, and the two reads of a lock-free
  section are taken from one state.

  \<^bold>\<open>Log messages.\<close> The overflow warning passes through \<^verbatim>\<open>emit_log_hook\<close> while the queue is in use.
  \<open>ereport_log\<close> calls \<open>log_capture\<close>, a parameter that need not return, unless the guard
  \<^verbatim>\<open>disable_error_capture\<close> is set; \<open>unguarded_overflow_deadlocks\<close> shows with the re-entrant call as
  \<open>log_capture\<close> that the guard is needed. The messages and errors of statements go through
  \<^const>\<open>PschEmitLogHook\<close> in \<^const>\<open>exec_toplevel\<close>.

  \<^bold>\<open>Bounds.\<close> No theorem relies on fuel running out. \<^verbatim>\<open>RecvUntil\<close> is bounded by 4096 packets, as
  in the code. The loops without a bound of their own, the drain loop of the worker and the
  \<^verbatim>\<open>poll\<close> loop, are partial functions whose termination is proved, the first for producers that
  pause at some time, the second for a clock that reaches the deadline. The main loop of the
  worker never ends in the code; \<^const>\<open>PschBgworkerMain\<close> runs its first \<open>n\<close> turns, for every \<open>n\<close>.

  \<^bold>\<open>Not modelled.\<close> Log messages of the extension other than the overflow warning and those of
  start-up and shutdown (an error that its own code raises unwinds as \<^const>\<open>Throw\<close> and reaches the
  log hook where the main loop reports it); the Arrow dump files for debugging, the C++
  terminate handler, installing signal handlers and wait events (calls into PostgreSQL without
  a state of their own); in the ClickHouse exporter the allocator callbacks,
  socket options and read deadlines, in the OpenTelemetry exporter the settings of the gRPC
  channel and the resource attributes (constants given to a library);
  \<^verbatim>\<open>export/clickhouse_c_impl.c\<close>, which instantiates a third-party header. SQL scripts and the
  ClickHouse schema are not part of the library.
\<close>

end
